(* ===== verification/Doubles.thy ===== *)
theory Doubles
  imports Complex_Main
begin

text \<open>
  The C type \<^verbatim>\<open>double\<close> of the driver's statistics and timers: a real number, one of the two
  infinities, or NaN, as IEEE arithmetic delivers them when a divisor is zero. Rounding and
  the sign of a zero are not modelled: every zero is positive.

  The type is an instance of the classes of the library, so that the model is written with
  \<open>+\<close>, \<open>*\<close>, \<open>/\<close> and \<open><\<close>, and its sums are the library's. Addition is a commutative monoid;
  the comparisons are no order, because NaN is not even equal to itself for them.
\<close>

datatype double = Fin real | Inf | NegInf | NaN

section \<open>Addition\<close>

instantiation double :: comm_monoid_add
begin

definition zero_double :: double where
  "0 = Fin 0"

fun plus_double :: "double \<Rightarrow> double \<Rightarrow> double" where
  "Fin a + Fin b = Fin (a + b)"
| "NaN + y = NaN"
| "x + NaN = NaN"
| "Inf + NegInf = NaN"
| "NegInf + Inf = NaN"
| "Inf + y = Inf"
| "x + Inf = Inf"
| "NegInf + y = NegInf"
| "x + NegInf = NegInf"

instance
proof
  fix x y z :: double
  show "x + y + z = x + (y + z)" by (cases x; cases y; cases z) simp_all
  show "x + y = y + x" by (cases x; cases y) simp_all
  show "0 + x = x" by (cases x) (simp_all add: zero_double_def)
qed

end

section \<open>Products, quotients and comparisons\<close>

definition signed_inf :: "real \<Rightarrow> double" where
  "signed_inf s = (if s > 0 then Inf else if s < 0 then NegInf else NaN)"

fun sign :: "double \<Rightarrow> real" where
  "sign (Fin r) = sgn r"
| "sign Inf = 1"
| "sign NegInf = - 1"
| "sign NaN = 0"

instantiation double :: "{times, inverse, ord}"
begin

definition times_double :: "double \<Rightarrow> double \<Rightarrow> double" where
  "x * y =
     (case (x, y) of
        (Fin a, Fin b) \<Rightarrow> Fin (a * b)
      | (NaN, _) \<Rightarrow> NaN
      | (_, NaN) \<Rightarrow> NaN
      | _ \<Rightarrow> signed_inf (sign x * sign y))"

definition divide_double :: "double \<Rightarrow> double \<Rightarrow> double" where
  "x div y =
     (case (x, y) of
        (NaN, _) \<Rightarrow> NaN
      | (_, NaN) \<Rightarrow> NaN
      | (Fin a, Fin b) \<Rightarrow> if b = 0 then signed_inf a else Fin (a / b)
      | (Fin a, _) \<Rightarrow> Fin 0
      | (_, Fin b) \<Rightarrow> signed_inf (sign x * (if b < 0 then - 1 else 1))
      | _ \<Rightarrow> NaN)"

definition inverse_double :: "double \<Rightarrow> double" where
  "inverse x = Fin 1 div x"

fun less_double :: "double \<Rightarrow> double \<Rightarrow> bool" where
  "Fin a < Fin b \<longleftrightarrow> a < b"
| "Fin a < Inf \<longleftrightarrow> True"
| "NegInf < Fin b \<longleftrightarrow> True"
| "NegInf < Inf \<longleftrightarrow> True"
| "(x :: double) < y \<longleftrightarrow> False"

definition less_eq_double :: "double \<Rightarrow> double \<Rightarrow> bool" where
  "x \<le> y \<longleftrightarrow> x < y \<or> x = y \<and> x \<noteq> NaN"

instance ..

end

section \<open>Finite values\<close>

lemma Fin_times [simp]: "Fin a * Fin b = Fin (a * b)"
  by (simp add: times_double_def)

lemma Fin_divide: "Fin a / Fin b = (if b = 0 then signed_inf a else Fin (a / b))"
  by (simp add: divide_double_def)

lemma Fin_divide_nz: "b \<noteq> 0 \<Longrightarrow> Fin a / Fin b = Fin (a / b)"
  by (simp add: Fin_divide)

lemma Fin_eq_0 [simp]: "Fin a = 0 \<longleftrightarrow> a = 0"
  by (simp add: zero_double_def)

lemma Fin_compare_0 [simp]: "0 < Fin a \<longleftrightarrow> 0 < a" "Fin a < 0 \<longleftrightarrow> a < 0" "(0 :: double) < Inf" "\<not> (0 :: double) < NegInf"
    "\<not> (0 :: double) < NaN"
  by (simp_all add: zero_double_def)

lemma Fin_0 [simp]: "Fin 0 = 0"
  by (simp add: zero_double_def)

lemma positive_cases:
  assumes "0 < (x :: double)"
  obtains r where "x = Fin r" "0 < r" | "x = Inf"
  using assms by (cases x) auto

text \<open>A positive number over a nonnegative one is positive, at zero even infinite.\<close>

lemma Fin_divide_pos: "0 < a \<Longrightarrow> 0 \<le> b \<Longrightarrow> 0 < Fin a / Fin b"
  by (auto simp: Fin_divide signed_inf_def)

lemma sum_list_Fin: "(\<Sum>x \<leftarrow> xs. Fin (f x)) = Fin (\<Sum>x \<leftarrow> xs. f x)"
  by (induction xs) simp_all

end
