(* ===== verification/Mm_Prelude.thy ===== *)
theory Mm_Prelude
  imports Main "HOL-Library.Word" "HOL-Library.Monad_Syntax"
begin

text \<open>
  What every other theory of the development shares.

  The program is compiled with \<^verbatim>\<open>-m32\<close> (src/Makefile): \<^verbatim>\<open>unsigned int\<close>,
  \<^verbatim>\<open>size_t\<close>, \<^verbatim>\<open>int\<close> and every pointer are 32 bits wide. They are all
  \<open>32 word\<close> in the model, so additions and subtractions wrap as the machine's do. The
  proofs reason about natural numbers instead: \<open>w32\<close> turns a number into a word, and the
  lemmas of this theory move \<open>+\<close>, \<open>-\<close>, \<open>=\<close>, \<open><\<close> and \<open>unat\<close> across it wherever
  no wrap-around happens.

  The collection \<open>word_nat\<close> (moving between words and numbers) and the bundle
  \<open>w32_arith\<close> carry most component proofs.
\<close>

unbundle bit_operations_syntax

named_theorems word_nat "rewrites from 32-bit words to natural numbers"

section \<open>The machine's types\<close>

type_synonym byte = "8 word"
type_synonym addr = "32 word"
type_synonym size_t = "32 word"
type_synonym memory = "addr \<Rightarrow> byte"

definition NULL :: addr where
  "NULL = 0"

section \<open>Words as natural numbers\<close>

definition w32 :: "nat \<Rightarrow> 32 word" where
  "w32 n = of_nat n"

lemma unat_lt2p_32: "unat (x :: 32 word) < 2 ^ 32"
  using unsigned_less [of x] by simp

lemma unat_w32 [word_nat]: "n < 2 ^ 32 \<Longrightarrow> unat (w32 n) = n"
  by (simp add: w32_def unat_of_nat)

lemma w32_unat [simp]: "w32 (unat x) = x"
  by (simp add: w32_def)

lemma w32_0 [simp]: "w32 0 = 0"
  by (simp add: w32_def)

lemma w32_numeral [simp]: "w32 (numeral n) = numeral n"
  by (simp add: w32_def)

lemma w32_1 [simp]: "w32 (Suc 0) = 1"
  by (simp add: w32_def)

lemma w32_eq_iff [word_nat]: "m < 2 ^ 32 \<Longrightarrow> n < 2 ^ 32 \<Longrightarrow> w32 m = w32 n \<longleftrightarrow> m = n"
  by (metis unat_w32)

lemma w32_eq_0_iff [word_nat]: "n < 2 ^ 32 \<Longrightarrow> w32 n = 0 \<longleftrightarrow> n = 0"
  using w32_eq_iff [of n 0] by simp

lemma w32_less_iff [word_nat]: "m < 2 ^ 32 \<Longrightarrow> n < 2 ^ 32 \<Longrightarrow> w32 m < w32 n \<longleftrightarrow> m < n"
  by (simp add: word_less_nat_alt unat_w32)

lemma w32_le_iff [word_nat]: "m < 2 ^ 32 \<Longrightarrow> n < 2 ^ 32 \<Longrightarrow> w32 m \<le> w32 n \<longleftrightarrow> m \<le> n"
  by (simp add: word_le_nat_alt unat_w32)

lemma w32_add: "w32 m + w32 n = w32 (m + n)"
  by (simp add: w32_def)

lemma w32_add_numeral: "w32 m + numeral k = w32 (m + numeral k)"
  by (simp add: w32_def)

lemma w32_diff: "n \<le> m \<Longrightarrow> w32 m - w32 n = w32 (m - n)"
  by (simp add: w32_def)

lemma w32_diff_numeral: "numeral k \<le> m \<Longrightarrow> w32 m - numeral k = w32 (m - numeral k)"
  by (simp add: w32_def)

lemmas w32_arith = w32_add w32_add_numeral w32_diff w32_diff_numeral

lemma w32_diff_1: "1 \<le> m \<Longrightarrow> w32 m - 1 = w32 (m - 1)"
  by (simp add: w32_def)

lemma w32_mult_numeral: "w32 m * numeral k = w32 (m * numeral k)"
  by (simp add: w32_def)

lemma w32_div: "m < 2 ^ 32 \<Longrightarrow> n < 2 ^ 32 \<Longrightarrow> w32 m div w32 n = w32 (m div n)"
  by (rule word_unat_eq_iff [THEN iffD2])
    (simp add: unat_div_distrib unat_w32 div_le_dividend [THEN le_less_trans])

lemma w32_mod: "m < 2 ^ 32 \<Longrightarrow> n < 2 ^ 32 \<Longrightarrow> w32 m mod w32 n = w32 (m mod n)"
  by (rule word_unat_eq_iff [THEN iffD2])
    (simp add: unat_mod_distrib unat_w32 mod_less_eq_dividend [THEN le_less_trans])

lemma w32_and_not_7:
  assumes "n < 2 ^ 32"
  shows "w32 n AND NOT 7 = w32 (n div 8 * 8)"
proof -
  have "w32 n AND NOT (mask 3) = push_bit 3 (drop_bit 3 (w32 n))"
    by (rule bit_word_eqI) (auto simp: bit_simps)
  also have "\<dots> = w32 n div 8 * 8"
    by (simp add: push_bit_eq_mult drop_bit_eq_div)
  also have "\<dots> = w32 (n div 8 * 8)"
    using w32_div [OF assms, of 8] by (simp add: w32_mult_numeral)
  finally show ?thesis by (simp add: mask_numeral)
qed

lemma unat_of_nat_Suc_less: "p < lim \<Longrightarrow> unat (p + 1) = Suc (unat p)" for p lim :: "32 word"
  using unat_lt2p_32 [of lim] by (simp add: word_less_nat_alt unat_word_ariths)

lemma bit_w32: "bit (w32 n) i \<longleftrightarrow> i < 32 \<and> bit n i"
  by (simp add: w32_def bit_of_nat_iff)

lemma sint_neg_iff: "sint (x :: 32 word) < 0 \<longleftrightarrow> 2 ^ 31 \<le> unat x"
proof -
  have "unat x div 2 ^ 31 < 2"
    using unat_lt2p_32 [of x] by (simp add: less_mult_imp_div_less)
  then have "odd (unat x div 2 ^ 31) \<longleftrightarrow> 2 ^ 31 \<le> unat x"
    by (cases "unat x div 2 ^ 31 = 0") (auto simp: div_eq_0_iff less_2_cases_iff)
  moreover have "bit x 31 \<longleftrightarrow> bit (unat x) 31"
    by (simp add: bit_unsigned_iff)
  ultimately show ?thesis
    using bit_last_iff [of x] by (simp add: bit_iff_odd)
qed

lemma sint_w32:
  assumes "n < 2 ^ 31"
  shows "sint (w32 n) = int n"
proof -
  have "uint (w32 n) = int n" using unat_w32 [of n] assms by (simp only: uint_nat) simp
  then show ?thesis using assms by (simp add: sint_uint signed_take_bit_int_eq_self)
qed

lemma bit_of_dvd8: "8 dvd (n :: nat) \<Longrightarrow> bit n i \<Longrightarrow> 2 < i"
proof (rule ccontr)
  assume "8 dvd n" "bit n i" "\<not> 2 < i"
  then have "i = 0 \<or> i = 1 \<or> i = 2" by auto
  with \<open>8 dvd n\<close> \<open>bit n i\<close> show False by (auto simp: bit_iff_odd elim!: dvdE)
qed

lemma bit_3_high: "2 \<le> i \<Longrightarrow> \<not> bit (3 :: 'a :: semiring_bit_operations) i"
  using bit_mask_iff [of 2 i, where 'a = 'a] by (simp add: mask_numeral)

end
