(* ===== verification/Mm_Memory.thy ===== *)
theory Mm_Memory
  imports Mm_Prelude
begin

text \<open>
  The process's memory: a byte for each 32-bit address, read and written one byte at a
  time (\<^verbatim>\<open>GETB\<close>, \<^verbatim>\<open>PUTB\<close>), one little-endian 32-bit word at a time
  (\<^verbatim>\<open>GETW\<close>, \<^verbatim>\<open>PUTW\<close> of src/mm.c), or in bulk (\<^verbatim>\<open>memset\<close> and
  \<^verbatim>\<open>memcpy\<close> of the C library, and \<^verbatim>\<open>debuggable_memset\<close> of src/mm.c).

  The locale \<open>word_store\<close> is the interface the heap proofs use: at the addresses where
  words do not overlap, a read returns what the last write put there. It turns a memory
  into a \<^emph>\<open>view\<close>, a function from word addresses to words, on which a write is a plain
  function update. The allocator only ever addresses aligned words, which is the
  interpretation at the end of the theory.
\<close>

section \<open>Reading and writing\<close>

definition GETB :: "memory \<Rightarrow> addr \<Rightarrow> byte" where
  "GETB m p = m p"

definition PUTB :: "memory \<Rightarrow> addr \<Rightarrow> byte \<Rightarrow> memory" where
  "PUTB m p v = m(p := v)"

definition GETW :: "memory \<Rightarrow> addr \<Rightarrow> 32 word" where
  "GETW m p = ucast (m p) OR push_bit 8 (ucast (m (p + 1)))
     OR push_bit 16 (ucast (m (p + 2))) OR push_bit 24 (ucast (m (p + 3)))"

definition PUTW :: "memory \<Rightarrow> addr \<Rightarrow> 32 word \<Rightarrow> memory" where
  "PUTW m p v = m(p := ucast v, p + 1 := ucast (drop_bit 8 v),
     p + 2 := ucast (drop_bit 16 v), p + 3 := ucast (drop_bit 24 v))"

definition memset :: "memory \<Rightarrow> addr \<Rightarrow> byte \<Rightarrow> size_t \<Rightarrow> memory" where
  "memset m p v n = (\<lambda>a. if a - p < n then v else m a)"

definition memcpy :: "memory \<Rightarrow> addr \<Rightarrow> addr \<Rightarrow> size_t \<Rightarrow> memory" where
  "memcpy m dst src n = (\<lambda>a. if a - dst < n then m (src + (a - dst)) else m a)"

text \<open>
  \<^verbatim>\<open>while (byte_pointer < addr + len) { PUTB(byte_pointer, value); byte_pointer++; }\<close>
\<close>

function debuggable_memset_loop :: "memory \<Rightarrow> addr \<Rightarrow> byte \<Rightarrow> addr \<Rightarrow> memory" where
  "debuggable_memset_loop m byte_pointer value lim =
     (if byte_pointer < lim
      then debuggable_memset_loop (PUTB m byte_pointer value) (byte_pointer + 1) value lim
      else m)"
  by pat_completeness auto
termination
proof (relation "measure (\<lambda>(m, p, v, lim). unat lim - unat p)")
  fix p lim :: addr
  assume "p < lim"
  then have "unat p < unat lim" "unat (p + 1) = Suc (unat p)"
    using unat_of_nat_Suc_less [of p lim] by (simp_all add: word_less_nat_alt)
  then show "((m :: memory, p + 1, v :: byte, lim), (m', p, v, lim))
      \<in> measure (\<lambda>(m, p, v, lim). unat lim - unat p)" for m m' v
    by simp
qed auto

declare debuggable_memset_loop.simps [simp del]

definition debuggable_memset :: "memory \<Rightarrow> addr \<Rightarrow> byte \<Rightarrow> size_t \<Rightarrow> memory" where
  "debuggable_memset m p value len = debuggable_memset_loop m p value (p + len)"

section \<open>One word\<close>

lemma ucast_or_bytes:
  "(ucast (ucast v :: byte) OR push_bit 8 (ucast (ucast (drop_bit 8 v) :: byte))
     OR push_bit 16 (ucast (ucast (drop_bit 16 v) :: byte))
     OR push_bit 24 (ucast (ucast (drop_bit 24 v) :: byte))) = (v :: 32 word)"
proof (rule bit_word_eqI)
  fix n
  assume "n < LENGTH(32)"
  then consider "n < 8" | "8 \<le> n \<and> n < 16" | "16 \<le> n \<and> n < 24" | "24 \<le> n \<and> n < 32"
    by fastforce
  then show "bit (ucast (ucast v :: byte) OR push_bit 8 (ucast (ucast (drop_bit 8 v) :: byte))
     OR push_bit 16 (ucast (ucast (drop_bit 16 v) :: byte))
     OR push_bit 24 (ucast (ucast (drop_bit 24 v) :: byte)) :: 32 word) n \<longleftrightarrow> bit v n"
    by cases (auto simp: bit_simps)
qed

lemma byte_bit_high: "8 \<le> n \<Longrightarrow> \<not> bit (b :: byte) n"
  using bit_imp_le_length [of b n] by auto

lemma word_plus_distinct:
  "(p :: addr) + 1 \<noteq> p" "p + 2 \<noteq> p" "p + 3 \<noteq> p" "p + 2 \<noteq> p + 1" "p + 3 \<noteq> p + 1" "p + 3 \<noteq> p + 2"
  by simp_all

lemma GETW_PUTW_same: "GETW (PUTW m p v) p = v"
  by (simp add: GETW_def PUTW_def ucast_or_bytes)

text \<open>The byte at offset \<open>k\<close> of a word is a slice of the word.\<close>

lemma byte_of_GETW:
  assumes "k < 4"
  shows "m (p + w32 k) = ucast (drop_bit (8 * k) (GETW m p))"
proof -
  from assms consider "k = 0" | "k = 1" | "k = 2" | "k = 3" by linarith
  then show ?thesis
    by cases (auto simp: GETW_def bit_simps byte_bit_high intro!: bit_word_eqI)
qed

section \<open>The word-store interface\<close>

locale word_store =
  fixes get :: "'m \<Rightarrow> nat \<Rightarrow> 32 word"
    and put :: "'m \<Rightarrow> nat \<Rightarrow> 32 word \<Rightarrow> 'm"
    and cell :: "nat \<Rightarrow> bool"
  assumes get_put: "cell a \<Longrightarrow> cell b \<Longrightarrow> get (put m a v) b = (if a = b then v else get m b)"
begin

definition view :: "'m \<Rightarrow> nat \<Rightarrow> 32 word" where
  "view m a = (if cell a then get m a else 0)"

lemma get_view: "cell a \<Longrightarrow> get m a = view m a"
  by (simp add: view_def)

lemma view_put: "cell a \<Longrightarrow> view (put m a v) = (view m)(a := v)"
  by (auto simp: view_def get_put)

lemma view_put_same: "cell a \<Longrightarrow> view (put m a (view m a)) = view m"
  by (simp add: view_put)

end

text \<open>
  Aligned words of the 32-bit address space. Two different ones share no byte, so the
  reads and writes of src/mm.c satisfy the interface.
\<close>

definition wcell :: "nat \<Rightarrow> bool" where
  "wcell a \<longleftrightarrow> 4 dvd a \<and> a < 2 ^ 32"

lemma wcell_offset_eq:
  assumes "wcell a" "wcell b" "i < 4" "j < 4" "w32 a + w32 i = w32 b + w32 j"
  shows "a = b \<and> i = j"
proof -
  from assms(1,2) have "a + i < 2 ^ 32" "b + j < 2 ^ 32" "4 dvd a" "4 dvd b"
    using assms(3,4) by (auto simp: wcell_def elim!: dvdE)
  with assms(5) have "a + i = b + j"
    by (simp add: w32_arith word_nat)
  with \<open>4 dvd a\<close> \<open>4 dvd b\<close> assms(3,4) show ?thesis
    by (metis add_cancel_right_left dvd_imp_mod_0 mod_add_left_eq mod_less add_right_cancel add_0)
qed

lemma GETW_PUTW_other:
  assumes "wcell a" "wcell b" "a \<noteq> b"
  shows "GETW (PUTW m (w32 a) v) (w32 b) = GETW m (w32 b)"
proof -
  have *: "w32 b + w32 j \<noteq> w32 a + w32 i" if "i < 4" "j < 4" for i j
    using wcell_offset_eq [of a b i j] assms that by metis
  show ?thesis
    using * [of 0 0] * [of 0 1] * [of 0 2] * [of 0 3] * [of 1 0] * [of 1 1] * [of 1 2] * [of 1 3]
      * [of 2 0] * [of 2 1] * [of 2 2] * [of 2 3] * [of 3 0] * [of 3 1] * [of 3 2] * [of 3 3]
    by (simp add: GETW_def PUTW_def)
qed

interpretation aligned: word_store
  "\<lambda>m a. GETW m (w32 a)" "\<lambda>m a v. PUTW m (w32 a) v" wcell
  by unfold_locales (auto simp: GETW_PUTW_same GETW_PUTW_other)

definition view :: "memory \<Rightarrow> nat \<Rightarrow> 32 word" where
  "view = aligned.view"

lemmas view_at = aligned.view_def [folded view_def]
  and GETW_view = aligned.get_view [folded view_def]
  and view_PUTW = aligned.view_put [folded view_def]

lemma byte_of_view:
  assumes "wcell a" "k < 4"
  shows "m (w32 (a + k)) = ucast (drop_bit (8 * k) (view m a))"
  using assms byte_of_GETW [of k m "w32 a"] by (simp add: GETW_view w32_arith)

lemma view_eq_bytes:
  assumes "wcell a" "\<And>k. k < 4 \<Longrightarrow> m (w32 (a + k)) = m' (w32 (a + k))"
  shows "view m a = view m' a"
proof -
  have "m (w32 a) = m' (w32 a)" "m (w32 a + 1) = m' (w32 a + 1)"
    "m (w32 a + 2) = m' (w32 a + 2)" "m (w32 a + 3) = m' (w32 a + 3)"
    using assms(2) [of 0] assms(2) [of 1] assms(2) [of 2] assms(2) [of 3]
    by (simp_all add: w32_def add.commute)
  then show ?thesis
    by (simp add: view_at GETW_def)
qed

section \<open>Bulk writes\<close>

lemma memset_at:
  assumes "p + n < 2 ^ 32" "a < 2 ^ 32"
  shows "memset m (w32 p) v (w32 n) (w32 a) = (if p \<le> a \<and> a < p + n then v else m (w32 a))"
proof (cases "p \<le> a")
  case True
  with assms show ?thesis by (auto simp: memset_def w32_arith word_nat)
next
  case False
  then have "w32 a - w32 p = w32 (2 ^ 32 - (p - a))"
    using assms by (simp add: w32_def of_nat_diff)
  with False assms show ?thesis by (auto simp: memset_def word_nat)
qed

lemma memcpy_at:
  assumes "dst + n < 2 ^ 32" "a < 2 ^ 32"
  shows "memcpy m (w32 dst) (w32 src) (w32 n) (w32 a) =
    (if dst \<le> a \<and> a < dst + n then m (w32 (src + (a - dst))) else m (w32 a))"
proof (cases "dst \<le> a")
  case True
  with assms show ?thesis by (auto simp: memcpy_def w32_arith word_nat)
next
  case False
  then have "w32 a - w32 dst = w32 (2 ^ 32 - (dst - a))"
    using assms by (simp add: w32_def of_nat_diff)
  with False assms show ?thesis by (auto simp: memcpy_def word_nat)
qed

lemma PUTB_at: "PUTB m p v a = (if a = p then v else m a)"
  by (simp add: PUTB_def)

lemma debuggable_memset_loop_at:
  assumes "p \<le> lim"
  shows "debuggable_memset_loop m p v lim a = (if p \<le> a \<and> a < lim then v else m a)"
  using assms
proof (induction m p v lim rule: debuggable_memset_loop.induct)
  case (1 m p v lim)
  show ?case
  proof (cases "p < lim")
    case True
    then have Suc: "unat (p + 1) = Suc (unat p)" by (rule unat_of_nat_Suc_less)
    with True have "p + 1 \<le> lim" and "p + 1 \<le> a \<longleftrightarrow> p \<le> a \<and> a \<noteq> p"
      by (auto simp: word_less_nat_alt word_le_nat_alt word_unat_eq_iff)
    moreover have "debuggable_memset_loop (PUTB m p v) (p + 1) v lim a =
        (if p + 1 \<le> a \<and> a < lim then v else PUTB m p v a)"
      by (rule "1.IH") fact+
    ultimately show ?thesis using True
      by (auto simp: debuggable_memset_loop.simps [of m p v lim] PUTB_at)
  next
    case False
    then have "debuggable_memset_loop m p v lim = m"
      by (simp add: debuggable_memset_loop.simps [of m p v lim])
    with False show ?thesis by auto
  qed
qed

text \<open>Unless the area wraps around the end of memory, the loop is libc's \<^verbatim>\<open>memset\<close>.\<close>

lemma debuggable_memset_eq:
  assumes "unat p + unat len < 2 ^ 32"
  shows "debuggable_memset m p v len = memset m p v len"
proof
  fix a :: addr
  have sum: "unat (p + len) = unat p + unat len" using assms by (simp add: unat_word_ariths)
  then have "p \<le> p + len" by (simp add: word_le_nat_alt)
  moreover have "p \<le> a \<and> a < p + len \<longleftrightarrow> a - p < len"
    using sum assms unat_lt2p_32 [of a] unat_lt2p_32 [of p] unat_lt2p_32 [of len]
    by (auto simp: word_le_nat_alt word_less_nat_alt unat_sub_if')
  ultimately show "debuggable_memset m p v len a = memset m p v len a"
    by (simp add: debuggable_memset_def debuggable_memset_loop_at memset_def)
qed

end
