(* ===== verification/Memlib.thy ===== *)
theory Memlib
  imports Mm_Memory
begin

text \<open>
  The simulated memory system of src/memlib.c: an area obtained from the C library's
  \<^verbatim>\<open>malloc\<close> once, and a break pointer that only moves up inside it.

  The C library's \<^verbatim>\<open>malloc\<close> and \<^verbatim>\<open>getpagesize\<close> are not part of the repository:
  the first is the argument \<open>libc_malloc\<close> of \<open>mem_init\<close> (the address the call
  returns), the second the argument of \<open>mem_pagesize\<close>. What the module relies on is
  \<open>area_ok\<close>: a non-null block of the requested size, aligned to eight bytes.
\<close>

section \<open>The module's state and operations\<close>

text \<open>src/config.h: \<^verbatim>\<open>#define MAX_HEAP (20*(1<<20))\<close>.\<close>

definition MAX_HEAP :: size_t where
  "MAX_HEAP = 20 * push_bit 20 1"

record memlib =
  mem :: memory
  mem_start_brk :: addr
  mem_brk :: addr
  mem_max_addr :: addr

datatype exit = Exit int

definition mem_init :: "(size_t \<Rightarrow> addr) \<Rightarrow> 'a memlib_scheme \<Rightarrow> exit + 'a memlib_scheme" where
  "mem_init libc_malloc s =
     (let s = s\<lparr>mem_start_brk := libc_malloc MAX_HEAP\<rparr> in
      if mem_start_brk s = NULL then Inl (Exit 1)
      else
        let s = s\<lparr>mem_max_addr := mem_start_brk s + MAX_HEAP\<rparr>;
            s = s\<lparr>mem_brk := mem_start_brk s\<rparr>
        in Inr s)"

text \<open>\<^verbatim>\<open>mem_deinit\<close> changes no variable of the module: it hands the area back, here its result.\<close>

definition mem_deinit :: "'a memlib_scheme \<Rightarrow> addr" where
  "mem_deinit s = mem_start_brk s"

definition mem_reset_brk :: "'a memlib_scheme \<Rightarrow> 'a memlib_scheme" where
  "mem_reset_brk s = s\<lparr>mem_brk := mem_start_brk s\<rparr>"

text \<open>
  \<^verbatim>\<open>incr\<close> is an \<^verbatim>\<open>int\<close>; callers pass a \<^verbatim>\<open>size_t\<close>, which keeps its bits. The
  bound test adds to a 32-bit pointer, so it wraps for a large increment.
\<close>

definition mem_sbrk :: "32 word \<Rightarrow> 'a memlib_scheme \<Rightarrow> addr \<times> 'a memlib_scheme" where
  "mem_sbrk incr s =
     (let old_brk = mem_brk s in
      if sint incr < 0 \<or> mem_brk s + incr > mem_max_addr s then (- 1, s)
      else (old_brk, s\<lparr>mem_brk := mem_brk s + incr\<rparr>))"

definition mem_heap_lo :: "'a memlib_scheme \<Rightarrow> addr" where
  "mem_heap_lo s = mem_start_brk s"

definition mem_heap_hi :: "'a memlib_scheme \<Rightarrow> addr" where
  "mem_heap_hi s = mem_brk s - 1"

definition mem_heapsize :: "'a memlib_scheme \<Rightarrow> size_t" where
  "mem_heapsize s = mem_brk s - mem_start_brk s"

definition mem_pagesize :: "32 word \<Rightarrow> size_t" where
  "mem_pagesize getpagesize = getpagesize"

section \<open>What the module promises\<close>

text \<open>What \<^verbatim>\<open>mem_init\<close> relies on: \<^verbatim>\<open>malloc\<close> returned an aligned block that fits in memory.\<close>

definition area_ok :: "addr \<Rightarrow> bool" where
  "area_ok p \<longleftrightarrow> p \<noteq> NULL \<and> 8 dvd unat p \<and> unat p + unat MAX_HEAP < 2 ^ 32"

definition memlib_inv :: "'a memlib_scheme \<Rightarrow> bool" where
  "memlib_inv s \<longleftrightarrow> area_ok (mem_start_brk s) \<and>
     unat (mem_max_addr s) = unat (mem_start_brk s) + unat MAX_HEAP \<and>
     unat (mem_start_brk s) \<le> unat (mem_brk s) \<and> unat (mem_brk s) \<le> unat (mem_max_addr s)"

lemma unat_MAX_HEAP [simp]: "unat MAX_HEAP = 20971520"
  by (simp add: MAX_HEAP_def push_bit_eq_mult)

lemma mem_init_ok:
  assumes "area_ok (libc_malloc MAX_HEAP)"
  shows "\<exists>s'. mem_init libc_malloc s = Inr s' \<and> memlib_inv s' \<and> mem s' = mem s \<and>
    mem_brk s' = libc_malloc MAX_HEAP \<and> mem_start_brk s' = libc_malloc MAX_HEAP \<and>
    memlib.more s' = memlib.more s"
  using assms
  by (simp add: mem_init_def memlib_inv_def area_ok_def Let_def unat_word_ariths)

lemma mem_sbrk_ok:
  assumes inv: "memlib_inv s" and nowrap: "unat (mem_brk s) + unat incr < 2 ^ 32"
  shows "mem_sbrk incr s =
    (if unat incr < 2 ^ 31 \<and> unat (mem_brk s) + unat incr \<le> unat (mem_max_addr s)
     then (mem_brk s, s\<lparr>mem_brk := mem_brk s + incr\<rparr>) else (- 1, s))"
proof -
  have "sint incr < 0 \<longleftrightarrow> \<not> unat incr < 2 ^ 31"
    by (simp add: sint_neg_iff not_less)
  moreover have "unat (mem_brk s + incr) = unat (mem_brk s) + unat incr"
    using nowrap by (simp add: unat_word_ariths)
  ultimately show ?thesis
    by (auto simp: mem_sbrk_def Let_def word_less_nat_alt)
qed

end
