(* ===== verification/Mm_Blocks.thy ===== *)
theory Mm_Blocks
  imports Memlib
begin

text \<open>
  The block format of src/mm.c: the size arithmetic of a request, the header word that
  packs a block's size with two flag bits, and the address macros that lead from a
  payload pointer to its header, its footer and its neighbours. The macros keep their
  names; a macro that reads memory takes the memory as its first argument.

  The lemmas evaluate every macro on the addresses of a well-formed heap, as equations
  over natural numbers, and bound the size arithmetic.
\<close>

section \<open>Sizes\<close>

definition WSIZE :: "32 word" where "WSIZE = 4"
definition DSIZE :: "32 word" where "DSIZE = 8"
definition MIN_SIZE :: "32 word" where "MIN_SIZE = 4 * WSIZE"

definition ALIGN :: "size_t \<Rightarrow> size_t" where
  "ALIGN sz = (sz + (DSIZE - 1)) AND NOT 7"

definition ADJUST_WORDCOUNT :: "size_t \<Rightarrow> size_t" where
  "ADJUST_WORDCOUNT sz = (if sz < 3 then 3 else sz + ((sz mod 2) XOR 1))"

definition ADJUST_BYTESIZE :: "size_t \<Rightarrow> size_t" where
  "ADJUST_BYTESIZE sz = ALIGN (ADJUST_WORDCOUNT ((sz + WSIZE - 1) div WSIZE) * WSIZE)"

definition MAX2 :: "size_t \<Rightarrow> size_t \<Rightarrow> size_t" where
  "MAX2 x y = (if x > y then x else y)"

section \<open>Headers\<close>

definition THISALLOC :: "32 word" where "THISALLOC = 1"
definition PREVALLOC :: "32 word" where "PREVALLOC = 2"

definition PACK :: "32 word \<Rightarrow> 32 word \<Rightarrow> 32 word" where
  "PACK sz alloc = sz OR alloc"

definition GET_SIZE :: "memory \<Rightarrow> addr \<Rightarrow> size_t" where
  "GET_SIZE m p = GETW m p AND NOT (THISALLOC OR PREVALLOC)"

definition GET_ALLOC :: "memory \<Rightarrow> addr \<Rightarrow> 32 word" where
  "GET_ALLOC m p = GETW m p AND THISALLOC"

definition GET_BLOCKHDR :: "addr \<Rightarrow> addr" where
  "GET_BLOCKHDR bp = bp - WSIZE"

definition GET_BLOCKFTR :: "memory \<Rightarrow> addr \<Rightarrow> addr" where
  "GET_BLOCKFTR m bp = bp + GET_SIZE m (GET_BLOCKHDR bp) - DSIZE"

definition GET_PREVALLOC :: "memory \<Rightarrow> addr \<Rightarrow> 32 word" where
  "GET_PREVALLOC m bp = GETW m (GET_BLOCKHDR bp) AND PREVALLOC"

definition GET_NEXTBLOCK :: "memory \<Rightarrow> addr \<Rightarrow> addr" where
  "GET_NEXTBLOCK m bp = bp + GET_SIZE m (bp - WSIZE)"

definition GET_PREVBLOCK :: "memory \<Rightarrow> addr \<Rightarrow> addr" where
  "GET_PREVBLOCK m bp = bp - GET_SIZE m (bp - DSIZE)"

definition GET_NEXTALLOC :: "memory \<Rightarrow> addr \<Rightarrow> 32 word" where
  "GET_NEXTALLOC m bp = GET_ALLOC m (GET_BLOCKHDR (GET_NEXTBLOCK m bp))"

definition GET_THISALLOC :: "memory \<Rightarrow> addr \<Rightarrow> 32 word" where
  "GET_THISALLOC m bp = GET_ALLOC m (GET_BLOCKHDR bp)"

definition GET_THISSIZE :: "memory \<Rightarrow> addr \<Rightarrow> size_t" where
  "GET_THISSIZE m bp = GET_SIZE m (GET_BLOCKHDR bp)"

section \<open>The struct mem_header\<close>

text \<open>
  Three 32-bit fields: \<^verbatim>\<open>size_alloc\<close> at offset 0, \<^verbatim>\<open>next_free\<close> at 4 and
  \<^verbatim>\<open>prev_free\<close> at 8. \<^verbatim>\<open>PAYLOAD_FROM_MEMHEADER(mh)\<close> adds \<^verbatim>\<open>WSIZE\<close> to a
  \<^verbatim>\<open>mem_header *\<close>, so it advances by \<^verbatim>\<open>WSIZE\<close> structs of 12 bytes.
\<close>

definition MEMHEADER_FROM_PAYLOAD :: "addr \<Rightarrow> addr" where
  "MEMHEADER_FROM_PAYLOAD p = GET_BLOCKHDR p"

definition sizeof_mem_header :: "32 word" where
  "sizeof_mem_header = 12"

definition PAYLOAD_FROM_MEMHEADER :: "addr \<Rightarrow> addr" where
  "PAYLOAD_FROM_MEMHEADER mh = mh + WSIZE * sizeof_mem_header"

definition next_free :: "memory \<Rightarrow> addr \<Rightarrow> addr" where
  "next_free m header = GETW m (header + 4)"

definition prev_free :: "memory \<Rightarrow> addr \<Rightarrow> addr" where
  "prev_free m header = GETW m (header + 8)"

definition set_next_free :: "addr \<Rightarrow> addr \<Rightarrow> memory \<Rightarrow> memory" where
  "set_next_free header v m = PUTW m (header + 4) v"

definition set_prev_free :: "addr \<Rightarrow> addr \<Rightarrow> memory \<Rightarrow> memory" where
  "set_prev_free header v m = PUTW m (header + 8) v"

section \<open>Free-list indices\<close>

definition FREELIST_COUNT :: nat where
  "FREELIST_COUNT = 17"

function calc_list_index_loop :: "size_t \<Rightarrow> nat \<Rightarrow> nat" where
  "calc_list_index_loop sz bits =
     (if drop_bit bits sz > 1 \<and> bits + 1 < FREELIST_COUNT
      then calc_list_index_loop sz (bits + 1) else bits)"
  by pat_completeness auto
termination
  by (relation "measure (\<lambda>(sz, bits). FREELIST_COUNT - bits)") auto

declare calc_list_index_loop.simps [simp del]

definition calc_list_index :: "size_t \<Rightarrow> nat" where
  "calc_list_index sz = calc_list_index_loop sz 0"

section \<open>Lemmas: headers\<close>

text \<open>The header of a block of \<open>sz\<close> bytes; \<open>sz\<close> is a multiple of 8.\<close>

definition hdr :: "nat \<Rightarrow> bool \<Rightarrow> bool \<Rightarrow> 32 word" where
  "hdr sz this prev =
     PACK (w32 sz) ((if this then THISALLOC else 0) OR (if prev then PREVALLOC else 0))"

lemma hdr_size:
  assumes "8 dvd sz"
  shows "hdr sz this prev AND NOT (THISALLOC OR PREVALLOC) = w32 sz"
  by (intro bit_word_eqI)
    (auto simp: hdr_def PACK_def THISALLOC_def PREVALLOC_def bit_simps bit_w32 bit_1_iff
      bit_3_high dest: bit_of_dvd8 [OF assms])

lemma hdr_this:
  assumes "8 dvd sz"
  shows "hdr sz this prev AND THISALLOC = (if this then 1 else 0)"
  by (intro bit_word_eqI)
    (auto simp: hdr_def PACK_def THISALLOC_def PREVALLOC_def bit_simps bit_w32 bit_1_iff
      dest!: bit_of_dvd8 [OF assms])

lemma hdr_prev:
  assumes "8 dvd sz"
  shows "hdr sz this prev AND PREVALLOC = (if prev then 2 else 0)"
  by (intro bit_word_eqI)
    (auto simp: hdr_def PACK_def THISALLOC_def PREVALLOC_def bit_simps bit_w32 bit_1_iff
      dest!: bit_of_dvd8 [OF assms])

section \<open>Lemmas: addresses\<close>

lemma GET_SIZE_hdr:
  "wcell c \<Longrightarrow> view m c = hdr sz this prev \<Longrightarrow> 8 dvd sz \<Longrightarrow> GET_SIZE m (w32 c) = w32 sz"
  unfolding GET_SIZE_def by (metis GETW_view hdr_size)

lemma GET_ALLOC_hdr:
  "wcell c \<Longrightarrow> view m c = hdr sz this prev \<Longrightarrow> 8 dvd sz \<Longrightarrow>
    GET_ALLOC m (w32 c) = (if this then 1 else 0)"
  by (simp add: GET_ALLOC_def GETW_view hdr_this)

lemma BLOCKHDR_w32: "4 \<le> a \<Longrightarrow> GET_BLOCKHDR (w32 a) = w32 (a - 4)"
  by (simp add: GET_BLOCKHDR_def WSIZE_def w32_arith)

lemma next_free_w32: "4 \<le> a \<Longrightarrow> wcell a \<Longrightarrow> next_free m (w32 (a - 4)) = view m a"
  by (simp add: next_free_def w32_arith GETW_view)

lemma hdr_plus_8: "4 \<le> a \<Longrightarrow> w32 (a - 4) + 8 = w32 (a + 4)"
  by (simp add: w32_def)

lemma prev_free_w32: "4 \<le> a \<Longrightarrow> wcell (a + 4) \<Longrightarrow> prev_free m (w32 (a - 4)) = view m (a + 4)"
  by (simp add: prev_free_def GETW_view hdr_plus_8)

lemma set_next_free_w32:
  "4 \<le> a \<Longrightarrow> wcell a \<Longrightarrow> view (set_next_free (w32 (a - 4)) v m) = (view m)(a := v)"
  by (simp add: set_next_free_def w32_arith view_PUTW)

lemma set_prev_free_w32:
  "4 \<le> a \<Longrightarrow> wcell (a + 4) \<Longrightarrow> view (set_prev_free (w32 (a - 4)) v m) = (view m)(a + 4 := v)"
  by (simp add: set_prev_free_def view_PUTW hdr_plus_8)

text \<open>A payload address whose header word is known: everything the macros read there.\<close>

definition has_hdr :: "memory \<Rightarrow> nat \<Rightarrow> nat \<Rightarrow> bool \<Rightarrow> bool \<Rightarrow> bool" where
  "has_hdr m a sz this prev \<longleftrightarrow>
     4 \<le> a \<and> wcell (a - 4) \<and> 8 dvd sz \<and> view m (a - 4) = hdr sz this prev"

lemma hdr_macros:
  assumes "has_hdr m a sz this prev"
  shows THISSIZE_w32: "GET_THISSIZE m (w32 a) = w32 sz"
    and THISALLOC_w32: "GET_THISALLOC m (w32 a) = (if this then 1 else 0)"
    and PREVALLOC_w32: "GET_PREVALLOC m (w32 a) = (if prev then 2 else 0)"
    and NEXTBLOCK_w32: "GET_NEXTBLOCK m (w32 a) = w32 (a + sz)"
    and BLOCKFTR_w32: "8 \<le> a + sz \<Longrightarrow> GET_BLOCKFTR m (w32 a) = w32 (a + sz - 8)"
    and HDRSIZE_w32: "GET_SIZE m (w32 (a - 4)) = w32 sz"
  using assms
  by (auto simp: has_hdr_def GET_THISSIZE_def GET_THISALLOC_def GET_PREVALLOC_def GET_NEXTBLOCK_def
      GET_BLOCKFTR_def GET_BLOCKHDR_def WSIZE_def DSIZE_def GETW_view GET_SIZE_hdr GET_ALLOC_hdr
      hdr_prev w32_arith)

lemma NEXTALLOC_w32:
  assumes "has_hdr m a sz this prev" "has_hdr m (a + sz) sz' this' prev'"
  shows "GET_NEXTALLOC m (w32 a) = (if this' then 1 else 0)"
  using THISALLOC_w32 [OF assms(2)]
  by (simp add: GET_NEXTALLOC_def NEXTBLOCK_w32 [OF assms(1)] GET_THISALLOC_def)

lemma PREVBLOCK_w32:
  assumes "has_hdr m (a - 4) sz this prev" "8 \<le> a" "sz \<le> a"
  shows "GET_PREVBLOCK m (w32 a) = w32 (a - sz)"
  using assms by (auto simp: has_hdr_def GET_PREVBLOCK_def GET_SIZE_hdr DSIZE_def w32_arith
      diff_diff_left)

section \<open>Lemmas: sizes\<close>

text \<open>The size of the block a request for \<open>n\<close> bytes gets, on natural numbers.\<close>

definition adjusted :: "nat \<Rightarrow> nat" where
  "adjusted n = (let w = (n + 3) div 4 in 4 * (if w < 3 then 3 else if even w then w + 1 else w) + 4)"

lemma adjusted_bounds:
  "8 dvd adjusted n" "16 \<le> adjusted n" "n + 4 \<le> adjusted n" "0 < n \<Longrightarrow> adjusted n \<le> n + 15"
  by (auto simp: adjusted_def Let_def) presburger+

lemma ADJUST_WORDCOUNT_w32:
  assumes "w + 1 < 2 ^ 32"
  shows "ADJUST_WORDCOUNT (w32 w) = w32 (if w < 3 then 3 else if even w then w + 1 else w)"
proof -
  have "w32 w mod 2 = w32 (w mod 2)"
    using w32_mod [of w 2] assms by simp
  moreover have "w32 w < 3 \<longleftrightarrow> w < 3"
    using w32_less_iff [of w 3] assms by simp
  ultimately show ?thesis
    by (auto simp: ADJUST_WORDCOUNT_def mod2_eq_if w32_def)
qed

lemma ADJUST_BYTESIZE_w32:
  assumes "n + 15 < 2 ^ 32"
  shows "ADJUST_BYTESIZE (w32 n) = w32 (adjusted n)"
proof -
  define w where "w = (n + 3) div 4"
  have "(w32 n + WSIZE - 1) div WSIZE = w32 w"
    using w32_div [of "n + 3" 4] assms by (simp add: WSIZE_def w32_arith w32_diff_1 w_def add.commute [of n 3])
  moreover define v where "v = (if w < 3 then 3 else if even w then w + 1 else w)"
  ultimately have "ADJUST_BYTESIZE (w32 n) = ALIGN (w32 (v * 4))"
    using ADJUST_WORDCOUNT_w32 [of w] assms
    by (simp add: ADJUST_BYTESIZE_def WSIZE_def w_def w32_mult_numeral)
  also have "\<dots> = w32 ((v * 4 + 7) div 8 * 8)"
  proof -
    have "v * 4 + 7 < 2 ^ 32"
      using assms by (auto simp: v_def w_def)
    from w32_and_not_7 [OF this] show ?thesis
      by (simp add: ALIGN_def DSIZE_def w32_arith)
  qed
  also have "(v * 4 + 7) div 8 * 8 = adjusted n"
  proof -
    have "odd v" by (auto simp: v_def)
    then obtain k where "v = 2 * k + 1" by (elim oddE)
    then show ?thesis by (simp add: adjusted_def Let_def flip: v_def w_def)
  qed
  finally show ?thesis .
qed

lemma calc_list_index_loop_bounds:
  assumes "bits < FREELIST_COUNT" "bits = 0 \<or> 2 ^ bits \<le> unat sz"
  defines "i \<equiv> calc_list_index_loop sz bits"
  shows "i < FREELIST_COUNT \<and> (i = 0 \<or> 2 ^ i \<le> unat sz) \<and>
    (i + 1 < FREELIST_COUNT \<longrightarrow> unat sz < 2 ^ (i + 1))"
  using assms(1,2) unfolding i_def
proof (induction sz bits rule: calc_list_index_loop.induct)
  case (1 sz bits)
  have div: "1 < drop_bit bits sz \<longleftrightarrow> 2 ^ (bits + 1) \<le> unat sz"
  proof -
    have "unat (drop_bit bits sz) = unat sz div 2 ^ bits"
      by (simp only: unat_drop_bit_eq) (simp only: drop_bit_eq_div)
    with less_eq_div_iff_mult_less_eq [of "2 ^ bits" 2 "unat sz"] show ?thesis
      by (simp add: word_less_nat_alt numeral_2_eq_2 Suc_le_eq)
  qed
  show ?case
  proof (cases "1 < drop_bit bits sz \<and> bits + 1 < FREELIST_COUNT")
    case True
    with "1.IH" div show ?thesis
      by (simp add: calc_list_index_loop.simps [of sz bits])
  next
    case False
    with "1.prems" div show ?thesis
      by (auto simp: calc_list_index_loop.simps [of sz bits])
  qed
qed

lemma calc_list_index_bounds:
  "calc_list_index sz < FREELIST_COUNT"
  "calc_list_index sz = 0 \<or> 2 ^ calc_list_index sz \<le> unat sz"
  "calc_list_index sz + 1 < FREELIST_COUNT \<Longrightarrow> unat sz < 2 ^ (calc_list_index sz + 1)"
  using calc_list_index_loop_bounds [of 0 sz]
  by (simp_all add: calc_list_index_def FREELIST_COUNT_def)

lemma calc_list_index_less_17 [simp]: "calc_list_index sz < 17"
  using calc_list_index_bounds(1) [of sz] by (simp add: FREELIST_COUNT_def)

end
