(* ===== verification/Mm_Free_Lists.thy ===== *)
theory Mm_Free_Lists
  imports Mm_Blocks
begin

text \<open>
  The segregated free lists of src/mm.c: an array of 17 list heads, each the payload
  address of the first block of a doubly linked list whose links are stored in the
  blocks themselves. This theory has the package's state, the four list routines and
  their correctness on heap views: what \<open>add_to_list\<close> and \<open>remove_from_list\<close> do to a
  represented list, and which words they may write.

  A routine that loops until a null pointer is a \<^theory_text>\<open>partial_function\<close>, so that
  \<open>None\<close> means the C code does not return.
\<close>

section \<open>The state of the package\<close>

text \<open>The static variables of src/mm.c, on top of those of src/memlib.c.\<close>

record mm_state = memlib +
  free_lists :: "addr list"
  PAGE_SIZE :: size_t
  ADJUSTED_PAGESIZE :: size_t
  heap_start :: addr
  heap_end :: addr

definition putw :: "addr \<Rightarrow> 32 word \<Rightarrow> mm_state \<Rightarrow> mm_state" where
  "putw p v s = s\<lparr>mem := PUTW (mem s) p v\<rparr>"

lemma upd_mem_first [simp]:
  "s\<lparr>free_lists := f, mem := m\<rparr> = s\<lparr>mem := m, free_lists := f\<rparr>" for s :: mm_state
  by simp

section \<open>The list routines\<close>

partial_function (option) find_end_loop :: "memory \<Rightarrow> addr \<Rightarrow> addr \<Rightarrow> addr option" where
  "find_end_loop m bp next_bp =
     (if next_bp \<noteq> NULL then find_end_loop m next_bp (GETW m next_bp) else Some bp)"

declare find_end_loop.simps [code]

definition find_end_of_list :: "nat \<Rightarrow> mm_state \<Rightarrow> addr option" where
  "find_end_of_list list_index s =
     (let bp = free_lists s ! list_index in find_end_loop (mem s) bp bp)"

definition remove_from_list :: "addr \<Rightarrow> nat \<Rightarrow> mm_state \<Rightarrow> mm_state" where
  "remove_from_list bp list_index s =
     (let header = MEMHEADER_FROM_PAYLOAD bp;
          s = (if next_free (mem s) header \<noteq> NULL
               then let next_header = MEMHEADER_FROM_PAYLOAD (next_free (mem s) header)
                    in s\<lparr>mem := set_prev_free next_header (prev_free (mem s) header) (mem s)\<rparr>
               else s);
          s = (if prev_free (mem s) header \<noteq> NULL
               then let prev_header = MEMHEADER_FROM_PAYLOAD (prev_free (mem s) header)
                    in s\<lparr>mem := set_next_free prev_header (next_free (mem s) header) (mem s)\<rparr>
               else s)
      in if free_lists s ! list_index = bp
         then s\<lparr>free_lists := (free_lists s)[list_index := next_free (mem s) header]\<rparr>
         else s)"

definition add_to_list :: "addr \<Rightarrow> nat \<Rightarrow> mm_state \<Rightarrow> mm_state option" where
  "add_to_list bp list_index s =
     (let current = MEMHEADER_FROM_PAYLOAD bp;
          s = s\<lparr>mem := set_next_free current NULL (mem s)\<rparr>
      in do {
        tail_payload \<leftarrow> find_end_of_list list_index s;
        if tail_payload = NULL
        then
          let s = s\<lparr>free_lists := (free_lists s)[list_index := bp]\<rparr>;
              s = s\<lparr>mem := set_prev_free current NULL (mem s)\<rparr>
          in Some s
        else
          let tail_node = MEMHEADER_FROM_PAYLOAD tail_payload;
              s = s\<lparr>mem := set_next_free tail_node bp (mem s)\<rparr>;
              s = s\<lparr>mem := set_prev_free current tail_payload (mem s)\<rparr>
          in Some s
      })"

text \<open>
  \<^verbatim>\<open>get_node_listindex\<close>: back to the first node of the list, then the index of the head
  that points to it, or \<open>-1\<close>.
\<close>

partial_function (option) list_front_loop :: "memory \<Rightarrow> addr \<Rightarrow> addr option" where
  "list_front_loop m header =
     (if prev_free m header \<noteq> NULL
      then list_front_loop m (MEMHEADER_FROM_PAYLOAD (prev_free m header)) else Some header)"

declare list_front_loop.simps [code]

fun head_index_loop :: "addr list \<Rightarrow> addr \<Rightarrow> int \<Rightarrow> int" where
  "head_index_loop [] p i = - 1"
| "head_index_loop (h # hs) p i = (if h = p then i else head_index_loop hs p (i + 1))"

definition get_node_listindex :: "addr \<Rightarrow> mm_state \<Rightarrow> int option" where
  "get_node_listindex bp s =
     do {
       header \<leftarrow> list_front_loop (mem s) (MEMHEADER_FROM_PAYLOAD bp);
       Some (head_index_loop (take FREELIST_COUNT (free_lists s)) (PAYLOAD_FROM_MEMHEADER header) 0)
     }"

section \<open>Represented lists\<close>

text \<open>
  \<open>dll H p xs n\<close>: in the view \<open>H\<close> the payload addresses \<open>xs\<close> form a doubly linked
  list segment with predecessor \<open>p\<close> and successor \<open>n\<close> (0 for the null pointer). A
  node's next link is the first word of its payload, its previous link the second.
\<close>

definition hdn :: "nat list \<Rightarrow> nat \<Rightarrow> nat" where
  "hdn xs n = (case xs of [] \<Rightarrow> n | x # _ \<Rightarrow> x)"

definition lastp :: "nat \<Rightarrow> nat list \<Rightarrow> nat" where
  "lastp p xs = (if xs = [] then p else last xs)"

fun dll :: "(nat \<Rightarrow> 32 word) \<Rightarrow> nat \<Rightarrow> nat list \<Rightarrow> nat \<Rightarrow> bool" where
  "dll H p [] n \<longleftrightarrow> True"
| "dll H p (x # xs) n \<longleftrightarrow> H (x + 4) = w32 p \<and> H x = w32 (hdn xs n) \<and> dll H x xs n"

text \<open>A possible list node: an aligned payload address.\<close>

definition node :: "nat \<Rightarrow> bool" where
  "node x \<longleftrightarrow> 8 dvd x \<and> 8 \<le> x \<and> x + 8 < 2 ^ 32"

lemma hdn_simps [simp]: "hdn [] n = n" "hdn (x # xs) n = x"
  "hdn (xs @ ys) n = hdn xs (hdn ys n)"
  by (simp_all add: hdn_def split: list.split)

lemma lastp_simps [simp]: "lastp p [] = p" "lastp p (x # xs) = lastp x xs"
  "lastp p (xs @ ys) = lastp (lastp p xs) ys"
  by (simp_all add: lastp_def)

lemma hdn_not_Nil: "xs \<noteq> [] \<Longrightarrow> hdn xs n = hd xs"
  by (cases xs) simp_all

lemma lastp_not_Nil: "xs \<noteq> [] \<Longrightarrow> lastp p xs = last xs"
  by (simp add: lastp_def)

lemma node_cells:
  assumes "node x"
  shows "wcell x" "wcell (x + 4)" "4 \<le> x" "x < 2 ^ 32" "x \<noteq> 0"
  using assms by (auto simp: node_def wcell_def elim!: dvdE)

lemma node_distinct_cells:
  assumes "node x" "node y"
  shows "x + 4 \<noteq> y" "x + 4 = y + 4 \<longleftrightarrow> x = y"
  using assms by (auto simp: node_def elim!: dvdE) presburger

lemma node_off_links:
  assumes "node c" "\<forall>x \<in> set xs. node x"
  shows "c \<notin> (\<lambda>x. x + 4) ` set xs" "c + 4 \<notin> set xs"
  using assms node_distinct_cells(1) by blast+

lemma dll_append: "dll H p (xs @ ys) n \<longleftrightarrow> dll H p xs (hdn ys n) \<and> dll H (lastp p xs) ys n"
  by (induction xs arbitrary: p) auto

lemma dll_frame:
  "c \<notin> set xs \<Longrightarrow> c \<notin> (\<lambda>x. x + 4) ` set xs \<Longrightarrow> dll (H(c := v)) p xs n \<longleftrightarrow> dll H p xs n"
  by (induction xs arbitrary: p) auto

lemma dll_cong:
  "(\<And>x. x \<in> set xs \<Longrightarrow> H' x = H x \<and> H' (x + 4) = H (x + 4)) \<Longrightarrow> dll H' p xs n \<longleftrightarrow> dll H p xs n"
  by (induction xs arbitrary: p) auto

text \<open>Relinking one end of a segment.\<close>

lemma dll_set_next:
  assumes "dll H p (xs @ [x]) n" "distinct (xs @ [x])" "\<forall>y \<in> set (xs @ [x]). node y"
  shows "dll (H(x := w32 n')) p (xs @ [x]) n'"
proof -
  have "x \<notin> (\<lambda>y. y + 4) ` set (xs @ [x])"
    using assms(3) by (intro node_off_links) simp_all
  with assms(1,2) show ?thesis
    by (auto simp: dll_append dll_frame)
qed

lemma dll_set_prev:
  assumes "dll H p (x # xs) n" "distinct (x # xs)" "\<forall>y \<in> set (x # xs). node y"
  shows "dll (H(x + 4 := w32 p')) p' (x # xs) n"
proof -
  have "x + 4 \<notin> set (x # xs)"
    using assms(3) by (intro node_off_links) simp_all
  moreover have "x + 4 \<notin> (\<lambda>y. y + 4) ` set xs"
    using assms(2) by auto
  ultimately show ?thesis
    using assms(1,2) by (auto simp: dll_frame)
qed

section \<open>The routines on represented lists\<close>

lemma find_end_loop_dll:
  assumes "dll (view m) p xs 0" "\<forall>x \<in> set xs. node x"
  shows "find_end_loop m (w32 b) (w32 (hdn xs 0)) = Some (w32 (lastp b xs))"
  using assms
proof (induction xs arbitrary: p b)
  case Nil
  then show ?case by (simp add: find_end_loop.simps NULL_def)
next
  case (Cons x xs)
  then have "node x" by simp
  with Cons.prems have "GETW m (w32 x) = w32 (hdn xs 0)" "w32 x \<noteq> NULL"
    using node_cells [of x] by (simp_all add: GETW_view NULL_def w32_eq_0_iff)
  moreover have "find_end_loop m (w32 x) (w32 (hdn xs 0)) = Some (w32 (lastp x xs))"
    using Cons by auto
  ultimately show ?case
    by (simp add: find_end_loop.simps [of m "w32 b"])
qed

lemma node_NULL: "node x \<Longrightarrow> w32 x \<noteq> NULL"
  using node_cells [of x] by (simp add: NULL_def w32_eq_0_iff)

lemma node_eq: "node x \<Longrightarrow> node y \<Longrightarrow> w32 x = w32 y \<longleftrightarrow> x = y"
  using node_cells by (simp add: w32_eq_iff)

lemmas node_rewrites = MEMHEADER_FROM_PAYLOAD_def BLOCKHDR_w32 next_free_w32 prev_free_w32
  set_next_free_w32 set_prev_free_w32 node_cells node_NULL

text \<open>What \<open>add_to_list\<close> does to a represented list: \<open>b\<close> becomes its last node.\<close>

definition add_view :: "nat \<Rightarrow> nat list \<Rightarrow> (nat \<Rightarrow> 32 word) \<Rightarrow> nat \<Rightarrow> 32 word" where
  "add_view b xs H =
     (if xs = [] then H(b := 0, b + 4 := 0)
      else H(b := 0, last xs := w32 b, b + 4 := w32 (last xs)))"

lemma add_to_list_view:
  assumes head: "free_lists s ! i = w32 (hdn xs 0)"
    and dll: "dll (view (mem s)) 0 xs 0" "\<forall>x \<in> set xs. node x"
    and b: "node b" "b \<notin> set xs"
  shows "\<exists>m. add_to_list (w32 b) i s =
      Some (s\<lparr>mem := m, free_lists := if xs = [] then (free_lists s)[i := w32 b] else free_lists s\<rparr>) \<and>
    view m = add_view b xs (view (mem s))"
proof -
  define m1 where "m1 = set_next_free (w32 (b - 4)) 0 (mem s)"
  have m1: "view m1 = (view (mem s))(b := 0)"
    using b(1) by (simp add: m1_def node_rewrites)
  have "b \<notin> (\<lambda>x. x + 4) ` set xs"
    using dll(2) b by (simp add: node_off_links)
  with dll b have "dll (view m1) 0 xs 0"
    by (simp add: m1 dll_frame)
  from find_end_loop_dll [OF this dll(2), of "hdn xs 0"]
  have "find_end_of_list i (s\<lparr>mem := m1\<rparr>) = Some (w32 (lastp 0 xs))"
    by (cases xs) (simp_all add: find_end_of_list_def head)
  moreover have "node (last xs)" if "xs \<noteq> []"
    using that dll(2) by simp
  moreover have "w32 (last xs) \<noteq> 0" if "xs \<noteq> []"
    using node_NULL [of "last xs"] calculation(2) that by (simp add: NULL_def)
  ultimately have "add_to_list (w32 b) i s = Some (if xs = []
      then s\<lparr>mem := set_prev_free (w32 (b - 4)) 0 m1, free_lists := (free_lists s)[i := w32 b]\<rparr>
      else s\<lparr>mem := set_prev_free (w32 (b - 4)) (w32 (last xs))
               (set_next_free (w32 (last xs - 4)) (w32 b) m1)\<rparr>)"
    using b(1) by (simp add: add_to_list_def Let_def MEMHEADER_FROM_PAYLOAD_def BLOCKHDR_w32
        node_cells NULL_def m1_def [symmetric] lastp_def)
  with b(1) \<open>xs \<noteq> [] \<Longrightarrow> node (last xs)\<close> show ?thesis
    by (cases "xs = []") (auto simp: node_rewrites m1 add_view_def intro!: exI)
qed

text \<open>What \<open>remove_from_list\<close> does to a represented list: the neighbours of \<open>b\<close> are joined.\<close>

definition remove_view ::
  "nat list \<Rightarrow> nat list \<Rightarrow> (nat \<Rightarrow> 32 word) \<Rightarrow> nat \<Rightarrow> 32 word" where
  "remove_view xs ys H =
     (let H = (if ys = [] then H else H(hdn ys 0 + 4 := w32 (lastp 0 xs)))
      in if xs = [] then H else H(lastp 0 xs := w32 (hdn ys 0)))"

text \<open>
  The routine with its two links read off: next node \<open>n\<close>, previous node \<open>p\<close>, either of
  them 0 when there is none.
\<close>

lemma remove_from_list_links:
  assumes b: "node b" and n: "n = 0 \<or> node n \<and> n \<noteq> b" and p: "p = 0 \<or> node p \<and> p \<noteq> b"
    and links: "view (mem s) b = w32 n" "view (mem s) (b + 4) = w32 p"
  shows "\<exists>m. remove_from_list (w32 b) i s =
      s\<lparr>mem := m, free_lists :=
          if free_lists s ! i = w32 b then (free_lists s)[i := w32 n] else free_lists s\<rparr> \<and>
    view m = (let H = (if n = 0 then view (mem s) else (view (mem s))(n + 4 := w32 p))
              in if p = 0 then H else H(p := w32 n))"
proof -
  define m1 where "m1 = (if n = 0 then mem s else set_prev_free (w32 (n - 4)) (w32 p) (mem s))"
  define m2 where "m2 = (if p = 0 then m1 else set_next_free (w32 (p - 4)) (w32 n) m1)"
  have m1: "view m1 = (if n = 0 then view (mem s) else (view (mem s))(n + 4 := w32 p))"
    using n by (auto simp: m1_def node_rewrites)
  then have links1: "view m1 b = w32 n" "view m1 (b + 4) = w32 p"
    using links n b node_distinct_cells [of n b] by auto
  have m2: "view m2 = (if p = 0 then view m1 else (view m1)(p := w32 n))"
    using p by (auto simp: m2_def node_rewrites)
  then have links2: "view m2 b = w32 n"
    using links1 p by auto
  have zero: "w32 n = 0 \<longleftrightarrow> n = 0" "w32 p = 0 \<longleftrightarrow> p = 0"
    using n p node_NULL by (auto simp: NULL_def)
  have step1: "(if next_free (mem s) (w32 (b - 4)) \<noteq> NULL
      then s\<lparr>mem := set_prev_free (MEMHEADER_FROM_PAYLOAD (next_free (mem s) (w32 (b - 4))))
             (prev_free (mem s) (w32 (b - 4))) (mem s)\<rparr> else s) = s\<lparr>mem := m1\<rparr>"
    using b n by (auto simp: node_rewrites links NULL_def zero m1_def)
  have step2: "(if prev_free m1 (w32 (b - 4)) \<noteq> NULL
      then s\<lparr>mem := set_next_free (MEMHEADER_FROM_PAYLOAD (prev_free m1 (w32 (b - 4))))
             (next_free m1 (w32 (b - 4))) m1\<rparr> else s\<lparr>mem := m1\<rparr>) = s\<lparr>mem := m2\<rparr>"
    using b p by (auto simp: node_rewrites links1 NULL_def zero m2_def)
  have hd: "MEMHEADER_FROM_PAYLOAD (w32 b) = w32 (b - 4)" "next_free m2 (w32 (b - 4)) = w32 n"
    using b by (simp_all add: node_rewrites links2)
  have "remove_from_list (w32 b) i s =
      s\<lparr>mem := m2, free_lists :=
          if free_lists s ! i = w32 b then (free_lists s)[i := w32 n] else free_lists s\<rparr>"
    using step2 by (simp add: remove_from_list_def Let_def hd step1 cong: if_cong)
  with m1 m2 show ?thesis by (auto simp: Let_def)
qed

lemma remove_from_list_view:
  assumes head: "free_lists s ! i = w32 (hdn (xs @ b # ys) 0)"
    and dll: "dll (view (mem s)) 0 (xs @ b # ys) 0" "distinct (xs @ b # ys)"
      "\<forall>x \<in> set (xs @ b # ys). node x"
  shows "\<exists>m. remove_from_list (w32 b) i s =
      s\<lparr>mem := m, free_lists :=
          if xs = [] then (free_lists s)[i := w32 (hdn ys 0)] else free_lists s\<rparr> \<and>
    view m = remove_view xs ys (view (mem s))"
proof -
  have b: "node b" using dll(3) by simp
  have n: "hdn ys 0 = 0 \<or> node (hdn ys 0) \<and> hdn ys 0 \<noteq> b" "hdn ys 0 = 0 \<longleftrightarrow> ys = []"
    using dll(2,3) node_cells(5) by (cases ys; auto)+
  have p: "lastp 0 xs = 0 \<or> node (lastp 0 xs) \<and> lastp 0 xs \<noteq> b" "lastp 0 xs = 0 \<longleftrightarrow> xs = []"
    using dll(2,3) node_cells(5) by (cases xs rule: rev_cases; auto)+
  have "free_lists s ! i = w32 b \<longleftrightarrow> xs = []"
    using head dll b node_eq [of "hd xs" b] by (cases xs) auto
  moreover have "view (mem s) b = w32 (hdn ys 0)" "view (mem s) (b + 4) = w32 (lastp 0 xs)"
    using dll(1) by (simp_all add: dll_append)
  ultimately show ?thesis
    using remove_from_list_links [OF b n(1) p(1), of s i] by (simp add: remove_view_def n(2) p(2))
qed

lemma dll_remove:
  assumes "dll H 0 (xs @ b # ys) 0" "distinct (xs @ b # ys)" "\<forall>x \<in> set (xs @ b # ys). node x"
  shows "dll (remove_view xs ys H) 0 (xs @ ys) 0"
proof -
  define H1 where "H1 = (if ys = [] then H else H(hdn ys 0 + 4 := w32 (lastp 0 xs)))"
  have "dll H1 (lastp 0 xs) ys 0 \<and> dll H1 0 xs b"
  proof (cases ys)
    case Nil
    with assms(1) show ?thesis by (simp add: H1_def dll_append)
  next
    case (Cons y zs)
    have "y + 4 \<notin> set xs"
      using assms(3) Cons by (simp add: node_off_links)
    moreover have "y + 4 \<notin> (\<lambda>x. x + 4) ` set xs"
      using assms(2) Cons by auto
    moreover have "dll H b (y # zs) 0" "dll H 0 xs b"
      using assms(1) Cons by (simp_all add: dll_append)
    moreover have "distinct (y # zs)" "\<forall>x \<in> set (y # zs). node x"
      using assms(2,3) Cons by simp_all
    ultimately show ?thesis
      using dll_set_prev [of H b y zs 0 "lastp 0 xs"] Cons by (simp add: H1_def dll_frame)
  qed
  note H1 = this
  show ?thesis
  proof (cases xs rule: rev_cases)
    case Nil
    with H1 have "dll H1 0 ys 0" by simp
    moreover have "remove_view [] ys H = H1" by (simp add: remove_view_def H1_def Nil)
    ultimately show ?thesis by (simp add: Nil)
  next
    case (snoc zs z)
    have "z \<notin> set ys"
      using assms(2) snoc by auto
    moreover have "z \<notin> (\<lambda>x. x + 4) ` set ys"
      using assms(3) snoc by (simp add: node_off_links)
    moreover have "dll (H1(z := w32 (hdn ys 0))) 0 (zs @ [z]) (hdn ys 0)"
      using H1 snoc assms(2,3) by (intro dll_set_next) auto
    moreover have "remove_view xs ys H = H1(z := w32 (hdn ys 0))"
      by (simp add: remove_view_def H1_def snoc)
    ultimately show ?thesis
      using H1 snoc by (simp add: dll_append dll_frame)
  qed
qed

lemma dll_add:
  assumes "dll H 0 xs 0" "distinct (xs @ [b])" "\<forall>x \<in> set (xs @ [b]). node x"
  shows "dll (add_view b xs H) 0 (xs @ [b]) 0"
proof (cases xs rule: rev_cases)
  case Nil
  then show ?thesis by (simp add: add_view_def)
next
  case (snoc zs z)
  have fr: "b \<notin> set xs" "b \<notin> (\<lambda>x. x + 4) ` set xs" "b + 4 \<notin> set xs"
    "b + 4 \<notin> (\<lambda>x. x + 4) ` set xs"
    using assms(2,3) by (auto simp: node_off_links)
  with assms(1) have "dll (H(b := 0)) 0 xs 0" by (simp add: dll_frame)
  then have "dll (H(b := 0, z := w32 b)) 0 (zs @ [z]) b"
    using snoc assms(2,3) by (intro dll_set_next) auto
  with fr snoc show ?thesis
    by (auto simp: add_view_def dll_append dll_frame)
qed

section \<open>The array of lists\<close>

text \<open>
  \<open>lists_ok H heads S F\<close>: the heads lead to the represented lists \<open>F\<close>, and these
  hold exactly the blocks of the map \<open>S\<close> (payload address to block size), each in the
  list of its size class.
\<close>

definition lists_ok ::
  "(nat \<Rightarrow> 32 word) \<Rightarrow> addr list \<Rightarrow> (nat \<rightharpoonup> nat) \<Rightarrow> nat list list \<Rightarrow> bool" where
  "lists_ok H heads S F \<longleftrightarrow>
     length heads = 17 \<and> length F = 17 \<and>
     (\<forall>i < 17. heads ! i = w32 (hdn (F ! i) 0) \<and> dll H 0 (F ! i) 0 \<and> distinct (F ! i) \<and>
        (\<forall>a \<in> set (F ! i). \<exists>sz. S a = Some sz \<and> calc_list_index (w32 sz) = i)) \<and>
     (\<forall>a sz. S a = Some sz \<longrightarrow> node a \<and> a \<in> set (F ! calc_list_index (w32 sz)))"

text \<open>\<open>off_links X H H'\<close>: only link words of the blocks in \<open>X\<close> may differ.\<close>

definition off_links :: "nat set \<Rightarrow> (nat \<Rightarrow> 32 word) \<Rightarrow> (nat \<Rightarrow> 32 word) \<Rightarrow> bool" where
  "off_links X H H' \<longleftrightarrow> (\<forall>c. (\<forall>a \<in> X. c \<noteq> a \<and> c \<noteq> a + 4) \<longrightarrow> H' c = H c)"

lemma off_linksD: "off_links X H H' \<Longrightarrow> (\<And>a. a \<in> X \<Longrightarrow> c \<noteq> a \<and> c \<noteq> a + 4) \<Longrightarrow> H' c = H c"
  by (auto simp: off_links_def)

lemma lists_okD:
  assumes "lists_ok H heads S F"
  shows "length heads = 17" "length F = 17"
    "i < 17 \<Longrightarrow> heads ! i = w32 (hdn (F ! i) 0)" "i < 17 \<Longrightarrow> dll H 0 (F ! i) 0"
    "i < 17 \<Longrightarrow> distinct (F ! i)"
    "i < 17 \<Longrightarrow> a \<in> set (F ! i) \<Longrightarrow> \<exists>sz. S a = Some sz \<and> calc_list_index (w32 sz) = i"
    "S a = Some sz \<Longrightarrow> node a" "S a = Some sz \<Longrightarrow> a \<in> set (F ! calc_list_index (w32 sz))"
  using assms by (auto simp: lists_ok_def)

lemma lists_ok_node: "lists_ok H heads S F \<Longrightarrow> i < 17 \<Longrightarrow> a \<in> set (F ! i) \<Longrightarrow> node a"
  using lists_okD(6,7) by metis

lemma lists_ok_other:
  assumes "lists_ok H heads S F" "i < 17" "j < 17" "a \<in> set (F ! i)" "a \<in> set (F ! j)"
  shows "i = j"
  using lists_okD(6) [OF assms(1)] assms(2-) by (metis option.inject)

text \<open>Only the link words of listed blocks matter.\<close>

lemma lists_ok_cong:
  assumes "lists_ok H heads S F" "\<And>a sz. S a = Some sz \<Longrightarrow> H' a = H a \<and> H' (a + 4) = H (a + 4)"
  shows "lists_ok H' heads S F"
proof -
  have "dll H' 0 (F ! i) 0" if "i < 17" for i
    using dll_cong [of "F ! i" H' H 0 0] lists_okD(4,6) [OF assms(1) that] assms(2) by metis
  with assms(1) show ?thesis by (simp add: lists_ok_def)
qed

text \<open>Changing one list, on the nodes of that list only.\<close>

lemma lists_ok_update:
  assumes ok: "lists_ok H heads S F" and i: "i < 17"
    and xs: "dll H' 0 xs 0" "distinct xs" "\<And>a. a \<in> set xs \<Longrightarrow> \<exists>sz. S' a = Some sz \<and> calc_list_index (w32 sz) = i"
    and S': "\<And>a sz. calc_list_index (w32 sz) \<noteq> i \<Longrightarrow> S' a = Some sz \<longleftrightarrow> S a = Some sz"
      "\<And>a sz. S' a = Some sz \<Longrightarrow> calc_list_index (w32 sz) = i \<Longrightarrow> node a \<and> a \<in> set xs"
    and frame: "\<And>a sz. S a = Some sz \<Longrightarrow> calc_list_index (w32 sz) \<noteq> i \<Longrightarrow>
      H' a = H a \<and> H' (a + 4) = H (a + 4)"
    and heads': "heads' = heads[i := w32 (hdn xs 0)]"
  shows "lists_ok H' heads' S' (F[i := xs])"
proof -
  have "dll H' 0 (F ! j) 0" if "j < 17" "j \<noteq> i" for j
    using dll_cong [of "F ! j" H' H 0 0] lists_okD(4,6) [OF ok \<open>j < 17\<close>] frame that(2) by metis
  moreover have "\<exists>sz. S' a = Some sz \<and> calc_list_index (w32 sz) = j"
    if "j < 17" "j \<noteq> i" "a \<in> set (F ! j)" for a j
    using lists_okD(6) [OF ok that(1,3)] S'(1) that(2) by blast
  moreover have "node a \<and> a \<in> set (F[i := xs] ! calc_list_index (w32 sz))" if "S' a = Some sz" for a sz
    using S' that lists_okD(2,7,8) [OF ok] i by (cases "calc_list_index (w32 sz) = i") auto
  ultimately show ?thesis
    using ok i xs by (auto simp: lists_ok_def heads' nth_list_update)
qed

lemma remove_view_frame:
  assumes "c \<notin> set xs \<union> set ys" "c \<notin> (\<lambda>x. x + 4) ` (set xs \<union> set ys)"
  shows "remove_view xs ys H c = H c"
  using assms by (cases ys; cases xs rule: rev_cases) (auto simp: remove_view_def)

lemma add_view_frame:
  assumes "c \<notin> set (xs @ [b])" "c \<notin> (\<lambda>x. x + 4) ` set (xs @ [b])"
  shows "add_view b xs H c = H c"
  using assms by (cases xs rule: rev_cases) (auto simp: add_view_def)

text \<open>A change at the links of some nodes leaves those of every other node.\<close>

lemma other_links:
  assumes off: "\<And>c. c \<notin> set xs \<Longrightarrow> c \<notin> (\<lambda>x. x + 4) ` set xs \<Longrightarrow> H' c = H c"
    and nodes: "\<forall>x \<in> set xs. node x" "node b" "b \<notin> set xs"
  shows "H' b = H b \<and> H' (b + 4) = H (b + 4)"
proof -
  have "b + 4 \<notin> (\<lambda>x. x + 4) ` set xs" using nodes(3) by auto
  with node_off_links [OF nodes(2,1)] nodes(3) off show ?thesis by blast
qed

theorem remove_from_list_ok:
  assumes ok: "lists_ok (view (mem s)) (free_lists s) S F" and a: "S a = Some sz"
    and i: "i = calc_list_index (w32 sz)"
  shows "\<exists>m f. remove_from_list (w32 a) i s = s\<lparr>mem := m, free_lists := f\<rparr> \<and>
    lists_ok (view m) f (S(a := None)) (F[i := remove1 a (F ! i)]) \<and>
    off_links (dom S) (view (mem s)) (view m) \<and>
    view m a = view (mem s) a \<and> view m (a + 4) = view (mem s) (a + 4)"
proof -
  let ?H = "view (mem s)"
  have i17: "i < 17" by (simp add: i)
  note D = lists_okD [OF ok]
  obtain xs ys where F: "F ! i = xs @ a # ys"
    using D(8) [OF a] i split_list by metis
  have dist: "distinct (xs @ a # ys)" and nodes: "\<forall>x \<in> set (xs @ a # ys). node x"
    using D(5) [OF i17] lists_ok_node [OF ok i17] F by simp_all
  have rem: "remove1 a (F ! i) = xs @ ys"
    using dist by (simp add: F remove1_append)
  obtain m where m: "remove_from_list (w32 a) i s =
      s\<lparr>mem := m, free_lists :=
          if xs = [] then (free_lists s)[i := w32 (hdn ys 0)] else free_lists s\<rparr>"
    "view m = remove_view xs ys ?H"
    using remove_from_list_view [of s i xs a ys] D(3,4) [OF i17] dist nodes F by auto
  have off: "view m c = ?H c" if "c \<notin> set (F ! i)" "c \<notin> (\<lambda>x. x + 4) ` set (F ! i)" for c
    using that by (simp add: m(2) F remove_view_frame image_Un)
  have frame: "view m b = ?H b \<and> view m (b + 4) = ?H (b + 4)"
    if "S b = Some sz'" "calc_list_index (w32 sz') \<noteq> i" for b sz'
    by (rule other_links [where xs = "F ! i", OF off _ D(7) [OF that(1)]]) (use D(6) [OF i17, of b] that nodes F in auto)
  have "lists_ok (view m) ((free_lists s)[i := w32 (hdn (xs @ ys) 0)]) (S(a := None)) (F[i := xs @ ys])"
  proof (rule lists_ok_update [OF ok i17])
    show "dll (view m) 0 (xs @ ys) 0"
      using dll_remove [OF _ dist nodes] D(4) [OF i17] F m(2) by simp
    show "\<exists>sz. (S(a := None)) b = Some sz \<and> calc_list_index (w32 sz) = i" if "b \<in> set (xs @ ys)" for b
      using D(6) [OF i17, of b] F dist that by auto
    show "node b \<and> b \<in> set (xs @ ys)"
      if "(S(a := None)) b = Some sz" "calc_list_index (w32 sz) = i" for b sz
      using D(7,8) [of b sz] F that by (auto split: if_splits)
  qed (use dist frame a i in \<open>auto split: if_splits\<close>)
  moreover have "remove_from_list (w32 a) i s =
      s\<lparr>mem := m, free_lists := (free_lists s)[i := w32 (hdn (xs @ ys) 0)]\<rparr>"
    using D(3) [OF i17, symmetric] F m(1) by (cases xs) simp_all
  moreover have "off_links (dom S) ?H (view m)"
    using D(6) [OF i17] by (auto simp: off_links_def intro!: off)
  moreover have "view m a = ?H a" "view m (a + 4) = ?H (a + 4)"
    using dist node_off_links [of a "xs @ ys"] nodes
    by (auto simp: m(2) image_Un intro!: remove_view_frame)
  ultimately show ?thesis
    unfolding rem by blast
qed

theorem add_to_list_ok:
  assumes ok: "lists_ok (view (mem s)) (free_lists s) S F" and a: "S a = None" "node a"
    and i: "i = calc_list_index (w32 sz)"
  shows "\<exists>m f. add_to_list (w32 a) i s = Some (s\<lparr>mem := m, free_lists := f\<rparr>) \<and>
    lists_ok (view m) f (S(a \<mapsto> sz)) (F[i := F ! i @ [a]]) \<and>
    off_links (insert a (dom S)) (view (mem s)) (view m)"
proof -
  let ?H = "view (mem s)" and ?xs = "F ! i"
  have i17: "i < 17" by (simp add: i)
  note D = lists_okD [OF ok]
  have nodes: "\<forall>x \<in> set (?xs @ [a]). node x"
    using lists_ok_node [OF ok i17] a(2) by simp
  have notin: "a \<notin> set ?xs"
    using D(6) [OF i17, of a] a(1) by auto
  obtain m where m: "add_to_list (w32 a) i s =
      Some (s\<lparr>mem := m, free_lists := if ?xs = [] then (free_lists s)[i := w32 a] else free_lists s\<rparr>)"
    "view m = add_view a ?xs ?H"
    using add_to_list_view [of s i ?xs a] D(3,4) [OF i17] nodes notin by auto
  have off: "view m c = ?H c"
    if "c \<notin> set (?xs @ [a])" "c \<notin> (\<lambda>x. x + 4) ` set (?xs @ [a])" for c
    using add_view_frame [OF that] by (simp add: m(2))
  have frame: "view m b = ?H b \<and> view m (b + 4) = ?H (b + 4)"
    if "S b = Some sz'" "calc_list_index (w32 sz') \<noteq> i" for b sz'
    by (rule other_links [OF off nodes D(7) [OF that(1)]]) (use D(6) [OF i17, of b] that a(1) in auto)
  have "lists_ok (view m) ((free_lists s)[i := w32 (hdn (?xs @ [a]) 0)]) (S(a \<mapsto> sz)) (F[i := ?xs @ [a]])"
  proof (rule lists_ok_update [OF ok i17])
    show "dll (view m) 0 (?xs @ [a]) 0"
      using dll_add [of ?H ?xs a] D(4,5) [OF i17] nodes notin m(2) by simp
    show "\<exists>sz'. (S(a \<mapsto> sz)) b = Some sz' \<and> calc_list_index (w32 sz') = i" if "b \<in> set (?xs @ [a])" for b
      using D(6) [OF i17, of b] i that by auto
    show "node b \<and> b \<in> set (?xs @ [a])"
      if "(S(a \<mapsto> sz)) b = Some sz'" "calc_list_index (w32 sz') = i" for b sz'
      using D(7,8) [of b sz'] a(2) that by (auto split: if_splits)
  qed (use D(5) [OF i17] notin frame a i in \<open>auto split: if_splits\<close>)
  moreover have "add_to_list (w32 a) i s =
      Some (s\<lparr>mem := m, free_lists := (free_lists s)[i := w32 (hdn (?xs @ [a]) 0)]\<rparr>)"
    using D(3) [OF i17, symmetric] m(1) by (cases ?xs) simp_all
  moreover have "off_links (insert a (dom S)) ?H (view m)"
    unfolding off_links_def
  proof (intro allI impI)
    fix c
    assume *: "\<forall>b \<in> insert a (dom S). c \<noteq> b \<and> c \<noteq> b + 4"
    have "set (?xs @ [a]) \<subseteq> insert a (dom S)" using D(6) [OF i17] by auto
    with * show "view m c = ?H c" by (intro off) blast+
  qed
  ultimately show ?thesis
    by blast
qed

end
