(* ===== verification/Mm_Allocator.thy ===== *)
theory Mm_Allocator
  imports Mm_Free_Lists
begin

text \<open>
  The operations of src/mm.c, in the order in which they build on each other:
  \<open>free_block\<close>, \<open>coalesce\<close>, \<open>allocate\<close>, \<open>find_fit\<close>, \<open>extend_heap\<close>, and the
  package's entry points \<open>mm_init\<close>, \<open>mm_malloc\<close>, \<open>mm_free\<close> and \<open>mm_realloc\<close>. The
  build modelled is the default one (\<^verbatim>\<open>_DEBUG\<close> and \<^verbatim>\<open>DO_MM_CHECK\<close> off), in which
  \<^verbatim>\<open>TRACE\<close> and \<^verbatim>\<open>RUN_MM_CHECK\<close> are empty.

  \<open>None\<close> is a call that does not return (an endless walk of a free list); a null
  pointer result is the address 0.
\<close>

section \<open>Internal routines\<close>

definition free_block :: "addr \<Rightarrow> size_t \<Rightarrow> mm_state \<Rightarrow> mm_state" where
  "free_block bp adjusted_size s =
     (let is_prev_alloc = GET_PREVALLOC (mem s) bp;
          sz = GET_THISSIZE (mem s) bp;
          s = putw (GET_BLOCKHDR bp) (PACK sz is_prev_alloc) s;
          s = putw (GET_BLOCKFTR (mem s) bp) (PACK sz is_prev_alloc) s
      in s)"

definition coalesce :: "addr \<Rightarrow> mm_state \<Rightarrow> (addr \<times> mm_state) option" where
  "coalesce bp s =
     (let prev_alloc = GET_PREVALLOC (mem s) bp;
          next_alloc = GET_NEXTALLOC (mem s) bp;
          sz = GET_THISSIZE (mem s) bp;
          next_block = GET_NEXTBLOCK (mem s) bp;
          prev_block = GET_PREVBLOCK (mem s) bp;
          (bp, sz, s) =
            (if prev_alloc \<noteq> 0 \<and> next_alloc = 0 then
               let s = remove_from_list next_block
                         (calc_list_index (GET_THISSIZE (mem s) next_block)) s;
                   sz = sz + GET_SIZE (mem s) (GET_BLOCKHDR next_block);
                   s = putw (GET_BLOCKHDR bp) (PACK sz prev_alloc) s;
                   s = putw (GET_BLOCKFTR (mem s) bp) (PACK sz prev_alloc) s
               in (bp, sz, s)
             else if prev_alloc = 0 \<and> next_alloc \<noteq> 0 then
               let s = remove_from_list prev_block
                         (calc_list_index (GET_THISSIZE (mem s) prev_block)) s;
                   sz = sz + GET_THISSIZE (mem s) prev_block;
                   prev_alloc = GET_PREVALLOC (mem s) prev_block;
                   s = putw (GET_BLOCKFTR (mem s) bp) (PACK sz prev_alloc) s;
                   s = putw (GET_BLOCKHDR prev_block) (PACK sz prev_alloc) s
               in (prev_block, sz, s)
             else if prev_alloc = 0 \<and> next_alloc = 0 then
               let s = remove_from_list next_block
                         (calc_list_index (GET_THISSIZE (mem s) next_block)) s;
                   s = remove_from_list prev_block
                         (calc_list_index (GET_THISSIZE (mem s) prev_block)) s;
                   sz = sz + (GET_THISSIZE (mem s) prev_block + GET_THISSIZE (mem s) next_block);
                   prev_alloc = GET_PREVALLOC (mem s) prev_block;
                   s = putw (GET_BLOCKHDR (GET_PREVBLOCK (mem s) bp)) (PACK sz prev_alloc) s;
                   s = putw (GET_BLOCKFTR (mem s) (GET_NEXTBLOCK (mem s) bp)) (PACK sz prev_alloc) s
               in (GET_PREVBLOCK (mem s) bp, sz, s)
             else (bp, sz, s))
      in do {
        s \<leftarrow> add_to_list bp (calc_list_index sz) s;
        Some (bp, s)
      })"

definition allocate :: "addr \<Rightarrow> size_t \<Rightarrow> mm_state \<Rightarrow> mm_state option" where
  "allocate bp adjusted_size s =
     (let csize = GET_THISSIZE (mem s) bp;
          is_prev_alloc = GET_PREVALLOC (mem s) bp;
          s = remove_from_list bp (calc_list_index csize) s
      in if csize - adjusted_size \<ge> MIN_SIZE then
           let s = putw (GET_BLOCKHDR bp) (PACK adjusted_size (THISALLOC OR is_prev_alloc)) s;
               s = putw (GET_BLOCKFTR (mem s) bp) (PACK adjusted_size (THISALLOC OR is_prev_alloc)) s;
               bp = GET_NEXTBLOCK (mem s) bp;
               s = putw (GET_BLOCKHDR bp) (PACK (csize - adjusted_size) PREVALLOC) s;
               s = putw (GET_BLOCKFTR (mem s) bp) (PACK (csize - adjusted_size) PREVALLOC) s
           in map_option snd (coalesce bp s)
         else
           let s = putw (GET_BLOCKHDR bp) (PACK csize (THISALLOC OR is_prev_alloc)) s;
               s = putw (GET_BLOCKFTR (mem s) bp) (PACK csize (THISALLOC OR is_prev_alloc)) s;
               bp = GET_BLOCKHDR (GET_NEXTBLOCK (mem s) bp);
               s = putw bp (GETW (mem s) bp OR PREVALLOC) s
           in Some s)"

text \<open>\<open>None\<close> is the null result; otherwise the block and the index stored in \<^verbatim>\<open>*result_index\<close>.\<close>

function find_fit_loop :: "size_t \<Rightarrow> nat \<Rightarrow> mm_state \<Rightarrow> (addr \<times> nat) option" where
  "find_fit_loop block_size list_index s =
     (if list_index < FREELIST_COUNT then
        let fitptr = free_lists s ! list_index in
        if fitptr \<noteq> NULL \<and> GET_THISSIZE (mem s) fitptr \<ge> block_size
        then Some (fitptr, list_index)
        else find_fit_loop block_size (list_index + 1) s
      else None)"
  by pat_completeness auto
termination
  by (relation "measure (\<lambda>(block_size, list_index, s). FREELIST_COUNT - list_index)") auto

declare find_fit_loop.simps [simp del]

definition find_fit :: "size_t \<Rightarrow> mm_state \<Rightarrow> (addr \<times> nat) option" where
  "find_fit block_size s = find_fit_loop block_size (calc_list_index block_size) s"

definition extend_heap :: "size_t \<Rightarrow> mm_state \<Rightarrow> (addr \<times> mm_state) option" where
  "extend_heap adjusted_size s =
     (let (bp, s) = mem_sbrk adjusted_size s in
      if bp = - 1 then Some (NULL, s)
      else
        let prev_alloc = GET_PREVALLOC (mem s) (heap_end s + 1);
            s = putw (GET_BLOCKHDR bp) (PACK adjusted_size prev_alloc) s;
            s = putw (GET_BLOCKFTR (mem s) bp) (PACK adjusted_size prev_alloc) s;
            s = putw (GET_BLOCKHDR (GET_NEXTBLOCK (mem s) bp)) (PACK 0xEA7F00D0 THISALLOC) s;
            s = s\<lparr>heap_end := mem_heap_hi s\<rparr>
        in coalesce bp s)"

section \<open>The package's entry points\<close>

text \<open>\<open>mm_init\<close> after the call of \<open>mem_init\<close>, up to its return value.\<close>

definition mm_setup :: "32 word \<Rightarrow> mm_state \<Rightarrow> (int \<times> mm_state) option" where
  "mm_setup getpagesize s =
     (let s = s\<lparr>free_lists := replicate FREELIST_COUNT NULL\<rparr>;
          s = s\<lparr>PAGE_SIZE := mem_pagesize getpagesize\<rparr>;
          s = s\<lparr>ADJUSTED_PAGESIZE := ADJUST_BYTESIZE (PAGE_SIZE s * 2)\<rparr>;
          (p, s) = mem_sbrk (ADJUSTED_PAGESIZE s + 4 * WSIZE) s;
          s = s\<lparr>heap_start := p\<rparr>
      in if heap_start s = NULL then Some (- 1, s)
         else
           let s = s\<lparr>heap_end := mem_heap_hi s\<rparr>;
               s = putw (heap_start s) 0x8BADF00D s;
               s = putw (heap_start s + 1 * WSIZE) (PACK DSIZE (THISALLOC OR PREVALLOC)) s;
               s = putw (heap_start s + 2 * WSIZE) (PACK DSIZE (THISALLOC OR PREVALLOC)) s;
               s = putw (heap_start s + ADJUSTED_PAGESIZE s + 3 * WSIZE) (PACK 0xEA7F00D0 THISALLOC) s;
               s = putw (heap_start s + 3 * WSIZE) (PACK (ADJUSTED_PAGESIZE s) PREVALLOC) s;
               s = putw ((heap_end s - WSIZE + 1) - WSIZE) (PACK (ADJUSTED_PAGESIZE s) PREVALLOC) s
           in do {
             s \<leftarrow> add_to_list (heap_start s + 4 * WSIZE) (calc_list_index (ADJUSTED_PAGESIZE s)) s;
             Some (0, s)
           })"

definition mm_init :: "(size_t \<Rightarrow> addr) \<Rightarrow> 32 word \<Rightarrow> mm_state \<Rightarrow> (exit + int \<times> mm_state) option" where
  "mm_init libc_malloc getpagesize s =
     (case mem_init libc_malloc s of
        Inl e \<Rightarrow> Some (Inl e)
      | Inr s \<Rightarrow> map_option Inr (mm_setup getpagesize s))"

definition mm_malloc :: "size_t \<Rightarrow> mm_state \<Rightarrow> (addr \<times> mm_state) option" where
  "mm_malloc sz s =
     (if sz = 0 then Some (NULL, s)
      else
        let adjusted_size = ADJUST_BYTESIZE sz in
        case find_fit adjusted_size s of
          Some (bp, list_index) \<Rightarrow>
            do {
              s \<leftarrow> allocate bp adjusted_size s;
              let s = remove_from_list bp list_index s;
              Some (bp, s)
            }
        | None \<Rightarrow>
            do {
              (bp, s) \<leftarrow> extend_heap (MAX2 adjusted_size (ADJUSTED_PAGESIZE s)) s;
              if bp = NULL then Some (NULL, s)
              else do {
                s \<leftarrow> allocate bp adjusted_size s;
                Some (bp, s)
              }
            })"

definition mm_free :: "addr \<Rightarrow> mm_state \<Rightarrow> mm_state option" where
  "mm_free ptr s =
     (let s = free_block ptr (GET_THISSIZE (mem s) ptr) s
      in map_option snd (coalesce ptr s))"

definition mm_realloc :: "addr \<Rightarrow> size_t \<Rightarrow> mm_state \<Rightarrow> (addr \<times> mm_state) option" where
  "mm_realloc ptr sz s =
     (let oldptr = ptr in
      do {
        (newptr, s) \<leftarrow> mm_malloc sz s;
        if newptr = NULL then Some (NULL, s)
        else
          let copySize = GET_THISSIZE (mem s) oldptr;
              copySize = (if sz < copySize then sz else copySize);
              s = s\<lparr>mem := memcpy (mem s) newptr oldptr copySize\<rparr>
          in do {
            s \<leftarrow> mm_free oldptr s;
            Some (newptr, s)
          }
      })"

end
