(* ===== verification/Mdriver.thy ===== *)
theory Mdriver
  imports Doubles Mm_Allocator
begin

text \<open>
  The trace driver of src/mdriver.c: the list of payload ranges, the interpreter that
  replays a trace against the package and checks every answer (\<open>eval_mm_valid\<close>), the one
  that measures space utilisation (\<open>eval_mm_util\<close>), the ones that are only timed
  (\<open>eval_mm_speed\<close>, \<open>eval_libc_speed\<close>), and \<open>eval_libc_valid\<close>.

  A run of the driver may end the process: \<open>Exit\<close> by \<^verbatim>\<open>exit\<close>, \<open>Assert\<close> by a failed
  assertion, \<open>Undefined\<close> by an access outside an array, for which C promises nothing.
  \<open>None\<close> is a call that does not return. The C library's allocator is a parameter: whether
  each of its calls succeeds, and for libc's own evaluation the functions themselves.
  \<^verbatim>\<open>int\<close> is a \<open>32 word\<close> read with \<open>sint\<close>; \<^verbatim>\<open>char\<close> is signed, as on the x86
  target of src/Makefile.
\<close>

datatype stop = Stop exit | Assert | Undefined

type_synonym 'a run = "(stop + 'a) option"

definition andthen :: "'a run \<Rightarrow> ('a \<Rightarrow> 'b run) \<Rightarrow> 'b run" where
  "andthen m f = (case m of None \<Rightarrow> None | Some (Inl e) \<Rightarrow> Some (Inl e) | Some (Inr x) \<Rightarrow> f x)"

definition returns :: "'a \<Rightarrow> 'a run" where
  "returns x = Some (Inr x)"

definition halts :: "stop \<Rightarrow> 'a run" where
  "halts e = Some (Inl e)"

definition call :: "'a option \<Rightarrow> 'a run" where
  "call x = map_option Inr x"

text \<open>The two ways to give up: a message, for \<open>unix_error\<close> with the text of \<^verbatim>\<open>errno\<close>, and the end.\<close>

definition app_error :: "'a run" where [simp]:
  "app_error = halts (Stop (Exit 1))"

definition unix_error :: "'a run" where [simp]:
  "unix_error = halts (Stop (Exit 1))"

lemma andthen_simps [simp]:
  "andthen (returns x) f = f x" "andthen (halts e) f = halts e" "andthen (call (Some x)) f = f x"
  by (simp_all add: andthen_def returns_def halts_def call_def)

lemma returns_inject [simp]: "returns x = returns y \<longleftrightarrow> x = y" "returns x \<noteq> halts e" "halts e \<noteq> returns x"
  by (simp_all add: returns_def halts_def)

section \<open>Traces\<close>

datatype optype = ALLOC | FREE | REALLOC

record traceop_t =
  op_type :: optype
  op_index :: "32 word"
  op_size :: "32 word"

record trace_t =
  sugg_heapsize :: "32 word"
  num_ids :: "32 word"
  num_ops :: "32 word"
  weight :: "32 word"
  ops :: "traceop_t list"
  blocks :: "addr list"
  block_sizes :: "size_t list"

text \<open>Reading and writing an array at an \<^verbatim>\<open>int\<close> index.\<close>

definition array_get :: "'a list \<Rightarrow> 32 word \<Rightarrow> 'a run" where
  "array_get xs i = (if 0 \<le> sint i \<and> nat (sint i) < length xs then returns (xs ! nat (sint i)) else halts Undefined)"

definition array_set :: "'a list \<Rightarrow> 32 word \<Rightarrow> 'a \<Rightarrow> 'a list run" where
  "array_set xs i x =
     (if 0 \<le> sint i \<and> nat (sint i) < length xs then returns (xs[nat (sint i) := x]) else halts Undefined)"

text \<open>The operations that the loops \<^verbatim>\<open>for (i = 0; i < trace->num_ops; i++)\<close> visit.\<close>

definition trace_ops :: "trace_t \<Rightarrow> traceop_t list" where
  "trace_ops t = take (nat (sint (num_ops t))) (ops t)"

section \<open>The driver's state\<close>

record range_t =
  r_lo :: addr
  r_hi :: addr

text \<open>The messages of \<^verbatim>\<open>malloc_error\<close>.\<close>

datatype malloc_msg =
  Not_aligned addr
| Outside_heap addr addr
| Overlaps addr addr addr addr
| Init_failed
| Malloc_failed
| Realloc_failed
| Not_preserved

text \<open>
  \<open>errors\<close> counts the errors, \<open>messages\<close> are the printed ones with their trace and line
  number, the latest first. The last four fields are the globals for debugging: the number
  and the index of the current request, the requests of the current trace, and its name.
\<close>

record driver =
  mm :: mm_state
  ranges :: "range_t list"
  errors :: "32 word"
  messages :: "(32 word \<times> 32 word \<times> malloc_msg) list"
  traceop_index :: "32 word"
  traceop_ptr :: "32 word"
  trace_operations :: "traceop_t list"
  current_trace_name :: "string option"

definition LINENUM :: "32 word \<Rightarrow> 32 word" where
  "LINENUM i = i + 5"

definition malloc_error :: "32 word \<Rightarrow> 32 word \<Rightarrow> malloc_msg \<Rightarrow> driver \<Rightarrow> driver" where
  "malloc_error tracenum opnum msg d =
     d\<lparr>errors := errors d + 1, messages := (tracenum, LINENUM opnum, msg) # messages d\<rparr>"

section \<open>The range list\<close>

definition ALIGNMENT :: "32 word" where
  "ALIGNMENT = 8"

definition IS_ALIGNED :: "addr \<Rightarrow> bool" where
  "IS_ALIGNED p \<longleftrightarrow> p mod ALIGNMENT = 0"

definition in_range :: "addr \<Rightarrow> addr \<Rightarrow> range_t \<Rightarrow> bool" where
  "in_range lo hi p \<longleftrightarrow> (lo \<ge> r_lo p \<and> lo \<le> r_hi p) \<or> (hi \<ge> r_lo p \<and> hi \<le> r_hi p)"

text \<open>
  \<open>record_ok\<close> says whether libc's \<^verbatim>\<open>malloc\<close> delivers the new list element.
\<close>

definition add_range :: "bool \<Rightarrow> addr \<Rightarrow> 32 word \<Rightarrow> 32 word \<Rightarrow> 32 word \<Rightarrow> driver \<Rightarrow> (32 word \<times> driver) run" where
  "add_range record_ok lo sz tracenum opnum d =
     (let hi = lo + sz - 1 in
      if \<not> sint sz > 0 then halts Assert
      else if \<not> IS_ALIGNED lo then returns (0, malloc_error tracenum opnum (Not_aligned lo) d)
      else if lo < mem_heap_lo (mm d) \<or> lo > mem_heap_hi (mm d) \<or>
              hi < mem_heap_lo (mm d) \<or> hi > mem_heap_hi (mm d)
      then returns (0, malloc_error tracenum opnum (Outside_heap lo hi) d)
      else case List.find (in_range lo hi) (ranges d) of
        Some p \<Rightarrow> returns (0, malloc_error tracenum opnum (Overlaps lo hi (r_lo p) (r_hi p)) d)
      | None \<Rightarrow>
          if \<not> record_ok then unix_error
          else returns (1, d\<lparr>ranges := \<lparr>r_lo = lo, r_hi = hi\<rparr> # ranges d\<rparr>))"

fun remove_range :: "range_t list \<Rightarrow> addr \<Rightarrow> range_t list" where
  "remove_range [] lo = []"
| "remove_range (p # ps) lo = (if r_lo p = lo then ps else p # remove_range ps lo)"

definition clear_ranges :: "driver \<Rightarrow> driver" where
  "clear_ranges d = d\<lparr>ranges := []\<rparr>"

section \<open>eval_mm_valid\<close>

text \<open>\<^verbatim>\<open>for (j = 0; j < oldsize; j++) if (newp[j] != (index & 0xFF))\<close>, on signed chars.\<close>

definition pattern_kept :: "memory \<Rightarrow> addr \<Rightarrow> 32 word \<Rightarrow> 32 word \<Rightarrow> bool" where
  "pattern_kept m newp index oldsize \<longleftrightarrow>
     list_all (\<lambda>j. (scast (m (newp + of_nat j)) :: 32 word) = index AND 0xFF) [0..<nat (sint oldsize)]"

definition fill_pattern :: "addr \<Rightarrow> 32 word \<Rightarrow> size_t \<Rightarrow> mm_state \<Rightarrow> mm_state" where
  "fill_pattern p index sz s = s\<lparr>mem := memset (mem s) p (ucast (index AND 0xFF)) sz\<rparr>"

definition valid_alloc ::
  "(nat \<Rightarrow> bool) \<Rightarrow> 32 word \<Rightarrow> nat \<Rightarrow> traceop_t \<Rightarrow> trace_t \<times> driver \<Rightarrow> (bool \<times> trace_t \<times> driver) run" where
  "valid_alloc record_ok tracenum i op = (\<lambda>(t, d).
     let index = op_index op; sz = op_size op in
     andthen (call (mm_malloc sz (mm d))) (\<lambda>(p, s).
       let d = d\<lparr>mm := s\<rparr> in
       if p = NULL then returns (False, t, malloc_error tracenum (of_nat i) Malloc_failed d)
       else andthen (add_range (record_ok i) p sz tracenum (of_nat i) d) (\<lambda>(r, d).
         if r = 0 then returns (False, t, d)
         else
           let d = d\<lparr>mm := fill_pattern p index sz (mm d)\<rparr> in
           andthen (array_set (blocks t) index p) (\<lambda>bs.
           andthen (array_set (block_sizes t) index sz) (\<lambda>szs.
             returns (True, t\<lparr>blocks := bs, block_sizes := szs\<rparr>, d))))))"

definition valid_realloc ::
  "(nat \<Rightarrow> bool) \<Rightarrow> 32 word \<Rightarrow> nat \<Rightarrow> traceop_t \<Rightarrow> trace_t \<times> driver \<Rightarrow> (bool \<times> trace_t \<times> driver) run" where
  "valid_realloc record_ok tracenum i op = (\<lambda>(t, d).
     let index = op_index op; sz = op_size op in
     andthen (array_get (blocks t) index) (\<lambda>oldp.
     andthen (call (mm_realloc oldp sz (mm d))) (\<lambda>(newp, s).
       let d = d\<lparr>mm := s\<rparr> in
       if newp = NULL then returns (False, t, malloc_error tracenum (of_nat i) Realloc_failed d)
       else
         let d = d\<lparr>ranges := remove_range (ranges d) oldp\<rparr> in
         andthen (add_range (record_ok i) newp sz tracenum (of_nat i) d) (\<lambda>(r, d).
           if r = 0 then returns (False, t, d)
           else andthen (array_get (block_sizes t) index) (\<lambda>oldsize.
             let oldsize = (if sint sz < sint oldsize then sz else oldsize) in
             if \<not> pattern_kept (mem (mm d)) newp index oldsize
             then returns (False, t, malloc_error tracenum (of_nat i) Not_preserved d)
             else
               let d = d\<lparr>mm := fill_pattern newp index sz (mm d)\<rparr> in
               andthen (array_set (blocks t) index newp) (\<lambda>bs.
               andthen (array_set (block_sizes t) index sz) (\<lambda>szs.
                 returns (True, t\<lparr>blocks := bs, block_sizes := szs\<rparr>, d))))))))"

definition valid_free :: "traceop_t \<Rightarrow> trace_t \<times> driver \<Rightarrow> (bool \<times> trace_t \<times> driver) run" where
  "valid_free op = (\<lambda>(t, d).
     andthen (array_get (blocks t) (op_index op)) (\<lambda>p.
       let d = d\<lparr>ranges := remove_range (ranges d) p\<rparr> in
       andthen (call (mm_free p (mm d))) (\<lambda>s. returns (True, t, d\<lparr>mm := s\<rparr>))))"

definition valid_op ::
  "(nat \<Rightarrow> bool) \<Rightarrow> 32 word \<Rightarrow> nat \<Rightarrow> traceop_t \<Rightarrow> trace_t \<times> driver \<Rightarrow> (bool \<times> trace_t \<times> driver) run" where
  "valid_op record_ok tracenum i op = (\<lambda>(t, d).
     let d = d\<lparr>traceop_index := of_nat i, traceop_ptr := op_index op\<rparr> in
     case op_type op of
       ALLOC \<Rightarrow> valid_alloc record_ok tracenum i op (t, d)
     | REALLOC \<Rightarrow> valid_realloc record_ok tracenum i op (t, d)
     | FREE \<Rightarrow> valid_free op (t, d))"

text \<open>The loop over the operations, from operation number \<open>i\<close> on; the result is the return value.\<close>

fun valid_loop ::
  "(nat \<Rightarrow> bool) \<Rightarrow> 32 word \<Rightarrow> nat \<Rightarrow> traceop_t list \<Rightarrow> trace_t \<times> driver \<Rightarrow> (32 word \<times> trace_t \<times> driver) run" where
  "valid_loop record_ok tracenum i [] td = returns (1, td)"
| "valid_loop record_ok tracenum i (op # rest) td =
     andthen (valid_op record_ok tracenum i op td) (\<lambda>(go, td).
       if go then valid_loop record_ok tracenum (i + 1) rest td else returns (0, td))"

text \<open>\<^verbatim>\<open>mm_init\<close> as the driver calls it: an exit of the process, or its return value.\<close>

definition init_package :: "(size_t \<Rightarrow> addr) \<Rightarrow> 32 word \<Rightarrow> driver \<Rightarrow> (int \<times> driver) run" where
  "init_package libc_malloc getpagesize d =
     andthen (call (mm_init libc_malloc getpagesize (mm d))) (\<lambda>r.
       case r of Inl e \<Rightarrow> halts (Stop e) | Inr (v, s) \<Rightarrow> returns (v, d\<lparr>mm := s\<rparr>))"

definition eval_mm_valid ::
  "(size_t \<Rightarrow> addr) \<Rightarrow> 32 word \<Rightarrow> (nat \<Rightarrow> bool) \<Rightarrow> trace_t \<Rightarrow> 32 word \<Rightarrow> driver \<Rightarrow>
    (32 word \<times> trace_t \<times> driver) run" where
  "eval_mm_valid libc_malloc getpagesize record_ok t tracenum d =
     (let d = d\<lparr>mm := mem_reset_brk (mm d)\<rparr>; d = clear_ranges d in
      andthen (init_package libc_malloc getpagesize d) (\<lambda>(v, d).
        if v < 0 then returns (0, t, malloc_error tracenum 0 Init_failed d)
        else valid_loop record_ok tracenum 0 (trace_ops t) (t, d\<lparr>trace_operations := ops t\<rparr>)))"

section \<open>eval_mm_util\<close>

text \<open>\<open>total\<close> and \<open>hwm\<close> are \<^verbatim>\<open>total_size\<close> and \<^verbatim>\<open>max_total_size\<close>, both of type \<^verbatim>\<open>int\<close>.\<close>

record util_state =
  u_mm :: mm_state
  total :: "32 word"
  hwm :: "32 word"

definition raise_hwm :: "util_state \<Rightarrow> util_state" where
  "raise_hwm u = u\<lparr>hwm := (if sint (total u) > sint (hwm u) then total u else hwm u)\<rparr>"

definition util_op :: "traceop_t \<Rightarrow> trace_t \<times> util_state \<Rightarrow> (trace_t \<times> util_state) run" where
  "util_op op = (\<lambda>(t, u).
     let index = op_index op; sz = op_size op in
     case op_type op of
       ALLOC \<Rightarrow>
         andthen (call (mm_malloc sz (u_mm u))) (\<lambda>(p, s).
           if p = NULL then app_error
           else
             andthen (array_set (blocks t) index p) (\<lambda>bs.
             andthen (array_set (block_sizes t) index sz) (\<lambda>szs.
               returns (t\<lparr>blocks := bs, block_sizes := szs\<rparr>,
                 raise_hwm (u\<lparr>u_mm := s, total := total u + sz\<rparr>)))))
     | REALLOC \<Rightarrow>
         andthen (array_get (block_sizes t) index) (\<lambda>oldsize.
         andthen (array_get (blocks t) index) (\<lambda>oldp.
         andthen (call (mm_realloc oldp sz (u_mm u))) (\<lambda>(newp, s).
           if newp = NULL then app_error
           else
             andthen (array_set (blocks t) index newp) (\<lambda>bs.
             andthen (array_set (block_sizes t) index sz) (\<lambda>szs.
               returns (t\<lparr>blocks := bs, block_sizes := szs\<rparr>,
                 raise_hwm (u\<lparr>u_mm := s, total := total u + (sz - oldsize)\<rparr>)))))))
     | FREE \<Rightarrow>
         andthen (array_get (block_sizes t) index) (\<lambda>sz.
         andthen (array_get (blocks t) index) (\<lambda>p.
         andthen (call (mm_free p (u_mm u))) (\<lambda>s.
           returns (t, u\<lparr>u_mm := s, total := total u - sz\<rparr>)))))"

fun util_loop :: "traceop_t list \<Rightarrow> trace_t \<times> util_state \<Rightarrow> (trace_t \<times> util_state) run" where
  "util_loop [] tu = returns tu"
| "util_loop (op # rest) tu = andthen (util_op op tu) (util_loop rest)"

text \<open>The result is the quotient of \<^verbatim>\<open>max_total_size\<close> and the heap size.\<close>

definition eval_mm_util ::
  "(size_t \<Rightarrow> addr) \<Rightarrow> 32 word \<Rightarrow> trace_t \<Rightarrow> driver \<Rightarrow> (double \<times> trace_t \<times> driver) run" where
  "eval_mm_util libc_malloc getpagesize t d =
     andthen (init_package libc_malloc getpagesize (d\<lparr>mm := mem_reset_brk (mm d)\<rparr>)) (\<lambda>(v, d).
       if v < 0 then app_error
       else andthen (util_loop (trace_ops t) (t, \<lparr>u_mm = mm d, total = 0, hwm = 0\<rparr>)) (\<lambda>(t, u).
         returns (Fin (real_of_int (sint (hwm u))) / Fin (real (unat (mem_heapsize (u_mm u)))), t, d\<lparr>mm := u_mm u\<rparr>)))"

section \<open>The timed runs\<close>

text \<open>
  The three routines that only replay a trace share their shape: the allocator's operations
  on some state \<open>'s\<close>, and what happens when one of them fails. \<open>eval_libc_valid\<close> and
  \<open>eval_libc_speed\<close> take libc's operations as parameters. Every failure ends the process
  with exit code 1, after a message.
\<close>

definition eval_op ::
  "(size_t \<Rightarrow> 's \<Rightarrow> (addr \<times> 's) run) \<Rightarrow> (addr \<Rightarrow> size_t \<Rightarrow> 's \<Rightarrow> (addr \<times> 's) run) \<Rightarrow> (addr \<Rightarrow> 's \<Rightarrow> 's run) \<Rightarrow>
    traceop_t \<Rightarrow> trace_t \<times> 's \<Rightarrow> (trace_t \<times> 's) run" where
  "eval_op malloc realloc free op = (\<lambda>(t, s).
     case op_type op of
       ALLOC \<Rightarrow>
         andthen (malloc (op_size op) s) (\<lambda>(p, s).
           if p = NULL then halts (Stop (Exit 1))
           else andthen (array_set (blocks t) (op_index op) p) (\<lambda>bs. returns (t\<lparr>blocks := bs\<rparr>, s)))
     | REALLOC \<Rightarrow>
         andthen (array_get (blocks t) (op_index op)) (\<lambda>oldp.
         andthen (realloc oldp (op_size op) s) (\<lambda>(newp, s).
           if newp = NULL then halts (Stop (Exit 1))
           else andthen (array_set (blocks t) (op_index op) newp) (\<lambda>bs. returns (t\<lparr>blocks := bs\<rparr>, s))))
     | FREE \<Rightarrow>
         andthen (array_get (blocks t) (op_index op)) (\<lambda>p. andthen (free p s) (\<lambda>s. returns (t, s))))"

fun eval_loop :: "('x \<Rightarrow> 'y \<Rightarrow> 'y run) \<Rightarrow> 'x list \<Rightarrow> 'y \<Rightarrow> 'y run" where
  "eval_loop f [] ts = returns ts"
| "eval_loop f (op # rest) ts = andthen (f op ts) (eval_loop f rest)"

definition eval_mm_speed ::
  "(size_t \<Rightarrow> addr) \<Rightarrow> 32 word \<Rightarrow> trace_t \<Rightarrow> driver \<Rightarrow> (trace_t \<times> driver) run" where
  "eval_mm_speed libc_malloc getpagesize t d =
     andthen (init_package libc_malloc getpagesize (d\<lparr>mm := mem_reset_brk (mm d)\<rparr>)) (\<lambda>(v, d).
       if v < 0 then app_error
       else andthen (eval_loop (eval_op (\<lambda>n s. call (mm_malloc n s)) (\<lambda>p n s. call (mm_realloc p n s))
              (\<lambda>p s. call (mm_free p s))) (trace_ops t) (t, mm d)) (\<lambda>(t, s).
         returns (t, d\<lparr>mm := s\<rparr>)))"

definition eval_libc_valid ::
  "(size_t \<Rightarrow> 's \<Rightarrow> (addr \<times> 's) run) \<Rightarrow> (addr \<Rightarrow> size_t \<Rightarrow> 's \<Rightarrow> (addr \<times> 's) run) \<Rightarrow> (addr \<Rightarrow> 's \<Rightarrow> 's run) \<Rightarrow>
    trace_t \<Rightarrow> 's \<Rightarrow> (32 word \<times> trace_t \<times> 's) run" where
  "eval_libc_valid malloc realloc free t s =
     andthen (eval_loop (eval_op malloc realloc free) (trace_ops t) (t, s)) (\<lambda>ts. returns (1, ts))"

definition eval_libc_speed ::
  "(size_t \<Rightarrow> 's \<Rightarrow> (addr \<times> 's) run) \<Rightarrow> (addr \<Rightarrow> size_t \<Rightarrow> 's \<Rightarrow> (addr \<times> 's) run) \<Rightarrow> (addr \<Rightarrow> 's \<Rightarrow> 's run) \<Rightarrow>
    trace_t \<Rightarrow> 's \<Rightarrow> (trace_t \<times> 's) run" where
  "eval_libc_speed malloc realloc free t s = eval_loop (eval_op malloc realloc free) (trace_ops t) (t, s)"

end
