(* ===== verification/Mdriver_Trace.thy ===== *)
theory Mdriver_Trace
  imports Mdriver
begin

text \<open>
  \<open>read_trace\<close> of src/mdriver.c. The trace file is its contents, a
  list of characters, or \<open>None\<close> when \<^verbatim>\<open>fopen\<close> fails; \<open>libc_ok k\<close> says whether the
  \<open>k\<close>-th \<^verbatim>\<open>malloc\<close> succeeds, and \<open>uninit\<close> is what a fresh array contains. The
  conversions of \<^verbatim>\<open>fscanf\<close> are modelled as the C standard defines them: leading white
  space is skipped, a number has an optional sign, and a number that does not fit its
  type is undefined behaviour. Every conversion stands inside an \<^verbatim>\<open>assert\<close>.

  The results are a round trip (a well-formed trace that is printed in the format of
  the files under src/traces is read back) and what the assertions establish for every
  file that is accepted.
\<close>

section \<open>fscanf\<close>

definition is_space :: "char \<Rightarrow> bool" where
  "is_space c \<longleftrightarrow> (of_char c :: nat) \<in> {9, 10, 11, 12, 13, 32}"

definition is_digit :: "char \<Rightarrow> bool" where
  "is_digit c \<longleftrightarrow> 48 \<le> (of_char c :: nat) \<and> (of_char c :: nat) \<le> 57"

definition digits_val :: "string \<Rightarrow> nat" where
  "digits_val ds = foldl (\<lambda>v c. 10 * v + (of_char c - 48)) 0 ds"

definition scan_sign :: "string \<Rightarrow> bool \<times> string" where
  "scan_sign cs =
     (case cs of
        [] \<Rightarrow> (False, [])
      | c # r \<Rightarrow> if c = CHR ''-'' then (True, r) else if c = CHR ''+'' then (False, r) else (False, c # r))"

text \<open>Sign, absolute value and the remaining input; \<open>None\<close> is a matching failure.\<close>

definition scan_num :: "string \<Rightarrow> (bool \<times> nat \<times> string) option" where
  "scan_num cs =
     (let (neg, cs) = scan_sign (dropWhile is_space cs); ds = takeWhile is_digit cs
      in if ds = [] then None else Some (neg, digits_val ds, dropWhile is_digit cs))"

text \<open>\<^verbatim>\<open>assert(fscanf(tracefile, "%d", ...) == 1)\<close>, and the same for \<^verbatim>\<open>%u\<close>.\<close>

definition scan_d :: "string \<Rightarrow> stop + 32 word \<times> string" where
  "scan_d cs =
     (case scan_num cs of
        None \<Rightarrow> Inl Assert
      | Some (neg, v, r) \<Rightarrow>
          if v < 2 ^ 31 \<or> neg \<and> v = 2 ^ 31 then Inr (if neg then - of_nat v else of_nat v, r)
          else Inl Undefined)"

definition scan_u :: "string \<Rightarrow> stop + 32 word \<times> string" where
  "scan_u cs =
     (case scan_num cs of
        None \<Rightarrow> Inl Assert
      | Some (neg, v, r) \<Rightarrow>
          if v < 2 ^ 32 then Inr (if neg then - of_nat v else of_nat v, r) else Inl Undefined)"

definition MAXLINE :: nat where
  "MAXLINE = 1024"

text \<open>\<^verbatim>\<open>fscanf(tracefile, "%s", type)\<close>: \<open>None\<close> at the end of the file.\<close>

definition scan_s :: "string \<Rightarrow> (string \<times> string) option" where
  "scan_s cs =
     (let cs = dropWhile is_space cs
      in if cs = [] then None else Some (takeWhile (Not \<circ> is_space) cs, dropWhile (Not \<circ> is_space) cs))"

definition sum_then :: "stop + 'a \<Rightarrow> ('a \<Rightarrow> stop + 'b) \<Rightarrow> stop + 'b" where
  "sum_then x f = (case x of Inl e \<Rightarrow> Inl e | Inr y \<Rightarrow> f y)"

section \<open>read_trace\<close>

text \<open>The format \<^verbatim>\<open>"%ud"\<close> of a free request also swallows a letter d behind the number.\<close>

definition skip_d :: "string \<Rightarrow> string" where
  "skip_d cs = (case cs of [] \<Rightarrow> [] | c # r \<Rightarrow> if c = CHR ''d'' then r else cs)"

text \<open>
  One request line, after its type: the request with the larger of \<open>max_index\<close> and its
  index. A free request leaves its \<^verbatim>\<open>size\<close> field as it was.
\<close>

definition read_op ::
  "32 word \<Rightarrow> char \<Rightarrow> 32 word \<Rightarrow> string \<Rightarrow> stop + traceop_t \<times> 32 word \<times> string" where
  "read_op uninit_size c max_index cs =
     (if c = CHR ''a'' \<or> c = CHR ''r'' then
        sum_then (scan_u cs) (\<lambda>(index, cs).
        sum_then (scan_u cs) (\<lambda>(sz, cs).
          Inr (\<lparr>op_type = (if c = CHR ''a'' then ALLOC else REALLOC), op_index = index, op_size = sz\<rparr>,
            if index > max_index then index else max_index, cs)))
      else if c = CHR ''f'' then
        sum_then (scan_u cs) (\<lambda>(index, cs).
          Inr (\<lparr>op_type = FREE, op_index = index, op_size = uninit_size\<rparr>, max_index, skip_d cs))
      else Inl (Stop (Exit 1)))"

lemma scan_sign_shorter: "scan_sign xs = (n, ys) \<Longrightarrow> length ys \<le> length xs"
  by (cases xs) (auto simp: scan_sign_def split: if_splits)

lemma scan_num_shorter:
  assumes "scan_num cs = Some (neg, v, r)"
  shows "length r < length cs"
proof -
  obtain n cs' where s: "scan_sign (dropWhile is_space cs) = (n, cs')" by (cases "scan_sign (dropWhile is_space cs)")
  have "length cs' \<le> length (dropWhile is_space cs)"
    by (rule scan_sign_shorter [OF s])
  then have "length cs' \<le> length cs" using length_dropWhile_le [of is_space cs] by (rule le_trans)
  moreover have "length (dropWhile is_digit cs') < length cs'" if "takeWhile is_digit cs' \<noteq> []"
  proof -
    have "length (takeWhile is_digit cs') + length (dropWhile is_digit cs') = length cs'"
      by (simp flip: length_append)
    with that show ?thesis by (cases "takeWhile is_digit cs'") auto
  qed
  ultimately show ?thesis
    using assms s by (auto simp: scan_num_def Let_def split: if_splits)
qed

lemma scan_u_shorter: "scan_u cs = Inr (v, r) \<Longrightarrow> length r < length cs"
  by (auto simp: scan_u_def split: option.splits if_splits dest: scan_num_shorter)

lemma read_op_shorter:
  assumes "read_op u c mx cs = Inr (op, mx', r)"
  shows "length r < length cs"
  using assms
  by (auto simp: read_op_def sum_then_def skip_d_def split: if_splits sum.splits list.splits
      dest!: scan_u_shorter)

lemma scan_s_shorter:
  assumes "scan_s cs = Some (tok, r)"
  shows "length r \<le> length cs" "tok \<noteq> []"
proof -
  from assms have r: "r = dropWhile (Not \<circ> is_space) (dropWhile is_space cs)" "dropWhile is_space cs \<noteq> []"
    "tok = takeWhile (Not \<circ> is_space) (dropWhile is_space cs)"
    by (auto simp: scan_s_def Let_def split: if_splits)
  show "length r \<le> length cs" unfolding r using length_dropWhile_le le_trans by blast
  have "\<not> is_space (hd (dropWhile is_space cs))" using r(2) by (rule hd_dropWhile)
  then show "tok \<noteq> []" using r(2,3) by (cases "dropWhile is_space cs") auto
qed

text \<open>
  The loop over the request lines. \<open>cap\<close> is the length of \<^verbatim>\<open>trace->ops\<close>, \<open>acc\<close> the
  requests read so far; one request more than the array holds is written outside it.
\<close>

function read_ops ::
  "(nat \<Rightarrow> 32 word) \<Rightarrow> nat \<Rightarrow> string \<Rightarrow> 32 word \<Rightarrow> traceop_t list \<Rightarrow> stop + 32 word \<times> traceop_t list" where
  "read_ops uninit cap cs max_index acc =
     (case scan_s cs of
        None \<Rightarrow> Inr (max_index, acc)
      | Some (type, cs) \<Rightarrow>
          if MAXLINE \<le> length type then Inl Undefined
          else
            (case read_op (uninit (length acc)) (hd type) max_index cs of
               Inl e \<Rightarrow> Inl e
             | Inr (op, max_index, cs) \<Rightarrow>
                 if cap \<le> length acc then Inl Undefined
                 else read_ops uninit cap cs max_index (acc @ [op])))"
  by pat_completeness auto
termination
  by (relation "measure (\<lambda>(u, cap, cs, mx, acc). length cs)")
    (auto dest!: scan_s_shorter(1) read_op_shorter)

declare read_ops.simps [simp del]

text \<open>An array for \<open>n\<close> elements of \<open>k\<close> bytes, as \<^verbatim>\<open>malloc(n * k)\<close> delivers it.\<close>

definition array_len :: "32 word \<Rightarrow> 32 word \<Rightarrow> nat" where
  "array_len n k = unat (n * k) div unat k"

definition read_trace ::
  "(nat \<Rightarrow> bool) \<Rightarrow> (nat \<Rightarrow> 32 word) \<Rightarrow> string option \<Rightarrow> stop + trace_t" where
  "read_trace libc_ok uninit file =
     (if \<not> libc_ok 1 then Inl (Stop (Exit 1))
      else case file of
        None \<Rightarrow> Inl (Stop (Exit 1))
      | Some cs \<Rightarrow>
          sum_then (scan_d cs) (\<lambda>(sugg, cs).
          sum_then (scan_d cs) (\<lambda>(ids, cs).
          sum_then (scan_d cs) (\<lambda>(nops, cs).
          sum_then (scan_d cs) (\<lambda>(wt, cs).
            if \<not> libc_ok 2 \<or> \<not> libc_ok 3 \<or> \<not> libc_ok 4 then Inl (Stop (Exit 1))
            else
              sum_then (read_ops uninit (array_len nops 12) cs 0 []) (\<lambda>(max_index, xs).
                if max_index \<noteq> ids - 1 then Inl Assert
                else if nops \<noteq> of_nat (length xs) then Inl Assert
                else Inr \<lparr>sugg_heapsize = sugg, num_ids = ids, num_ops = nops, weight = wt, ops = xs,
                  blocks = map uninit [0..<array_len ids 4],
                  block_sizes = map uninit [0..<array_len ids 4]\<rparr>))))))"

section \<open>Printed traces\<close>

text \<open>The format of the files under src/traces.\<close>

fun show_nat :: "nat \<Rightarrow> string" where
  "show_nat n = (if n < 10 then [char_of (48 + n)] else show_nat (n div 10) @ [char_of (48 + n mod 10)])"

declare show_nat.simps [simp del]

definition newline :: char where
  "newline = CHR 0x0A"

definition op_char :: "optype \<Rightarrow> char" where
  "op_char ty = (case ty of ALLOC \<Rightarrow> CHR ''a'' | REALLOC \<Rightarrow> CHR ''r'' | FREE \<Rightarrow> CHR ''f'')"

definition show_op :: "traceop_t \<Rightarrow> string" where
  "show_op op = op_char (op_type op) # CHR '' '' # show_nat (unat (op_index op)) @
     (if op_type op = FREE then [] else CHR '' '' # show_nat (unat (op_size op))) @ [newline]"

definition show_line :: "32 word \<Rightarrow> string" where
  "show_line n = show_nat (unat n) @ [newline]"

definition show_trace :: "trace_t \<Rightarrow> string" where
  "show_trace t = show_line (sugg_heapsize t) @ show_line (num_ids t) @ show_line (num_ops t) @
     show_line (weight t) @ concat (map show_op (ops t))"

lemma digit_char:
  assumes "n < 10"
  shows "is_digit (char_of (48 + n :: nat))" "of_char (char_of (48 + n :: nat)) = 48 + n"
    "\<not> is_space (char_of (48 + n :: nat))" "char_of (48 + n :: nat) \<noteq> CHR ''-''" "char_of (48 + n :: nat) \<noteq> CHR ''+''"
proof -
  show o: "of_char (char_of (48 + n :: nat)) = 48 + n" using assms by simp
  then show "is_digit (char_of (48 + n :: nat))" "\<not> is_space (char_of (48 + n :: nat))"
    using assms by (simp_all add: is_digit_def is_space_def)
  show "char_of (48 + n :: nat) \<noteq> CHR ''-''" "char_of (48 + n :: nat) \<noteq> CHR ''+''"
    using o arg_cong [of _ _ "of_char :: char \<Rightarrow> nat"] by force+
qed

lemma show_nat_digits: "c \<in> set (show_nat n) \<Longrightarrow> is_digit c \<and> \<not> is_space c \<and> c \<noteq> CHR ''-'' \<and> c \<noteq> CHR ''+''"
proof (induction n rule: show_nat.induct)
  case (1 n)
  show ?case
  proof (cases "n < 10")
    case True
    with 1 digit_char [of n] show ?thesis by (simp add: show_nat.simps [of n])
  next
    case False
    with 1 digit_char [of "n mod 10"] show ?thesis by (auto simp: show_nat.simps [of n])
  qed
qed

lemma show_nat_nonempty [simp]: "show_nat n \<noteq> []"
  by (simp add: show_nat.simps [of n])

lemma digits_val_show: "digits_val (show_nat n) = n"
proof (induction n rule: show_nat.induct)
  case (1 n)
  show ?case
  proof (cases "n < 10")
    case True
    with digit_char(2) [of n] show ?thesis by (simp add: show_nat.simps [of n] digits_val_def)
  next
    case False
    have "digits_val (show_nat (n div 10) @ [char_of (48 + n mod 10)]) = 10 * (n div 10) + n mod 10"
      using 1 [OF False] digit_char(2) [of "n mod 10"] by (simp add: digits_val_def)
    with False show ?thesis by (simp add: show_nat.simps [of n])
  qed
qed

text \<open>Input that ends a number.\<close>

definition ends_number :: "string \<Rightarrow> bool" where
  "ends_number cs \<longleftrightarrow> (case cs of [] \<Rightarrow> True | c # _ \<Rightarrow> \<not> is_digit c)"

lemma scan_num_show:
  assumes "ends_number r" "\<forall>c \<in> set ws. is_space c"
  shows "scan_num (ws @ show_nat n @ r) = Some (False, n, r)"
proof -
  obtain c ds where s: "show_nat n = c # ds" by (cases "show_nat n") simp_all
  have c: "\<not> is_space c" "c \<noteq> CHR ''-''" "c \<noteq> CHR ''+''" using show_nat_digits [of c n] s by auto
  have all: "\<forall>d \<in> set (show_nat n). is_digit d" using show_nat_digits by blast
  have "dropWhile is_space (ws @ show_nat n @ r) = show_nat n @ r"
    using assms(2) c(1) by (simp add: s dropWhile_append2)
  moreover have "scan_sign (show_nat n @ r) = (False, show_nat n @ r)"
    using c by (simp add: s scan_sign_def)
  moreover have "takeWhile is_digit (show_nat n @ r) = show_nat n" "dropWhile is_digit (show_nat n @ r) = r"
    using all assms(1) by (auto simp: ends_number_def takeWhile_append2 dropWhile_append2 split: list.splits)
  ultimately show ?thesis by (simp add: scan_num_def digits_val_show)
qed

lemma scan_u_show:
  "ends_number r \<Longrightarrow> \<forall>c \<in> set ws. is_space c \<Longrightarrow> scan_u (ws @ show_nat (unat v) @ r) = Inr (v, r)"
  using unat_lt2p_32 [of v] by (simp add: scan_u_def scan_num_show)

lemma scan_d_show:
  "ends_number r \<Longrightarrow> \<forall>c \<in> set ws. is_space c \<Longrightarrow> unat v < 2 ^ 31 \<Longrightarrow>
    scan_d (ws @ show_nat (unat v) @ r) = Inr (v, r)"
  by (simp add: scan_d_def scan_num_show)

lemma white: "is_space newline" "is_space CHR '' ''" "\<not> is_digit newline" "\<not> is_digit CHR '' ''"
  by (simp_all add: is_space_def is_digit_def newline_def)

lemma op_char_simps:
  "\<not> is_space (op_char ty)" "op_char ty = CHR ''a'' \<longleftrightarrow> ty = ALLOC" "op_char ty = CHR ''r'' \<longleftrightarrow> ty = REALLOC"
  "op_char ty = CHR ''f'' \<longleftrightarrow> ty = FREE"
  by (cases ty; simp add: op_char_def is_space_def)+

text \<open>The fields of a request that its line determines; a free request has no size.\<close>

definition reread :: "32 word \<Rightarrow> traceop_t \<Rightarrow> traceop_t" where
  "reread u op = (if op_type op = FREE then op\<lparr>op_size := u\<rparr> else op)"

definition max_alloc :: "32 word \<Rightarrow> traceop_t list \<Rightarrow> 32 word" where
  "max_alloc mx xs = foldl (\<lambda>m op. if op_type op \<noteq> FREE \<and> op_index op > m then op_index op else m) mx xs"

lemma max_alloc_Cons:
  "max_alloc mx (op # xs) = max_alloc (if op_type op \<noteq> FREE \<and> op_index op > mx then op_index op else mx) xs"
  by (simp add: max_alloc_def)

lemma read_op_show:
  "read_op u (op_char (op_type op)) mx (CHR '' '' # show_nat (unat (op_index op)) @
     (if op_type op = FREE then [] else CHR '' '' # show_nat (unat (op_size op))) @ newline # r) =
   Inr (reread u op, if op_type op \<noteq> FREE \<and> op_index op > mx then op_index op else mx, newline # r)"
proof -
  have e: "ends_number (newline # r)" "ends_number (CHR '' '' # r')" for r'
    by (simp_all add: ends_number_def white)
  note u = scan_u_show [OF e(1), of "[CHR '' '']"] scan_u_show [OF e(2), of "[CHR '' '']"]
  have "skip_d (newline # r) = newline # r" by (simp add: skip_d_def newline_def)
  then show ?thesis
    using u white by (cases "op_type op") (auto simp: read_op_def op_char_simps sum_then_def reread_def)
qed

lemma scan_s_op:
  assumes "\<forall>c \<in> set ws. is_space c"
  shows "scan_s (ws @ op_char ty # CHR '' '' # r) = Some ([op_char ty], CHR '' '' # r)"
proof -
  have "dropWhile is_space (ws @ op_char ty # CHR '' '' # r) = op_char ty # CHR '' '' # r"
    using assms by (simp add: dropWhile_append2 op_char_simps)
  then show ?thesis by (simp add: scan_s_def op_char_simps white)
qed

lemma scan_s_end: "\<forall>c \<in> set ws. is_space c \<Longrightarrow> scan_s ws = None"
  by (simp add: scan_s_def dropWhile_eq_Nil_conv)

lemma read_ops_show:
  assumes "\<forall>c \<in> set ws. is_space c" "length acc + length xs \<le> cap"
  shows "read_ops uninit cap (ws @ concat (map show_op xs)) mx acc =
    Inr (max_alloc mx xs, acc @ map (\<lambda>(k, op). reread (uninit k) op) (zip [length acc..<length acc + length xs] xs))"
  using assms
proof (induction xs arbitrary: ws mx acc)
  case Nil
  then show ?case by (subst read_ops.simps) (simp add: scan_s_end max_alloc_def)
next
  case (Cons op xs)
  let ?body = "show_nat (unat (op_index op)) @
     (if op_type op = FREE then [] else CHR '' '' # show_nat (unat (op_size op)))"
  have line: "ws @ concat (map show_op (op # xs)) =
      ws @ op_char (op_type op) # CHR '' '' # ?body @ newline # concat (map show_op xs)"
    by (simp add: show_op_def)
  have "scan_s (ws @ concat (map show_op (op # xs))) =
      Some ([op_char (op_type op)], CHR '' '' # ?body @ newline # concat (map show_op xs))"
    unfolding line by (rule scan_s_op [OF Cons.prems(1)])
  then have "read_ops uninit cap (ws @ concat (map show_op (op # xs))) mx acc =
      read_ops uninit cap ([newline] @ concat (map show_op xs))
        (if op_type op \<noteq> FREE \<and> op_index op > mx then op_index op else mx) (acc @ [reread (uninit (length acc)) op])"
    using Cons.prems(2) read_op_show [of "uninit (length acc)" op mx "concat (map show_op xs)"]
    by (subst read_ops.simps) (simp add: MAXLINE_def)
  also have "\<dots> = Inr (max_alloc mx (op # xs), (acc @ [reread (uninit (length acc)) op]) @
      map (\<lambda>(k, op). reread (uninit k) op) (zip [Suc (length acc)..<Suc (length acc) + length xs] xs))"
    using Cons.prems(2) by (subst Cons.IH) (simp_all add: white max_alloc_Cons)
  also have "[Suc (length acc)..<Suc (length acc) + length xs] = tl [length acc..<length acc + length (op # xs)]"
    by (simp add: tl_upt del: upt_Suc)
  finally show ?case
    by (simp add: upt_conv_Cons del: upt_Suc)
qed

text \<open>A trace whose header agrees with its requests.\<close>

definition trace_fits :: "trace_t \<Rightarrow> bool" where
  "trace_fits t \<longleftrightarrow> unat (sugg_heapsize t) < 2 ^ 31 \<and> unat (num_ids t) < 2 ^ 31 \<and> unat (weight t) < 2 ^ 31 \<and>
     length (ops t) * 12 < 2 ^ 32 \<and> num_ops t = of_nat (length (ops t)) \<and> max_alloc 0 (ops t) = num_ids t - 1"

text \<open>The trace that is read back: the arrays are fresh, free requests have no size.\<close>

definition fresh_trace :: "(nat \<Rightarrow> 32 word) \<Rightarrow> trace_t \<Rightarrow> trace_t" where
  "fresh_trace uninit t = t\<lparr>ops := map (\<lambda>(k, op). reread (uninit k) op) (zip [0..<length (ops t)] (ops t)),
     blocks := map uninit [0..<array_len (num_ids t) 4], block_sizes := map uninit [0..<array_len (num_ids t) 4]\<rparr>"

lemma array_len_12: "n * 12 < 2 ^ 32 \<Longrightarrow> array_len (of_nat n) 12 = n"
  using unat_w32 [of "n * 12"] by (simp add: array_len_def w32_def)

lemma read_trace_show:
  assumes fits: "trace_fits t" and ok: "\<And>k. libc_ok k"
  shows "read_trace libc_ok uninit (Some (show_trace t)) = Inr (fresh_trace uninit t)"
proof -
  have F: "unat (sugg_heapsize t) < 2 ^ 31" "unat (num_ids t) < 2 ^ 31" "unat (weight t) < 2 ^ 31"
    "length (ops t) * 12 < 2 ^ 32" "num_ops t = of_nat (length (ops t))" "max_alloc 0 (ops t) = num_ids t - 1"
    using fits by (simp_all add: trace_fits_def)
  have n: "unat (num_ops t) < 2 ^ 31"
    using F(4,5) unat_w32 [of "length (ops t)"] by (simp add: w32_def)
  have e: "ends_number (newline # r)" for r by (simp add: ends_number_def white)
  let ?r = "concat (map show_op (ops t))"
  have 1: "scan_d (show_trace t) =
      Inr (sugg_heapsize t, [newline] @ show_nat (unat (num_ids t)) @ [newline] @ show_nat (unat (num_ops t)) @
        [newline] @ show_nat (unat (weight t)) @ [newline] @ ?r)"
    using scan_d_show [OF e _ F(1), of "[]"] by (simp add: show_trace_def show_line_def)
  have 2: "scan_d ([newline] @ show_nat (unat v) @ [newline] @ r) = Inr (v, [newline] @ r)" if "unat v < 2 ^ 31" for v r
    using scan_d_show [OF e _ that, of "[newline]"] by (simp add: white)
  have 3: "read_ops uninit (array_len (num_ops t) 12) ([newline] @ ?r) 0 [] =
      Inr (num_ids t - 1, map (\<lambda>(k, op). reread (uninit k) op) (zip [0..<length (ops t)] (ops t)))"
    using read_ops_show [of "[newline]" "[]" "ops t" "array_len (num_ops t) 12" uninit 0] F(4-6)
    by (simp add: white array_len_12)
  show ?thesis
    unfolding read_trace_def
    by (simp only: 1 2 [OF F(2)] 2 [OF n] 2 [OF F(3)] 3 sum_then_def sum.case option.case prod.case ok if_False simp_thms)
      (simp add: F(5) fresh_trace_def)
qed

section \<open>What every accepted file guarantees\<close>

lemma max_alloc_ge: "mx \<le> max_alloc mx xs \<and> (\<forall>op \<in> set xs. op_type op \<noteq> FREE \<longrightarrow> op_index op \<le> max_alloc mx xs)"
proof (induction xs arbitrary: mx)
  case Nil
  then show ?case by (simp add: max_alloc_def)
next
  case (Cons op xs)
  from Cons.IH [of "if op_type op \<noteq> FREE \<and> op_index op > mx then op_index op else mx"] show ?case
    unfolding max_alloc_Cons by (auto split: if_splits)
qed

lemma read_op_max:
  assumes "read_op u c mx cs = Inr (op, mx', r)"
  shows "mx' = (if op_type op \<noteq> FREE \<and> op_index op > mx then op_index op else mx)"
  using assms by (auto simp: read_op_def sum_then_def split: if_splits sum.splits)

text \<open>The loop appends at most as many requests as the array holds.\<close>

lemma read_ops_accepts:
  "read_ops uninit cap cs mx acc = Inr (mx', xs) \<Longrightarrow> length acc \<le> cap \<Longrightarrow>
    \<exists>ys. xs = acc @ ys \<and> length xs \<le> cap \<and> mx' = max_alloc mx ys"
proof (induction uninit cap cs mx acc rule: read_ops.induct)
  case (1 uninit cap cs mx acc)
  show ?case
  proof (cases "scan_s cs")
    case None
    with 1(2,3) show ?thesis by (subst (asm) read_ops.simps) (simp add: max_alloc_def)
  next
    case (Some x)
    with 1(2) obtain type cs1 op mx1 cs2 where 2: "scan_s cs = Some (type, cs1)" "length type < MAXLINE"
      "read_op (uninit (length acc)) (hd type) mx cs1 = Inr (op, mx1, cs2)" "length acc < cap"
      "read_ops uninit cap cs2 mx1 (acc @ [op]) = Inr (mx', xs)"
      by (subst (asm) read_ops.simps) (auto split: prod.splits if_splits sum.splits)
    from 1(1) [OF 2(1) refl _ 2(3) refl refl _ 2(5)] 2(2,4) obtain ys where
      "xs = (acc @ [op]) @ ys" "length xs \<le> cap" "mx' = max_alloc mx1 ys" by auto
    then show ?thesis
      using read_op_max [OF 2(3)] by (intro exI [of _ "op # ys"]) (simp add: max_alloc_Cons)
  qed
qed

lemma read_trace_accepts:
  assumes "read_trace libc_ok uninit file = Inr t"
  shows "num_ops t = of_nat (length (ops t))" "length (ops t) * 12 < 2 ^ 32" "max_alloc 0 (ops t) = num_ids t - 1"
    "length (blocks t) = array_len (num_ids t) 4" "length (block_sizes t) = array_len (num_ids t) 4"
proof -
  from assms obtain cs mx where R: "read_ops uninit (array_len (num_ops t) 12) cs 0 [] = Inr (mx, ops t)"
    and E: "mx = num_ids t - 1" "num_ops t = of_nat (length (ops t))"
    "length (blocks t) = array_len (num_ids t) 4" "length (block_sizes t) = array_len (num_ids t) 4"
    by (auto simp: read_trace_def sum_then_def split: if_splits option.splits sum.splits)
  then show "num_ops t = of_nat (length (ops t))" "length (blocks t) = array_len (num_ids t) 4"
    "length (block_sizes t) = array_len (num_ids t) 4" by simp_all
  from read_ops_accepts [OF R] have "length (ops t) \<le> array_len (num_ops t) 12" "mx = max_alloc 0 (ops t)" by auto
  moreover have "unat (num_ops t * 12) < 2 ^ 32" by (rule unat_lt2p_32)
  ultimately show "length (ops t) * 12 < 2 ^ 32" "max_alloc 0 (ops t) = num_ids t - 1"
    using E(1) by (simp_all add: array_len_def)
qed

lemma array_len_4: "unat n < 2 ^ 30 \<Longrightarrow> array_len n 4 = unat n"
  by (simp add: array_len_def unat_word_ariths)

lemma accepted_index:
  assumes "read_trace libc_ok uninit file = Inr t" "0 < unat (num_ids t)" "unat (num_ids t) < 2 ^ 30"
    and "op \<in> set (ops t)" "op_type op \<noteq> FREE"
  shows "unat (op_index op) < length (blocks t)" "unat (op_index op) < length (block_sizes t)"
proof -
  note A = read_trace_accepts [OF assms(1)]
  have "op_index op \<le> num_ids t - 1" using max_alloc_ge [of 0 "ops t"] assms(4,5) A(3) by auto
  then have "unat (op_index op) < unat (num_ids t)"
    using assms(2) by (cases "num_ids t = 0") (simp_all add: word_le_nat_alt unat_minus_one)
  then show "unat (op_index op) < length (blocks t)" "unat (op_index op) < length (block_sizes t)"
    using A(4,5) array_len_4 [OF assms(3)] by simp_all
qed

lemma accepted_ops:
  assumes "read_trace libc_ok uninit file = Inr t"
  shows "trace_ops t = ops t"
proof -
  note A = read_trace_accepts [OF assms]
  then have "sint (num_ops t) = int (length (ops t))" by (simp add: sint_w32 flip: w32_def)
  then show ?thesis by (simp add: trace_ops_def)
qed

end
