(* ===== verification/Mm_Layout.thy ===== *)
theory Mm_Layout
  imports Mm_Allocator
begin

text \<open>
  The layout of the heap of src/mm.c, as an invariant on the view of memory: the blocks
  tile the interval between the prologue and the epilogue, headers and footers agree
  with them, and the free lists hold exactly the free blocks.

  A ghost map \<open>B\<close> sends the payload address of each block to its size and its
  allocated flag. The four ways in which the operations change the tiling (flip a flag,
  split, merge, extend) are the lemmas \<open>tiled_flag\<close>, \<open>tiled_split\<close>, \<open>tiled_merge\<close>
  and \<open>tiled_extend\<close>. \<open>quiet\<close> says that no payload of an allocated block and nothing outside the
  interval changed; the
  lemmas \<open>off_links_*\<close> say what a write to the links of listed blocks leaves intact.
\<close>

type_synonym blocks = "nat \<rightharpoonup> nat \<times> bool"

section \<open>Tilings\<close>

definition tiled :: "nat \<Rightarrow> nat \<Rightarrow> blocks \<Rightarrow> bool" where
  "tiled lo hi B \<longleftrightarrow> 8 dvd lo \<and> 16 \<le> lo \<and> hi < 2 ^ 32 \<and> B lo \<noteq> None \<and>
     (\<forall>a sz al. B a = Some (sz, al) \<longrightarrow> 8 dvd a \<and> 8 dvd sz \<and> 16 \<le> sz \<and> lo \<le> a \<and> a + sz \<le> hi \<and>
        (a + sz = hi \<or> B (a + sz) \<noteq> None)) \<and>
     (\<forall>a sz al b sz' al'. B a = Some (sz, al) \<longrightarrow> B b = Some (sz', al') \<longrightarrow> a < b \<longrightarrow> a + sz \<le> b)"

lemma tiledD:
  assumes "tiled lo hi B" "B a = Some (sz, al)"
  shows "8 dvd a" "8 dvd sz" "16 \<le> sz" "lo \<le> a" "16 \<le> a" "a + sz \<le> hi" "a + sz < 2 ^ 32"
    "a + sz = hi \<or> B (a + sz) \<noteq> None" "16 \<le> lo" "hi < 2 ^ 32"
  using assms unfolding tiled_def by (meson le_trans le_less_trans)+

lemma tiled_apart:
  assumes "tiled lo hi B" "B a = Some (sz, al)" "B b = Some (sz', al')" "a < b"
  shows "a + sz \<le> b"
  using assms unfolding tiled_def by meson

lemma tiled_disjoint:
  assumes "tiled lo hi B" "B a = Some (sz, al)" "B b = Some (sz', al')" "a \<noteq> b"
  shows "a + sz \<le> b \<or> b + sz' \<le> a"
  using assms tiled_apart by (meson linorder_neqE_nat)

lemma tiled_node:
  assumes "tiled lo hi B" "B a = Some (sz, al)"
  shows "node a"
  using tiledD [OF assms] by (auto simp: node_def)

lemma tiled_hi: "tiled lo hi B \<Longrightarrow> lo + 16 \<le> hi"
  unfolding tiled_def by fastforce

lemma tiled_flag:
  assumes "tiled lo hi B" "B a = Some (sz, al)"
  shows "tiled lo hi (B(a \<mapsto> (sz, al')))"
  unfolding tiled_def
proof (intro conjI allI impI)
  fix b szb alb
  assume "(B(a \<mapsto> (sz, al'))) b = Some (szb, alb)"
  then have b: "\<exists>alb'. B b = Some (szb, alb')"
    using assms(2) by (auto split: if_splits)
  then obtain alb' where "B b = Some (szb, alb')" by blast
  from tiledD [OF assms(1) this] show "8 dvd b" "8 dvd szb" "16 \<le> szb" "lo \<le> b" "b + szb \<le> hi"
    "b + szb = hi \<or> (B(a \<mapsto> (sz, al'))) (b + szb) \<noteq> None"
    by auto
  fix c szc alc
  assume "(B(a \<mapsto> (sz, al'))) c = Some (szc, alc)" "b < c"
  with b tiled_apart [OF assms(1)] assms(2) show "b + szb \<le> c"
    by (auto split: if_splits)
qed (use assms in \<open>auto simp: tiled_def\<close>)

lemma tiled_split:
  assumes T: "tiled lo hi B" and a: "B a = Some (sz, al)"
    and k: "8 dvd k" "16 \<le> k" "k + 16 \<le> sz"
  shows "tiled lo hi (B(a \<mapsto> (k, al1), a + k \<mapsto> (sz - k, al2)))" (is "tiled lo hi ?B")
  unfolding tiled_def
proof (intro conjI allI impI)
  note A = tiledD [OF T a]
  fix b szb alb
  assume b: "?B b = Some (szb, alb)"
  show "8 dvd b" "8 dvd szb" "16 \<le> szb" "lo \<le> b" "b + szb \<le> hi"
    using b A k tiledD [OF T, of b szb alb] by (auto split: if_splits intro: dvd_diff_nat)
  show "b + szb = hi \<or> ?B (b + szb) \<noteq> None"
    using b A k tiledD(8) [OF T, of b szb alb] by (auto split: if_splits)
  fix c szc alc
  assume c: "?B c = Some (szc, alc)" "b < c"
  show "b + szb \<le> c"
    using b c k a tiled_apart [OF T, of b szb alb c szc alc] tiled_apart [OF T a, of c szc alc]
      tiled_apart [OF T, of b szb alb a sz al] tiled_apart [OF T a, of b szb alb]
    by (cases b a rule: linorder_cases) (auto split: if_splits)
qed (use assms in \<open>auto simp: tiled_def\<close>)

lemma tiled_merge:
  assumes T: "tiled lo hi B" and a: "B a = Some (sz, al)" and b: "B (a + sz) = Some (sz2, al2)"
  shows "tiled lo hi (B(a \<mapsto> (sz + sz2, al'), a + sz := None))" (is "tiled lo hi ?B")
  unfolding tiled_def
proof (intro conjI allI impI)
  note A = tiledD [OF T a] and B2 = tiledD [OF T b]
  fix c szc alc
  assume c: "?B c = Some (szc, alc)"
  show "8 dvd c" "8 dvd szc" "16 \<le> szc" "lo \<le> c" "c + szc \<le> hi"
    using c A B2 tiledD [OF T, of c szc alc] by (auto split: if_splits)
  show "c + szc = hi \<or> ?B (c + szc) \<noteq> None"
    using c A B2 tiledD(3,8) [OF T, of c szc alc] tiled_disjoint [OF T a, of c szc alc]
    by (auto split: if_splits simp: add.assoc)
  fix d szd ald
  assume d: "?B d = Some (szd, ald)" "c < d"
  show "c + szc \<le> d"
    using c d a A B2 tiled_apart [OF T, of c szc alc d szd ald] tiled_apart [OF T a, of d szd ald]
      tiled_apart [OF T b, of d szd ald] tiled_apart [OF T, of c szc alc a sz al]
      tiledD(3) [OF T, of d szd ald]
    by (auto split: if_splits)
next
  show "?B lo \<noteq> None"
  proof -
    have "a + sz \<noteq> lo" "B lo \<noteq> None"
      using tiledD(3,4) [OF T a] T by (auto simp: tiled_def)
    then show ?thesis by simp
  qed
qed (use assms in \<open>auto simp: tiled_def\<close>)

lemma tiled_extend:
  assumes T: "tiled lo hi B" and sz: "8 dvd hi" "8 dvd sz" "16 \<le> sz" "hi + sz < 2 ^ 32"
  shows "tiled lo (hi + sz) (B(hi \<mapsto> (sz, al)))" (is "tiled lo _ ?B")
  unfolding tiled_def
proof (intro conjI allI impI)
  fix b szb alb
  assume b: "?B b = Some (szb, alb)"
  show "8 dvd b" "8 dvd szb" "16 \<le> szb" "lo \<le> b" "b + szb \<le> hi + sz"
    using b sz tiledD [OF T, of b szb alb] tiled_hi [OF T] by (auto split: if_splits)
  show "b + szb = hi + sz \<or> ?B (b + szb) \<noteq> None"
    using b tiledD(8) [OF T, of b szb alb] by (auto split: if_splits)
  fix c szc alc
  assume c: "?B c = Some (szc, alc)" "b < c"
  show "b + szb \<le> c"
    using b c tiled_apart [OF T, of b szb alb c szc alc] tiledD(6) [OF T, of b szb alb]
      tiledD(3,6) [OF T, of c szc alc]
    by (auto split: if_splits)
qed (use assms in \<open>auto simp: tiled_def\<close>)

text \<open>Two different blocks, header word included, share no address.\<close>

lemma tiled_spans:
  assumes "tiled lo hi B" "B a = Some (sz, al)" "B b = Some (sz', al')" "a \<noteq> b"
    "a \<le> c + 4" "c + 4 < a + sz"
  shows "\<not> (b \<le> c + 4 \<and> c + 4 < b + sz')"
  using tiled_disjoint [OF assms(1-4)] assms(5,6) by auto

section \<open>Headers, footers and the epilogue\<close>

definition block_hdr :: "(nat \<Rightarrow> 32 word) \<Rightarrow> nat \<Rightarrow> nat \<Rightarrow> bool \<Rightarrow> bool" where
  "block_hdr H a sz al \<longleftrightarrow>
     H (a - 4) = hdr sz al True \<and> (\<not> al \<longrightarrow> H (a + sz - 8) = hdr sz False True)"

definition blocks_ok :: "(nat \<Rightarrow> 32 word) \<Rightarrow> blocks \<Rightarrow> bool" where
  "blocks_ok H B \<longleftrightarrow> (\<forall>a sz al. B a = Some (sz, al) \<longrightarrow> block_hdr H a sz al)"

text \<open>
  The epilogue, in the word before the break. Its own \<^verbatim>\<open>PREVALLOC\<close> bit is clear only
  while the last block is free; it may be set although that block is free.
\<close>

definition EPILOGUE :: nat where
  "EPILOGUE = 0xEA7F00D0"

definition epi_ok :: "(nat \<Rightarrow> 32 word) \<Rightarrow> nat \<Rightarrow> blocks \<Rightarrow> bool" where
  "epi_ok H hi B \<longleftrightarrow> H (hi - 4) = hdr EPILOGUE True True \<or>
     H (hi - 4) = hdr EPILOGUE True False \<and> (\<exists>a sz. B a = Some (sz, False) \<and> a + sz = hi)"

definition frees :: "blocks \<Rightarrow> nat \<rightharpoonup> nat" where
  "frees B a = (case B a of Some (sz, False) \<Rightarrow> Some sz | _ \<Rightarrow> None)"

lemma frees_Some: "frees B a = Some sz \<longleftrightarrow> B a = Some (sz, False)"
  by (auto simp: frees_def split: option.splits bool.splits)

lemma frees_upd [simp]:
  "frees (B(a \<mapsto> (sz, al))) = (frees B)(a := if al then None else Some sz)"
  "frees (B(a := None)) = (frees B)(a := None)"
  by (auto simp: frees_def fun_eq_iff)

lemma frees_None: "B a = None \<Longrightarrow> frees B a = None" "B a = Some (sz, True) \<Longrightarrow> frees B a = None"
  by (simp_all add: frees_def)

lemma dom_frees: "a \<in> dom (frees B) \<longleftrightarrow> (\<exists>sz. B a = Some (sz, False))"
  by (auto simp: dom_def frees_Some)

lemma block_hdr_frame:
  assumes "\<And>c. a \<le> c + 4 \<Longrightarrow> c + 4 < a + sz \<Longrightarrow> H' c = H c" "16 \<le> sz" "16 \<le> a"
  shows "block_hdr H' a sz al \<longleftrightarrow> block_hdr H a sz al"
  using assms(1) [of "a - 4"] assms(1) [of "a + sz - 8"] assms(2,3) by (simp add: block_hdr_def)

text \<open>
  \<open>quiet lo hi B H H'\<close>: the payloads of the allocated blocks of \<open>B\<close> are the same in both
  views, and so is everything outside the tiled interval from \<open>lo\<close> to \<open>hi\<close>, up to the
  header word of the first block.
\<close>

definition quiet :: "nat \<Rightarrow> nat \<Rightarrow> blocks \<Rightarrow> (nat \<Rightarrow> 32 word) \<Rightarrow> (nat \<Rightarrow> 32 word) \<Rightarrow> bool" where
  "quiet lo hi B H H' \<longleftrightarrow>
     (\<forall>a sz c. B a = Some (sz, True) \<longrightarrow> a \<le> c \<longrightarrow> c + 4 < a + sz \<longrightarrow> H' c = H c) \<and>
     (\<forall>c. c + 4 < lo \<or> hi \<le> c \<longrightarrow> H' c = H c)"

lemma quietI:
  assumes "\<And>a sz c. B a = Some (sz, True) \<Longrightarrow> a \<le> c \<Longrightarrow> c + 4 < a + sz \<Longrightarrow> H' c = H c"
    "\<And>c. c + 4 < lo \<or> hi \<le> c \<Longrightarrow> H' c = H c"
  shows "quiet lo hi B H H'"
  using assms by (simp add: quiet_def)

lemma quietD: "quiet lo hi B H H' \<Longrightarrow> B a = Some (sz, True) \<Longrightarrow> a \<le> c \<Longrightarrow> c + 4 < a + sz \<Longrightarrow> H' c = H c"
  by (auto simp: quiet_def)

lemma quiet_outside: "quiet lo hi B H H' \<Longrightarrow> c + 4 < lo \<or> hi \<le> c \<Longrightarrow> H' c = H c"
  by (auto simp: quiet_def)

lemma quiet_refl [simp]: "quiet lo hi B H H"
  by (simp add: quiet_def)

lemma quiet_trans: "quiet lo hi B H H' \<Longrightarrow> quiet lo hi B H' H'' \<Longrightarrow> quiet lo hi B H H''"
  by (simp add: quiet_def)

lemma quiet_mono:
  assumes "quiet lo hi B' H H'" "\<And>a sz. B a = Some (sz, True) \<Longrightarrow> B' a = Some (sz, True)"
  shows "quiet lo hi B H H'"
  by (rule quietI) (use quietD [OF assms(1)] quiet_outside [OF assms(1)] assms(2) in blast)+

lemma quiet_grow: "quiet lo hi B H H' \<Longrightarrow> hi \<le> hi' \<Longrightarrow> quiet lo hi' B H H'"
  by (auto simp: quiet_def)

text \<open>Writing inside one block leaves the other blocks' payloads alone.\<close>

lemma quiet_upd:
  assumes "tiled lo hi B" "B a = Some (sz, False)" "a \<le> c + 4" "c + 4 < a + sz"
  shows "quiet lo hi B H (H(c := v))"
proof (rule quietI)
  fix b szb d
  assume b: "B b = Some (szb, True)" "b \<le> d" "d + 4 < b + szb"
  then have "a \<noteq> b" using assms(2) by auto
  from tiled_spans [OF assms(1,2) b(1) this assms(3,4)] b(2,3) have "d \<noteq> c" by auto
  then show "(H(c := v)) d = H d" by simp
next
  fix d
  assume "d + 4 < lo \<or> hi \<le> d"
  with tiledD(4,6) [OF assms(1,2)] assms(3,4) have "d \<noteq> c" by auto
  then show "(H(c := v)) d = H d" by simp
qed

lemma off_links_quiet:
  assumes "tiled lo hi B" "off_links (dom (frees B)) H H'"
  shows "quiet lo hi B H H'"
proof (rule quietI)
  fix b szb c
  assume b: "B b = Some (szb, True)" "b \<le> c" "c + 4 < b + szb"
  show "H' c = H c"
  proof (rule off_linksD [OF assms(2)])
    fix a
    assume "a \<in> dom (frees B)"
    then obtain sz where a: "B a = Some (sz, False)" by (auto simp: dom_frees)
    then have "a \<noteq> b" using b(1) by auto
    then have "a + sz \<le> b \<or> b + szb \<le> a" by (rule tiled_disjoint [OF assms(1) a b(1)])
    with b(2,3) tiledD(3) [OF assms(1) a] show "c \<noteq> a \<and> c \<noteq> a + 4" by auto
  qed
next
  fix c
  assume c: "c + 4 < lo \<or> hi \<le> c"
  show "H' c = H c"
  proof (rule off_linksD [OF assms(2)])
    fix a
    assume "a \<in> dom (frees B)"
    then obtain sz where "B a = Some (sz, False)" by (auto simp: dom_frees)
    from tiledD(3,4,6) [OF assms(1) this] c show "c \<noteq> a \<and> c \<noteq> a + 4" by auto
  qed
qed

lemma off_links_block_hdr:
  assumes T: "tiled lo hi B" and off: "off_links (dom (frees B)) H H'" and a: "B a = Some (sz, al)"
  shows "block_hdr H' a sz al \<longleftrightarrow> block_hdr H a sz al"
proof -
  have cell: "H' c = H c" if "c = a - 4 \<or> c = a + sz - 8 \<and> \<not> al" for c
  proof (rule off_linksD [OF off])
    fix b
    assume "b \<in> dom (frees B)"
    then obtain szb where b: "B b = Some (szb, False)" by (auto simp: dom_frees)
    show "c \<noteq> b \<and> c \<noteq> b + 4"
      using tiled_disjoint [OF T a b] tiledD [OF T a] tiledD [OF T b] that a b
      by (cases "a = b") (auto elim!: dvdE)
  qed
  then show ?thesis by (auto simp: block_hdr_def)
qed

lemma epi_ok_transfer:
  assumes "epi_ok H hi B" "H' (hi - 4) = H (hi - 4)"
    "\<And>p sz. B p = Some (sz, False) \<Longrightarrow> p + sz = hi \<Longrightarrow> \<exists>p sz. B' p = Some (sz, False) \<and> p + sz = hi"
  shows "epi_ok H' hi B'"
  using assms by (auto simp: epi_ok_def)

lemma off_links_epi:
  assumes T: "tiled lo hi B" and off: "off_links (dom (frees B)) H H'"
  shows "epi_ok H' hi B \<longleftrightarrow> epi_ok H hi B"
proof -
  have "H' (hi - 4) = H (hi - 4)"
  proof (rule off_linksD [OF off])
    fix b
    assume "b \<in> dom (frees B)"
    then obtain szb where b: "B b = Some (szb, False)" by (auto simp: dom_frees)
    then show "hi - 4 \<noteq> b \<and> hi - 4 \<noteq> b + 4"
      using tiledD(3,6) [OF T b] by auto
  qed
  then show ?thesis by (simp add: epi_ok_def)
qed

lemma off_links_blocks:
  assumes "tiled lo hi B" "off_links (dom (frees B)) H H'"
  shows "blocks_ok H' B \<longleftrightarrow> blocks_ok H B"
  using off_links_block_hdr [OF assms] by (auto simp: blocks_ok_def)

end
