(* ===== verification/Mm_Invariant.thy ===== *)
theory Mm_Invariant
  imports Mm_Layout
begin

text \<open>
  The invariant of the package's state, and the internal routines of src/mm.c against an
  abstract machine.

  The abstract machine works on a pair of the block map and the lists of free blocks,
  with no memory, no headers and no pointers: \<open>spec_coalesce\<close>, \<open>spec_allocate\<close>,
  \<open>spec_find_fit\<close>. \<open>heap_inv s B S F\<close> relates a state to such a pair; \<open>S\<close> is the set
  of blocks in the lists, which differs from the free blocks of \<open>B\<close> only in the middle
  of an operation. Each simulation theorem says that a routine returns, that its result
  is the abstract one, and that no payload of an allocated block changed.
\<close>

section \<open>The abstract machine\<close>

type_synonym aheap = "blocks \<times> nat list list"

abbreviation lidx :: "nat \<Rightarrow> nat" where
  "lidx sz \<equiv> calc_list_index (w32 sz)"

definition list_remove :: "nat \<Rightarrow> nat \<Rightarrow> nat list list \<Rightarrow> nat list list" where
  "list_remove a sz F = F[lidx sz := remove1 a (F ! lidx sz)]"

definition list_add :: "nat \<Rightarrow> nat \<Rightarrow> nat list list \<Rightarrow> nat list list" where
  "list_add a sz F = F[lidx sz := F ! lidx sz @ [a]]"

text \<open>Merge the free, unlisted block \<open>a\<close> with its successor if that is free, and list it.\<close>

definition spec_coalesce :: "nat \<Rightarrow> aheap \<Rightarrow> aheap" where
  "spec_coalesce a = (\<lambda>(B, F).
     case B a of
       None \<Rightarrow> (B, F)
     | Some (sz, _) \<Rightarrow>
         (case B (a + sz) of
            Some (sz2, False) \<Rightarrow>
              (B(a \<mapsto> (sz + sz2, False), a + sz := None), list_add a (sz + sz2) (list_remove (a + sz) sz2 F))
          | _ \<Rightarrow> (B, list_add a sz F)))"

definition spec_allocate :: "nat \<Rightarrow> nat \<Rightarrow> aheap \<Rightarrow> aheap" where
  "spec_allocate a n = (\<lambda>(B, F).
     case B a of
       None \<Rightarrow> (B, F)
     | Some (sz, _) \<Rightarrow>
         (let F = list_remove a sz F in
          if n + 16 \<le> sz
          then spec_coalesce (a + n) (B(a \<mapsto> (n, True), a + n \<mapsto> (sz - n, False)), F)
          else (B(a \<mapsto> (sz, True)), F)))"

definition spec_fits :: "nat \<Rightarrow> aheap \<Rightarrow> nat \<Rightarrow> bool" where
  "spec_fits n = (\<lambda>(B, F) i.
     case F ! i of [] \<Rightarrow> False | a # _ \<Rightarrow> (case B a of Some (sz, _) \<Rightarrow> n \<le> sz | None \<Rightarrow> False))"

definition spec_find_fit :: "nat \<Rightarrow> aheap \<Rightarrow> (nat \<times> nat) option" where
  "spec_find_fit n A =
     map_option (\<lambda>i. (hd (snd A ! i), i)) (List.find (spec_fits n A) [lidx n..<FREELIST_COUNT])"

section \<open>The invariant\<close>

definition heap_lo :: "mm_state \<Rightarrow> nat" where
  "heap_lo s = unat (heap_start s) + 16"

definition brk :: "mm_state \<Rightarrow> nat" where
  "brk s = unat (mem_brk s)"

text \<open>The variables other than the memory and the lists.\<close>

definition vars_ok :: "mm_state \<Rightarrow> bool" where
  "vars_ok s \<longleftrightarrow> memlib_inv s \<and> heap_start s = mem_start_brk s \<and> heap_end s = mem_brk s - 1 \<and>
     8 dvd brk s \<and> 8 dvd unat (ADJUSTED_PAGESIZE s) \<and> 16 \<le> unat (ADJUSTED_PAGESIZE s) \<and>
     unat (mem_max_addr s) + unat (ADJUSTED_PAGESIZE s) < 2 ^ 32"

definition heap_inv :: "mm_state \<Rightarrow> blocks \<Rightarrow> (nat \<rightharpoonup> nat) \<Rightarrow> nat list list \<Rightarrow> bool" where
  "heap_inv s B S F \<longleftrightarrow> vars_ok s \<and> tiled (heap_lo s) (brk s) B \<and>
     blocks_ok (view (mem s)) B \<and> epi_ok (view (mem s)) (brk s) B \<and>
     lists_ok (view (mem s)) (free_lists s) S F"

lemma heap_invD:
  assumes "heap_inv s B S F"
  shows "vars_ok s" "tiled (heap_lo s) (brk s) B" "blocks_ok (view (mem s)) B"
    "epi_ok (view (mem s)) (brk s) B" "lists_ok (view (mem s)) (free_lists s) S F"
  using assms by (simp_all add: heap_inv_def)

lemma vars_upd [simp]:
  "vars_ok (s\<lparr>mem := m\<rparr>) \<longleftrightarrow> vars_ok s" "vars_ok (s\<lparr>free_lists := f\<rparr>) \<longleftrightarrow> vars_ok s"
  "brk (s\<lparr>mem := m\<rparr>) = brk s" "brk (s\<lparr>free_lists := f\<rparr>) = brk s"
  "heap_lo (s\<lparr>mem := m\<rparr>) = heap_lo s" "heap_lo (s\<lparr>free_lists := f\<rparr>) = heap_lo s"
  by (simp_all add: vars_ok_def memlib_inv_def brk_def heap_lo_def)

lemma inv_has_hdr:
  assumes "heap_inv s B S F" "B a = Some (sz, al)"
  shows "has_hdr (mem s) a sz al True"
proof -
  note D = tiledD [OF heap_invD(2) [OF assms(1)] assms(2)]
  have "wcell (a - 4)"
    using D by (auto simp: wcell_def elim!: dvdE)
  with D heap_invD(3) [OF assms(1)] assms(2) show ?thesis
    by (auto simp: has_hdr_def blocks_ok_def block_hdr_def)
qed

lemma EPILOGUE_dvd8 [simp]: "8 dvd EPILOGUE"
  by (simp add: EPILOGUE_def)

lemma brk_cell:
  assumes "heap_inv s B S F"
  shows "wcell (brk s - 4)" "4 \<le> brk s" "brk s < 2 ^ 32"
  using heap_invD(1) [OF assms] tiled_hi [OF heap_invD(2) [OF assms]] heap_invD(2) [OF assms]
  by (auto simp: vars_ok_def wcell_def tiled_def elim!: dvdE)

lemma inv_has_epi:
  assumes "heap_inv s B S F"
  shows "\<exists>prev. has_hdr (mem s) (brk s) EPILOGUE True prev"
  using brk_cell [OF assms] heap_invD(4) [OF assms]
  by (auto simp: has_hdr_def epi_ok_def)

text \<open>The flag word of the successor of a block, which may be the epilogue.\<close>

lemma inv_next:
  assumes "heap_inv s B S F" "B a = Some (sz, al)"
  shows "GET_NEXTALLOC (mem s) (w32 a) =
    (case B (a + sz) of Some (_, False) \<Rightarrow> 0 | _ \<Rightarrow> 1)"
proof (cases "B (a + sz)")
  case None
  then have "a + sz = brk s"
    using tiledD(8) [OF heap_invD(2) [OF assms(1)] assms(2)] by auto
  with inv_has_epi [OF assms(1)] NEXTALLOC_w32 [OF inv_has_hdr [OF assms]] None show ?thesis
    by auto
next
  case (Some blk)
  obtain sz2 al2 where "blk = (sz2, al2)" by (cases blk)
  with Some NEXTALLOC_w32 [OF inv_has_hdr [OF assms] inv_has_hdr [OF assms(1)]] show ?thesis
    by (auto split: bool.split)
qed

text \<open>A list routine changes link words of free blocks only.\<close>

lemma heap_inv_links:
  assumes "heap_inv s B S F" "off_links (dom (frees B)) (view (mem s)) (view m)"
    "lists_ok (view m) f S' F'"
  shows "heap_inv (s\<lparr>mem := m, free_lists := f\<rparr>) B S' F'"
  using assms off_links_blocks [OF heap_invD(2) [OF assms(1)] assms(2)]
    off_links_epi [OF heap_invD(2) [OF assms(1)] assms(2)]
  by (simp add: heap_inv_def)

lemma off_links_mono: "off_links X H H' \<Longrightarrow> X \<subseteq> Y \<Longrightarrow> off_links Y H H'"
  by (auto simp: off_links_def)

text \<open>The two list routines on states that satisfy the invariant.\<close>

lemma remove_from_list_inv:
  assumes inv: "heap_inv s B S F" and S: "S \<subseteq>\<^sub>m frees B" and a: "S a = Some sz"
  shows "\<exists>m f. remove_from_list (w32 a) (lidx sz) s = s\<lparr>mem := m, free_lists := f\<rparr> \<and>
    heap_inv (s\<lparr>mem := m, free_lists := f\<rparr>) B (S(a := None)) (list_remove a sz F) \<and>
    off_links (dom (frees B)) (view (mem s)) (view m) \<and>
    view m a = view (mem s) a \<and> view m (a + 4) = view (mem s) (a + 4)"
proof -
  obtain m f where *: "remove_from_list (w32 a) (lidx sz) s = s\<lparr>mem := m, free_lists := f\<rparr>"
    "lists_ok (view m) f (S(a := None)) (list_remove a sz F)"
    "off_links (dom S) (view (mem s)) (view m)"
    "view m a = view (mem s) a" "view m (a + 4) = view (mem s) (a + 4)"
    using remove_from_list_ok [OF heap_invD(5) [OF inv] a refl] unfolding list_remove_def by blast
  have off: "off_links (dom (frees B)) (view (mem s)) (view m)"
    by (rule off_links_mono [OF *(3) map_le_implies_dom_le [OF S]])
  show ?thesis
    by (intro exI conjI) (rule *(1), rule heap_inv_links [OF inv off *(2)], rule off, rule *(4), rule *(5))
qed

lemma add_to_list_inv:
  assumes inv: "heap_inv s B S F" and S: "S \<subseteq>\<^sub>m frees B" and a: "S a = None" "B a = Some (sz, False)"
  shows "\<exists>m f. add_to_list (w32 a) (lidx sz) s = Some (s\<lparr>mem := m, free_lists := f\<rparr>) \<and>
    heap_inv (s\<lparr>mem := m, free_lists := f\<rparr>) B (S(a \<mapsto> sz)) (list_add a sz F) \<and>
    off_links (dom (frees B)) (view (mem s)) (view m)"
proof -
  obtain m f where *: "add_to_list (w32 a) (lidx sz) s = Some (s\<lparr>mem := m, free_lists := f\<rparr>)"
    "lists_ok (view m) f (S(a \<mapsto> sz)) (list_add a sz F)"
    "off_links (insert a (dom S)) (view (mem s)) (view m)"
    using add_to_list_ok [OF heap_invD(5) [OF inv] a(1) tiled_node [OF heap_invD(2) [OF inv] a(2)] refl]
    unfolding list_add_def by blast
  have "insert a (dom S) \<subseteq> dom (frees B)"
    using map_le_implies_dom_le [OF S] a(2) by (simp add: dom_frees)
  then have off: "off_links (dom (frees B)) (view (mem s)) (view m)"
    by (rule off_links_mono [OF *(3)])
  show ?thesis
    by (intro exI conjI) (rule *(1), rule heap_inv_links [OF inv off *(2)], rule off)
qed

end
