(* ===== verification/Mm_Simulation.thy ===== *)
theory Mm_Simulation
  imports Mm_Invariant
begin

text \<open>
  Routines of src/mm.c simulate the abstract machine: \<open>coalesce\<close>, \<open>free_block\<close> with
  \<open>mm_free\<close>, and \<open>allocate\<close>, each on a state that satisfies the invariant.
\<close>

section \<open>Rewriting a block\<close>

lemma PACK_hdr:
  "PACK (w32 n) 2 = hdr n False True" "PACK (w32 n) PREVALLOC = hdr n False True"
  "PACK (w32 n) 0 = hdr n False False"
  "PACK (w32 n) (THISALLOC OR 2) = hdr n True True"
  by (simp_all add: hdr_def PREVALLOC_def)

text \<open>Writes inside one region turn the blocks of that region into new ones.\<close>

lemma heap_inv_retile:
  assumes inv: "heap_inv s B S F" and T: "tiled (heap_lo s) (brk s) B'"
    and off: "\<And>c. \<not> (l \<le> c + 4 \<and> c + 4 < u) \<Longrightarrow> c + 4 < brk s \<Longrightarrow> view m c = view (mem s) c"
    and blocks: "\<And>b sz al. B' b = Some (sz, al) \<Longrightarrow>
      block_hdr (view m) b sz al \<or> B b = Some (sz, al) \<and> (b + sz \<le> l \<or> u \<le> b)"
    and links: "\<And>a. a \<in> dom S \<Longrightarrow> view m a = view (mem s) a \<and> view m (a + 4) = view (mem s) (a + 4)"
    and epi: "epi_ok (view m) (brk s) B'"
  shows "heap_inv (s\<lparr>mem := m\<rparr>) B' S F"
proof -
  have "block_hdr (view m) b sz al" if b: "B' b = Some (sz, al)" for b sz al
    using blocks [OF b]
  proof
    assume "B b = Some (sz, al) \<and> (b + sz \<le> l \<or> u \<le> b)"
    moreover from this have "view m c = view (mem s) c" if "b \<le> c + 4" "c + 4 < b + sz" for c
      using off [of c] that tiledD(6) [OF T b] by linarith
    ultimately show ?thesis
      using heap_invD(3) [OF inv] tiledD(3,5) [OF T b] block_hdr_frame [of b sz "view m" "view (mem s)" al]
      by (simp add: blocks_ok_def)
  qed
  then have "blocks_ok (view m) B'" by (simp add: blocks_ok_def)
  moreover have "lists_ok (view m) (free_lists s) S F"
    using lists_ok_cong [OF heap_invD(5) [OF inv]] links by blast
  ultimately show ?thesis
    using heap_invD(1) [OF inv] T epi by (simp add: heap_inv_def)
qed

text \<open>
  The invariant depends on the header words, on the link and footer words of free blocks
  and on the epilogue word only.
\<close>

lemma heap_inv_meta:
  assumes inv: "heap_inv s B S F" and S: "S \<subseteq>\<^sub>m frees B"
    and hdr: "\<And>a sz al. B a = Some (sz, al) \<Longrightarrow> view m (a - 4) = view (mem s) (a - 4)"
    and free: "\<And>a sz. B a = Some (sz, False) \<Longrightarrow> view m a = view (mem s) a \<and>
      view m (a + 4) = view (mem s) (a + 4) \<and> view m (a + sz - 8) = view (mem s) (a + sz - 8)"
    and epi: "view m (brk s - 4) = view (mem s) (brk s - 4)"
  shows "heap_inv (s\<lparr>mem := m\<rparr>) B S F"
proof -
  have "blocks_ok (view m) B"
    using heap_invD(3) [OF inv] hdr free by (auto simp: blocks_ok_def block_hdr_def)
  moreover have "lists_ok (view m) (free_lists s) S F"
  proof (rule lists_ok_cong [OF heap_invD(5) [OF inv]])
    fix a sz
    assume "S a = Some sz"
    with S have "frees B a = Some sz" by (metis map_le_def domI)
    then show "view m a = view (mem s) a \<and> view m (a + 4) = view (mem s) (a + 4)"
      using free by (simp add: frees_Some)
  qed
  moreover have "epi_ok (view m) (brk s) B"
    using epi by (intro epi_ok_transfer [OF heap_invD(4) [OF inv]]) blast+
  ultimately show ?thesis
    using heap_invD(1,2) [OF inv] by (simp add: heap_inv_def)
qed

text \<open>The words of a block that the routines write.\<close>

lemma block_cells:
  assumes "tiled lo hi B" "B a = Some (sz, al)"
  shows "wcell (a - 4)" "wcell (a + sz - 8)" "4 \<le> a" "wcell (a + sz - 4)"
  using tiledD [OF assms] by (auto simp: wcell_def elim!: dvdE)

lemma frees_dom_other:
  assumes T: "tiled lo hi B" and a: "B a = Some (sz, al)" and b: "b \<in> dom (frees B)" "b \<noteq> a"
  shows "b \<noteq> a - 4" "b + 4 \<noteq> a - 4" "b \<noteq> a + sz - 8" "b + 4 \<noteq> a + sz - 8"
    "b \<noteq> a + sz - 4" "b + 4 \<noteq> a + sz - 4"
proof -
  obtain szb where bb: "B b = Some (szb, False)" using b(1) by (auto simp: dom_frees)
  from tiled_disjoint [OF T a bb] b(2) tiledD(3) [OF T bb] tiledD(3,5) [OF T a]
  show "b \<noteq> a - 4" "b + 4 \<noteq> a - 4" "b \<noteq> a + sz - 8" "b + 4 \<noteq> a + sz - 8"
    "b \<noteq> a + sz - 4" "b + 4 \<noteq> a + sz - 4"
    by linarith+
qed

section \<open>coalesce\<close>

lemma coalesce_links:
  assumes inv: "heap_inv s B ((frees B)(a := None)) F" and a: "B a = Some (sz, False)"
  shows "\<exists>m f. add_to_list (w32 a) (lidx sz) s = Some (s\<lparr>mem := m, free_lists := f\<rparr>) \<and>
    heap_inv (s\<lparr>mem := m, free_lists := f\<rparr>) B (frees B) (list_add a sz F) \<and>
    quiet (heap_lo s) (brk s) B (view (mem s)) (view m)"
proof -
  have "(frees B)(a := None) \<subseteq>\<^sub>m frees B" by (auto simp: map_le_def)
  from add_to_list_inv [OF inv this _ a]
  obtain m f where *: "add_to_list (w32 a) (lidx sz) s = Some (s\<lparr>mem := m, free_lists := f\<rparr>)"
    "heap_inv (s\<lparr>mem := m, free_lists := f\<rparr>) B ((frees B)(a := None, a \<mapsto> sz)) (list_add a sz F)"
    "off_links (dom (frees B)) (view (mem s)) (view m)"
    by auto
  moreover have "(frees B)(a := None, a \<mapsto> sz) = frees B"
    using a by (simp add: frees_Some fun_upd_idem)
  ultimately show ?thesis
    using off_links_quiet [OF heap_invD(2) [OF inv] *(3)] by auto
qed

text \<open>Joining a free block with its free successor: one header and one footer write.\<close>

lemma merge_blocks:
  assumes T: "tiled lo hi B" and a: "B a = Some (sz, False)" and b: "B (a + sz) = Some (sz2, False)"
    and c: "(B(a \<mapsto> (sz + sz2, False), a + sz := None)) c = Some (szc, alc)"
  shows "block_hdr (H(a - 4 := hdr (sz + sz2) False True, a + (sz + sz2) - 8 := hdr (sz + sz2) False True)) c szc alc \<or>
    B c = Some (szc, alc) \<and> (c + szc \<le> a \<or> a + sz + sz2 \<le> c)"
proof (cases "c = a")
  case True
  with c tiledD(3) [OF T a] have "szc = sz + sz2" "alc = False" by auto
  with True show ?thesis by (simp add: block_hdr_def)
next
  case False
  with c have c': "B c = Some (szc, alc)" "c \<noteq> a + sz" by (auto split: if_splits)
  with False tiled_disjoint [OF T a c'(1)] tiled_disjoint [OF T b c'(1)] tiledD(3) [OF T c'(1)] tiledD(3) [OF T a]
  show ?thesis by linarith
qed

lemma merge_write:
  assumes inv: "heap_inv s B ((frees B)(a := None, a + sz := None)) F"
    and a: "B a = Some (sz, False)" and b: "B (a + sz) = Some (sz2, False)"
    and m: "view m = (view (mem s))(a - 4 := hdr (sz + sz2) False True,
      a + (sz + sz2) - 8 := hdr (sz + sz2) False True)"
  defines "B' \<equiv> B(a \<mapsto> (sz + sz2, False), a + sz := None)"
  shows "heap_inv (s\<lparr>mem := m\<rparr>) B' ((frees B')(a := None)) F \<and> quiet (heap_lo s) (brk s) B (view (mem s)) (view m)"
proof
  note T = heap_invD(2) [OF inv]
  note A = tiledD [OF T a] and A2 = tiledD [OF T b]
  have T': "tiled (heap_lo s) (brk s) B'"
    unfolding B'_def by (rule tiled_merge [OF T a b])
  have S: "(frees B')(a := None) = (frees B)(a := None, a + sz := None)"
    using A by (auto simp: B'_def fun_eq_iff)
  show "heap_inv (s\<lparr>mem := m\<rparr>) B' ((frees B')(a := None)) F"
    unfolding S
  proof (rule heap_inv_retile [OF inv T', where l = a and u = "a + sz + sz2"])
    show "view m c = view (mem s) c" if "\<not> (a \<le> c + 4 \<and> c + 4 < a + sz + sz2)" for c
      using that A A2 by (auto simp: m)
    show "block_hdr (view m) c szc alc \<or> B c = Some (szc, alc) \<and> (c + szc \<le> a \<or> a + sz + sz2 \<le> c)"
      if "B' c = Some (szc, alc)" for c szc alc
      using merge_blocks [OF T a b that [unfolded B'_def]] unfolding m .
    show "view m c = view (mem s) c \<and> view m (c + 4) = view (mem s) (c + 4)"
      if "c \<in> dom ((frees B)(a := None, a + sz := None))" for c
    proof -
      have "c \<in> dom (frees B)" "c \<noteq> a" "c \<noteq> a + sz" using that by (auto split: if_splits)
      from frees_dom_other(1,2) [OF T a this(1,2)] frees_dom_other(3,4) [OF T b this(1,3)]
      show ?thesis by (simp only: m fun_upd_apply add.assoc if_False simp_thms)
    qed
    show "epi_ok (view m) (brk s) B'"
    proof (rule epi_ok_transfer [OF heap_invD(4) [OF inv]])
      show "view m (brk s - 4) = view (mem s) (brk s - 4)"
        using A A2 by (auto simp: m)
      show "\<exists>p sz. B' p = Some (sz, False) \<and> p + sz = brk s"
        if "B p = Some (szp, False)" "p + szp = brk s" for p szp
        using that a b A A2
        by (intro exI [of _ "if p = a + sz then a else p"] exI [of _ "if p = a + sz then sz + sz2 else szp"])
          (auto simp: B'_def)
    qed
  qed
  show "quiet (heap_lo s) (brk s) B (view (mem s)) (view m)"
    unfolding m using A A2
    by (intro quiet_trans [OF quiet_upd [OF T a] quiet_upd [OF T b]]) auto
qed

text \<open>The second case of \<^verbatim>\<open>coalesce\<close>, from the unlinked successor to the call of \<^verbatim>\<open>add_to_list\<close>.\<close>

lemma coalesce_next_run:
  assumes inv: "heap_inv s B S F" and a: "B a = Some (sz, False)" and b: "B (a + sz) = Some (sz2, False)"
    and rem: "remove_from_list (w32 (a + sz)) (lidx sz2) s = s1" and inv1: "heap_inv s1 B S1 F1"
  obtains m where "coalesce (w32 a) s = map_option (Pair (w32 a)) (add_to_list (w32 a) (lidx (sz + sz2)) (s1\<lparr>mem := m\<rparr>))"
    "view m = (view (mem s1))(a - 4 := hdr (sz + sz2) False True, a + (sz + sz2) - 8 := hdr (sz + sz2) False True)"
proof -
  note T = heap_invD(2) [OF inv]
  note A = tiledD [OF T a] and A2 = tiledD [OF T b]
  define m2 where "m2 = PUTW (mem s1) (w32 (a - 4)) (hdr (sz + sz2) False True)"
  define m3 where "m3 = PUTW m2 (w32 (a + (sz + sz2) - 8)) (hdr (sz + sz2) False True)"
  have cells: "wcell (a - 4)" "wcell (a + (sz + sz2) - 8)"
    using block_cells(1) [OF T a] block_cells(2) [OF T b] by (simp_all add: add.assoc)
  have m3: "view m3 = (view (mem s1))(a - 4 := hdr (sz + sz2) False True,
      a + (sz + sz2) - 8 := hdr (sz + sz2) False True)"
    using cells by (simp add: m3_def m2_def view_PUTW)
  have has: "has_hdr (mem s) a sz False True" "has_hdr (mem s) (a + sz) sz2 False True"
    "has_hdr (mem s1) (a + sz) sz2 False True" "has_hdr m2 a (sz + sz2) False True"
    using inv_has_hdr [OF inv a] inv_has_hdr [OF inv b] inv_has_hdr [OF inv1 b] cells A A2
    by (auto simp: has_hdr_def m2_def view_PUTW)
  have next0: "GET_NEXTALLOC (mem s) (w32 a) = 0"
    using inv_next [OF inv a] b by simp
  have "coalesce (w32 a) s = map_option (Pair (w32 a)) (add_to_list (w32 a) (lidx (sz + sz2)) (s1\<lparr>mem := m3\<rparr>))"
    using A A2
    by (simp add: coalesce_def Let_def next0 hdr_macros [OF has(1)] hdr_macros [OF has(2)] rem
        hdr_macros [OF has(3)] w32_add putw_def BLOCKHDR_w32 PACK_hdr
        m2_def [symmetric] hdr_macros [OF has(4)] m3_def [symmetric] map_option_case
        split: option.split bind_split)
  with m3 that show ?thesis by blast
qed

lemma coalesce_alone:
  assumes inv: "heap_inv s B ((frees B)(a := None)) F" and a: "B a = Some (sz, False)"
    and b: "\<nexists>sz2. B (a + sz) = Some (sz2, False)"
  shows "\<exists>m f. coalesce (w32 a) s = Some (w32 a, s\<lparr>mem := m, free_lists := f\<rparr>) \<and>
    heap_inv (s\<lparr>mem := m, free_lists := f\<rparr>) B (frees B) (list_add a sz F) \<and>
    quiet (heap_lo s) (brk s) B (view (mem s)) (view m)"
proof -
  have "GET_NEXTALLOC (mem s) (w32 a) = 1"
    using inv_next [OF inv a] b by (auto split: option.splits bool.splits)
  then have "coalesce (w32 a) s = map_option (Pair (w32 a)) (add_to_list (w32 a) (lidx sz) s)"
    using hdr_macros [OF inv_has_hdr [OF inv a]]
    by (simp add: coalesce_def Let_def bind_eq_None_conv map_option_case split: option.split bind_split)
  then show ?thesis using coalesce_links [OF inv a] by auto
qed

lemma coalesce_merged:
  assumes inv: "heap_inv s B ((frees B)(a := None)) F" and a: "B a = Some (sz, False)" and b: "B (a + sz) = Some (sz2, False)"
  defines "B1 \<equiv> B(a \<mapsto> (sz + sz2, False), a + sz := None)"
  shows "\<exists>m f. coalesce (w32 a) s = Some (w32 a, s\<lparr>mem := m, free_lists := f\<rparr>) \<and>
    heap_inv (s\<lparr>mem := m, free_lists := f\<rparr>) B1 (frees B1) (list_add a (sz + sz2) (list_remove (a + sz) sz2 F)) \<and>
    quiet (heap_lo s) (brk s) B (view (mem s)) (view m)"
proof -
  let ?b = "a + sz" and ?H = "view (mem s)"
  note T = heap_invD(2) [OF inv]
  note A = tiledD [OF T a] and A2 = tiledD [OF T b]
  have S: "(frees B)(a := None) \<subseteq>\<^sub>m frees B" "((frees B)(a := None)) ?b = Some sz2"
    using A b by (auto simp: map_le_def frees_Some)
  from remove_from_list_inv [OF inv this] obtain m1 f1 where
    rem: "remove_from_list (w32 ?b) (lidx sz2) s = s\<lparr>mem := m1, free_lists := f1\<rparr>" and
    inv1: "heap_inv (s\<lparr>mem := m1, free_lists := f1\<rparr>) B ((frees B)(a := None, ?b := None))
      (list_remove ?b sz2 F)" and
    off1: "off_links (dom (frees B)) ?H (view m1)"
    by blast
  let ?s1 = "s\<lparr>mem := m1, free_lists := f1\<rparr>"
  obtain m3 where run: "coalesce (w32 a) s =
      map_option (Pair (w32 a)) (add_to_list (w32 a) (lidx (sz + sz2)) (?s1\<lparr>mem := m3\<rparr>))"
    and m3: "view m3 = (view (mem ?s1))(a - 4 := hdr (sz + sz2) False True, a + (sz + sz2) - 8 := hdr (sz + sz2) False True)"
    by (rule coalesce_next_run [OF inv a b rem inv1])
  have merged: "heap_inv (?s1\<lparr>mem := m3\<rparr>) B1 ((frees B1)(a := None)) (list_remove ?b sz2 F)"
    "quiet (heap_lo s) (brk s) B (view m1) (view m3)"
    using merge_write [OF inv1 a b m3] by (simp_all add: B1_def)
  have aB1: "B1 a = Some (sz + sz2, False)"
    using A by (simp add: B1_def)
  obtain m f where add: "add_to_list (w32 a) (lidx (sz + sz2)) (?s1\<lparr>mem := m3\<rparr>) =
      Some (?s1\<lparr>mem := m3\<rparr>\<lparr>mem := m, free_lists := f\<rparr>)"
    and invf: "heap_inv (?s1\<lparr>mem := m3\<rparr>\<lparr>mem := m, free_lists := f\<rparr>) B1 (frees B1)
      (list_add a (sz + sz2) (list_remove ?b sz2 F))"
    and q: "quiet (heap_lo s) (brk s) B1 (view m3) (view m)"
    using coalesce_links [OF merged(1) aB1] by auto
  have "quiet (heap_lo s) (brk s) B (view m3) (view m)"
    by (rule quiet_mono [OF q]) (use a b in \<open>auto simp: B1_def\<close>)
  then have "quiet (heap_lo s) (brk s) B ?H (view m)"
    using off_links_quiet [OF T off1] merged(2) quiet_trans by blast
  then show ?thesis using run add invf by auto
qed

theorem coalesce_sim:
  assumes inv: "heap_inv s B ((frees B)(a := None)) F" and a: "B a = Some (sz, False)"
    and A': "spec_coalesce a (B, F) = (B', F')"
  shows "\<exists>m f. coalesce (w32 a) s = Some (w32 a, s\<lparr>mem := m, free_lists := f\<rparr>) \<and>
    heap_inv (s\<lparr>mem := m, free_lists := f\<rparr>) B' (frees B') F' \<and>
    quiet (heap_lo s) (brk s) B (view (mem s)) (view m)"
proof (cases "\<exists>sz2. B (a + sz) = Some (sz2, False)")
  case False
  then have "B' = B" "F' = list_add a sz F"
    using A' a by (auto simp: spec_coalesce_def split: option.splits bool.splits)
  with coalesce_alone [OF inv a False] show ?thesis by blast
next
  case True
  then obtain sz2 where b: "B (a + sz) = Some (sz2, False)" by blast
  then have "B' = B(a \<mapsto> (sz + sz2, False), a + sz := None)" "F' = list_add a (sz + sz2) (list_remove (a + sz) sz2 F)"
    using A' a by (auto simp: spec_coalesce_def)
  with coalesce_merged [OF inv a b] show ?thesis by simp
qed

section \<open>mm_free\<close>

text \<open>Clearing the allocated flag of a block, and giving it a footer.\<close>

lemma free_write:
  assumes inv: "heap_inv s B (frees B) F" and a: "B a = Some (sz, True)"
    and m: "view m = (view (mem s))(a - 4 := hdr sz False True, a + sz - 8 := hdr sz False True)"
  defines "B' \<equiv> B(a \<mapsto> (sz, False))"
  shows "heap_inv (s\<lparr>mem := m\<rparr>) B' ((frees B')(a := None)) F" "quiet (heap_lo s) (brk s) B' (view (mem s)) (view m)"
proof -
  note T = heap_invD(2) [OF inv]
  note A = tiledD [OF T a]
  have T': "tiled (heap_lo s) (brk s) B'"
    unfolding B'_def by (rule tiled_flag [OF T a])
  have S: "(frees B')(a := None) = frees B"
    using frees_None(2) [of B a, OF a] by (auto simp: B'_def fun_eq_iff)
  show "heap_inv (s\<lparr>mem := m\<rparr>) B' ((frees B')(a := None)) F"
    unfolding S
  proof (rule heap_inv_retile [OF inv T', where l = a and u = "a + sz"])
    show "view m c = view (mem s) c" if "\<not> (a \<le> c + 4 \<and> c + 4 < a + sz)" for c
      using that A by (auto simp: m)
    show "block_hdr (view m) c szc alc \<or> B c = Some (szc, alc) \<and> (c + szc \<le> a \<or> a + sz \<le> c)"
      if c: "B' c = Some (szc, alc)" for c szc alc
      using c tiled_disjoint [OF T a, of c szc alc]
      by (cases "c = a") (auto simp: B'_def block_hdr_def m)
    show "view m c = view (mem s) c \<and> view m (c + 4) = view (mem s) (c + 4)"
      if "c \<in> dom (frees B)" for c
    proof -
      have "c \<noteq> a" using that a by (auto simp: dom_frees)
      from frees_dom_other [OF T a that this] show ?thesis by (simp add: m)
    qed
    show "epi_ok (view m) (brk s) B'"
    proof (rule epi_ok_transfer [OF heap_invD(4) [OF inv]])
      show "view m (brk s - 4) = view (mem s) (brk s - 4)"
        using A by (auto simp: m)
      fix p szp
      assume p: "B p = Some (szp, False)" "p + szp = brk s"
      with a have "B' p = Some (szp, False)" by (auto simp: B'_def)
      with p show "\<exists>p sz. B' p = Some (sz, False) \<and> p + sz = brk s" by blast
    qed
  qed
  have a': "B' a = Some (sz, False)" by (simp add: B'_def)
  show "quiet (heap_lo s) (brk s) B' (view (mem s)) (view m)"
    unfolding m using A
    by (intro quiet_trans [OF quiet_upd [OF T' a'] quiet_upd [OF T' a']]) auto
qed

theorem mm_free_sim:
  assumes inv: "heap_inv s B (frees B) F" and a: "B a = Some (sz, True)"
    and A': "spec_coalesce a (B(a \<mapsto> (sz, False)), F) = (B', F')"
  shows "\<exists>m f. mm_free (w32 a) s = Some (s\<lparr>mem := m, free_lists := f\<rparr>) \<and>
    heap_inv (s\<lparr>mem := m, free_lists := f\<rparr>) B' (frees B') F' \<and>
    quiet (heap_lo s) (brk s) (B(a \<mapsto> (sz, False))) (view (mem s)) (view m)"
proof -
  note T = heap_invD(2) [OF inv]
  define m1 where "m1 = PUTW (mem s) (w32 (a - 4)) (hdr sz False True)"
  define m2 where "m2 = PUTW m1 (w32 (a + sz - 8)) (hdr sz False True)"
  note cells = block_cells [OF T a]
  have m2: "view m2 = (view (mem s))(a - 4 := hdr sz False True, a + sz - 8 := hdr sz False True)"
    using cells by (simp add: m1_def m2_def view_PUTW)
  have has: "has_hdr (mem s) a sz True True" "has_hdr m1 a sz False True"
    using inv_has_hdr [OF inv a] by (auto simp: has_hdr_def m1_def view_PUTW)
  have "free_block (w32 a) (w32 sz) s = s\<lparr>mem := m2\<rparr>"
    using cells tiledD(5) [OF T a]
    by (simp add: free_block_def Let_def putw_def hdr_macros [OF has(1)] BLOCKHDR_w32 PACK_hdr
        m1_def [symmetric] hdr_macros [OF has(2)] m2_def [symmetric])
  then have "mm_free (w32 a) s = map_option snd (coalesce (w32 a) (s\<lparr>mem := m2\<rparr>))"
    by (simp add: mm_free_def hdr_macros [OF has(1)])
  moreover obtain m f where
    "coalesce (w32 a) (s\<lparr>mem := m2\<rparr>) = Some (w32 a, s\<lparr>mem := m2\<rparr>\<lparr>mem := m, free_lists := f\<rparr>)"
    "heap_inv (s\<lparr>mem := m2\<rparr>\<lparr>mem := m, free_lists := f\<rparr>) B' (frees B') F'"
    "quiet (heap_lo s) (brk s) (B(a \<mapsto> (sz, False))) (view m2) (view m)"
    using coalesce_sim [OF free_write(1) [OF inv a m2] _ A', of sz] by auto
  moreover from this(3) have "quiet (heap_lo s) (brk s) (B(a \<mapsto> (sz, False))) (view (mem s)) (view m)"
    by (rule quiet_trans [OF free_write(2) [OF inv a m2]])
  ultimately show ?thesis
    by auto
qed

section \<open>allocate\<close>

lemma hdr_or_PREVALLOC: "hdr sz al prev OR PREVALLOC = hdr sz al True"
  by (rule bit_word_eqI) (auto simp: hdr_def PACK_def bit_simps)

lemma tiled_inside:
  assumes T: "tiled lo hi B" and a: "B a = Some (sz, al)" and k: "0 < k" "k < sz"
  shows "B (a + k) = None"
proof (cases "B (a + k)")
  case (Some blk)
  with tiled_apart [OF T a, of "a + k"] k show ?thesis by (cases blk) auto
qed

text \<open>Splitting a free, unlisted block into an allocated and a free, unlisted one.\<close>

lemma split_blocks:
  assumes T: "tiled lo hi B" and a: "B a = Some (sz, False)" and k: "16 \<le> k" "k + 16 \<le> sz"
    and c: "(B(a \<mapsto> (k, True), a + k \<mapsto> (sz - k, False))) c = Some (szc, alc)"
  shows "block_hdr (H(a - 4 := hdr k True True, a + k - 8 := hdr k True True,
      a + k - 4 := hdr (sz - k) False True, a + sz - 8 := hdr (sz - k) False True)) c szc alc \<or>
    B c = Some (szc, alc) \<and> (c + szc \<le> a \<or> a + sz \<le> c)"
proof -
  consider "c = a + k" | "c = a" "c \<noteq> a + k" | "c \<noteq> a" "c \<noteq> a + k" by blast
  then show ?thesis
  proof cases
    case 1
    with c have "szc = sz - k" "alc = False" by auto
    with 1 show ?thesis using k by (simp add: block_hdr_def)
  next
    case 2
    with c have "szc = k" "alc = True" by auto
    moreover have "a - 4 \<noteq> a + k - 8" "a - 4 \<noteq> a + k - 4" "a - 4 \<noteq> a + sz - 8"
      using tiledD(5) [OF T a] k by linarith+
    ultimately show ?thesis using 2 by (simp only: block_hdr_def fun_upd_apply simp_thms if_False if_True)
  next
    case 3
    with c have "B c = Some (szc, alc)" by auto
    with 3 tiled_disjoint [OF T a this] show ?thesis by blast
  qed
qed

lemma split_write:
  assumes inv: "heap_inv s B ((frees B)(a := None)) F" and a: "B a = Some (sz, False)"
    and k: "8 dvd k" "16 \<le> k" "k + 16 \<le> sz"
    and m: "view m = (view (mem s))(a - 4 := hdr k True True, a + k - 8 := hdr k True True,
      a + k - 4 := hdr (sz - k) False True, a + sz - 8 := hdr (sz - k) False True)"
  defines "B' \<equiv> B(a \<mapsto> (k, True), a + k \<mapsto> (sz - k, False))"
  shows "heap_inv (s\<lparr>mem := m\<rparr>) B' ((frees B')(a + k := None)) F" "quiet (heap_lo s) (brk s) B (view (mem s)) (view m)"
proof -
  note T = heap_invD(2) [OF inv]
  note A = tiledD [OF T a]
  have other: "view m c = view (mem s) c" if "\<not> (a \<le> c + 4 \<and> c + 4 < a + sz)" for c
  proof -
    have "c \<noteq> a - 4" "c \<noteq> a + k - 8" "c \<noteq> a + k - 4" "c \<noteq> a + sz - 8"
      using that A(3,5) k(2,3) by linarith+
    then show ?thesis by (simp only: m fun_upd_apply if_False simp_thms)
  qed
  have T': "tiled (heap_lo s) (brk s) B'"
    unfolding B'_def by (rule tiled_split [OF T a k])
  have N: "B (a + k) = None" using k by (intro tiled_inside [OF T a]) auto
  then have S: "(frees B')(a + k := None) = (frees B)(a := None)"
    using k by (auto simp: B'_def fun_eq_iff frees_None)
  show "heap_inv (s\<lparr>mem := m\<rparr>) B' ((frees B')(a + k := None)) F"
    unfolding S
  proof (rule heap_inv_retile [OF inv T', where l = a and u = "a + sz"])
    show "block_hdr (view m) c szc alc \<or> B c = Some (szc, alc) \<and> (c + szc \<le> a \<or> a + sz \<le> c)"
      if "B' c = Some (szc, alc)" for c szc alc
      using split_blocks [OF T a k(2,3) that [unfolded B'_def]] unfolding m .
    show "view m c = view (mem s) c \<and> view m (c + 4) = view (mem s) (c + 4)"
      if "c \<in> dom ((frees B)(a := None))" for c
    proof -
      from that obtain szc where c: "B c = Some (szc, False)" "c \<noteq> a"
        by (auto simp: frees_Some split: if_splits)
      then show ?thesis
        using tiled_disjoint [OF T a c(1)] tiledD(3) [OF T c(1)] by (intro conjI other) linarith+
    qed
    show "epi_ok (view m) (brk s) B'"
    proof (rule epi_ok_transfer [OF heap_invD(4) [OF inv]])
      show "view m (brk s - 4) = view (mem s) (brk s - 4)"
        using A by (intro other) linarith
      show "\<exists>p sz. B' p = Some (sz, False) \<and> p + sz = brk s"
        if "B p = Some (szp, False)" "p + szp = brk s" for p szp
        using that a k N
        by (intro exI [of _ "if p = a then a + k else p"] exI [of _ "if p = a then sz - k else szp"])
          (auto simp: B'_def)
    qed
  qed (use other in blast)
  show "quiet (heap_lo s) (brk s) B (view (mem s)) (view m)"
    unfolding m using A k
    by (intro quiet_trans [OF quiet_upd [OF T a] quiet_trans [OF quiet_upd [OF T a]
          quiet_trans [OF quiet_upd [OF T a] quiet_upd [OF T a]]]]) auto
qed

text \<open>Taking a free, unlisted block whole; the successor learns that it is allocated.\<close>

lemma whole_other:
  assumes inv: "heap_inv s B S F" and a: "B a = Some (sz, False)"
    and m: "view m = (view (mem s))(a - 4 := hdr sz True True, a + sz - 8 := hdr sz True True,
      a + sz - 4 := view (mem s) (a + sz - 4) OR PREVALLOC)"
    and c: "\<not> (a \<le> c + 4 \<and> c + 4 < a + sz)" "c + 4 \<noteq> brk s"
  shows "view m c = view (mem s) c"
proof (cases "c + 4 = a + sz")
  case True
  then have c': "c = a + sz - 4" by linarith
  obtain sz2 al2 where "B (a + sz) = Some (sz2, al2)" using tiledD(8) [OF heap_invD(2) [OF inv] a] c(2) True by auto
  then have "view (mem s) (a + sz - 4) OR PREVALLOC = view (mem s) (a + sz - 4)"
    using heap_invD(3) [OF inv] by (auto simp: blocks_ok_def block_hdr_def hdr_or_PREVALLOC)
  then show ?thesis by (simp only: c' m fun_upd_same)
next
  case False
  have "c \<noteq> a - 4" "c \<noteq> a + sz - 8" "c \<noteq> a + sz - 4"
    using c(1) tiledD(3,5) [OF heap_invD(2) [OF inv] a] False by linarith+
  then show ?thesis by (simp only: m fun_upd_apply if_False simp_thms)
qed

lemma whole_epi:
  assumes inv: "heap_inv s B S F" and a: "B a = Some (sz, False)"
    and m: "view m = (view (mem s))(a - 4 := hdr sz True True, a + sz - 8 := hdr sz True True,
      a + sz - 4 := view (mem s) (a + sz - 4) OR PREVALLOC)"
  shows "epi_ok (view m) (brk s) (B(a \<mapsto> (sz, True)))"
proof (cases "a + sz = brk s")
  case True
  then have "view m (brk s - 4) = view (mem s) (brk s - 4) OR PREVALLOC" by (simp add: m)
  then show ?thesis
    using heap_invD(4) [OF inv] by (auto simp: epi_ok_def hdr_or_PREVALLOC)
next
  case False
  show ?thesis
  proof (rule epi_ok_transfer [OF heap_invD(4) [OF inv]])
    have "brk s - 4 \<noteq> a - 4" "brk s - 4 \<noteq> a + sz - 8" "brk s - 4 \<noteq> a + sz - 4"
      using tiledD(3,5,6) [OF heap_invD(2) [OF inv] a] False by linarith+
    then show "view m (brk s - 4) = view (mem s) (brk s - 4)"
      by (simp only: m fun_upd_apply if_False simp_thms)
    fix p szp
    assume p: "B p = Some (szp, False)" "p + szp = brk s"
    with False a have "(B(a \<mapsto> (sz, True))) p = Some (szp, False)" by auto
    with p show "\<exists>p k. (B(a \<mapsto> (sz, True))) p = Some (k, False) \<and> p + k = brk s" by blast
  qed
qed

lemma whole_write:
  assumes inv: "heap_inv s B ((frees B)(a := None)) F" and a: "B a = Some (sz, False)"
    and m: "view m = (view (mem s))(a - 4 := hdr sz True True, a + sz - 8 := hdr sz True True,
      a + sz - 4 := view (mem s) (a + sz - 4) OR PREVALLOC)"
  defines "B' \<equiv> B(a \<mapsto> (sz, True))"
  shows "heap_inv (s\<lparr>mem := m\<rparr>) B' (frees B') F" "quiet (heap_lo s) (brk s) B (view (mem s)) (view m)"
proof -
  note T = heap_invD(2) [OF inv] and other = whole_other [OF inv a m]
  note A = tiledD [OF T a]
  have T': "tiled (heap_lo s) (brk s) B'"
    unfolding B'_def by (rule tiled_flag [OF T a])
  have S: "frees B' = (frees B)(a := None)" by (simp add: B'_def)
  have "a - 4 \<noteq> a + sz - 8" "a - 4 \<noteq> a + sz - 4" using A(3,5) by linarith+
  then have head: "view m (a - 4) = hdr sz True True"
    by (simp only: m fun_upd_apply simp_thms if_False if_True)
  show "heap_inv (s\<lparr>mem := m\<rparr>) B' (frees B') F"
    unfolding S
  proof (rule heap_inv_retile [OF inv T', where l = a and u = "a + sz"])
    show "view m c = view (mem s) c" if "\<not> (a \<le> c + 4 \<and> c + 4 < a + sz)" "c + 4 < brk s" for c
      using other that by auto
    show "block_hdr (view m) c szc alc \<or> B c = Some (szc, alc) \<and> (c + szc \<le> a \<or> a + sz \<le> c)"
      if c: "B' c = Some (szc, alc)" for c szc alc
      using c tiled_disjoint [OF T a, of c szc alc] head
      by (cases "c = a") (auto simp: B'_def block_hdr_def)
    show "view m c = view (mem s) c \<and> view m (c + 4) = view (mem s) (c + 4)" if "c \<in> dom ((frees B)(a := None))" for c
    proof -
      from that obtain szc where c: "B c = Some (szc, False)" "c \<noteq> a"
        by (auto simp: frees_Some split: if_splits)
      then show ?thesis
        using tiled_disjoint [OF T a c(1)] tiledD(3,6) [OF T c(1)] by (intro conjI other) linarith+
    qed
    show "epi_ok (view m) (brk s) B'" unfolding B'_def by (rule whole_epi [OF inv a m])
  qed
  show "quiet (heap_lo s) (brk s) B (view (mem s)) (view m)"
  proof (rule quietI)
    fix b szb c
    assume b: "B b = Some (szb, True)" "b \<le> c" "c + 4 < b + szb"
    then have "a \<noteq> b" using a by auto
    then show "view m c = view (mem s) c"
      using tiled_disjoint [OF T a b(1)] b(2,3) tiledD(6) [OF T b(1)] by (intro other) linarith+
  next
    fix c
    assume "c + 4 < heap_lo s \<or> brk s \<le> c"
    then show "view m c = view (mem s) c" using A(3,4,6) by (intro other) linarith+
  qed
qed

text \<open>The two ways through \<^verbatim>\<open>allocate\<close>, from the unlinked block on.\<close>

lemma MIN_SIZE_fits:
  assumes "sz < 2 ^ 32" "n \<le> sz"
  shows "w32 (sz - n) \<ge> MIN_SIZE \<longleftrightarrow> n + 16 \<le> sz"
proof -
  have "w32 16 \<le> w32 (sz - n) \<longleftrightarrow> 16 \<le> sz - n"
    using assms(1) by (intro w32_le_iff) auto
  then show ?thesis
    using assms(2) by (auto simp: MIN_SIZE_def WSIZE_def)
qed

lemma allocate_split_run:
  assumes inv: "heap_inv s B S F" and a: "B a = Some (sz, False)" and n: "8 dvd n" "16 \<le> n" "n + 16 \<le> sz"
    and rem: "remove_from_list (w32 a) (lidx sz) s = s1"
  obtains m where "allocate (w32 a) (w32 n) s = map_option snd (coalesce (w32 (a + n)) (s1\<lparr>mem := m\<rparr>))"
    "view m = (view (mem s1))(a - 4 := hdr n True True, a + n - 8 := hdr n True True,
      a + n - 4 := hdr (sz - n) False True, a + sz - 8 := hdr (sz - n) False True)"
proof -
  note T = heap_invD(2) [OF inv]
  note A = tiledD [OF T a]
  define m2 where "m2 = PUTW (mem s1) (w32 (a - 4)) (hdr n True True)"
  define m3 where "m3 = PUTW m2 (w32 (a + n - 8)) (hdr n True True)"
  define m4 where "m4 = PUTW m3 (w32 (a + n - 4)) (hdr (sz - n) False True)"
  define m5 where "m5 = PUTW m4 (w32 (a + sz - 8)) (hdr (sz - n) False True)"
  have T2: "tiled (heap_lo s) (brk s) (B(a \<mapsto> (n, True), a + n \<mapsto> (sz - n, False)))"
    by (rule tiled_split [OF T a n])
  have cells: "wcell (a - 4)" "wcell (a + n - 8)" "wcell (a + n - 4)" "wcell (a + sz - 8)"
    using block_cells [OF T2, of a n True] block_cells [OF T2, of "a + n" "sz - n" False] n by auto
  have m5: "view m5 = (view (mem s1))(a - 4 := hdr n True True, a + n - 8 := hdr n True True,
      a + n - 4 := hdr (sz - n) False True, a + sz - 8 := hdr (sz - n) False True)"
    unfolding m5_def m4_def m3_def m2_def by (simp only: view_PUTW cells)
  have ne: "a - 4 \<noteq> a + n - 8" using A(5) n(2) by linarith
  have has: "has_hdr m2 a n True True" "has_hdr m3 a n True True" "has_hdr m4 (a + n) (sz - n) False True"
    using n A(2,5) ne unfolding has_hdr_def m4_def m3_def m2_def
    by (simp_all add: view_PUTW cells dvd_diff_nat)
  have "allocate (w32 a) (w32 n) s = map_option snd (coalesce (w32 (a + n)) (s1\<lparr>mem := m5\<rparr>))"
    using A(5,7) n
    by (simp add: allocate_def Let_def hdr_macros [OF inv_has_hdr [OF inv a]] rem MIN_SIZE_fits putw_def BLOCKHDR_w32 PACK_hdr
        m2_def [symmetric] hdr_macros [OF has(1)] m3_def [symmetric] hdr_macros [OF has(2)]
        w32_diff m4_def [symmetric] hdr_macros [OF has(3)] m5_def [symmetric])
  with m5 that show ?thesis by blast
qed

lemma allocate_whole_run:
  assumes inv: "heap_inv s B S F" and a: "B a = Some (sz, False)" and n: "n \<le> sz" "\<not> n + 16 \<le> sz"
    and rem: "remove_from_list (w32 a) (lidx sz) s = s1"
  obtains m where "allocate (w32 a) (w32 n) s = Some (s1\<lparr>mem := m\<rparr>)"
    "view m = (view (mem s1))(a - 4 := hdr sz True True, a + sz - 8 := hdr sz True True,
      a + sz - 4 := view (mem s1) (a + sz - 4) OR PREVALLOC)"
proof -
  note T = heap_invD(2) [OF inv]
  note A = tiledD [OF T a] and cells = block_cells [OF T a]
  define m2 where "m2 = PUTW (mem s1) (w32 (a - 4)) (hdr sz True True)"
  define m3 where "m3 = PUTW m2 (w32 (a + sz - 8)) (hdr sz True True)"
  define m4 where "m4 = PUTW m3 (w32 (a + sz - 4)) (view (mem s1) (a + sz - 4) OR PREVALLOC)"
  have ne: "a - 4 \<noteq> a + sz - 8" "a + sz - 4 \<noteq> a - 4" "a + sz - 4 \<noteq> a + sz - 8"
    using A(3,5) by linarith+
  have m4: "view m4 = (view (mem s1))(a - 4 := hdr sz True True, a + sz - 8 := hdr sz True True,
      a + sz - 4 := view (mem s1) (a + sz - 4) OR PREVALLOC)"
    unfolding m4_def m3_def m2_def by (simp only: view_PUTW cells)
  have nxt: "GETW m3 (w32 (a + sz - 4)) = view (mem s1) (a + sz - 4)"
    unfolding m3_def m2_def using cells ne by (simp add: GETW_view view_PUTW)
  have has: "has_hdr m2 a sz True True" "has_hdr m3 a sz True True"
    using A(2,5) ne unfolding has_hdr_def m3_def m2_def by (simp_all add: view_PUTW cells)
  have "allocate (w32 a) (w32 n) s = Some (s1\<lparr>mem := m4\<rparr>)"
    using A(3,5,7) n
    by (simp add: allocate_def Let_def hdr_macros [OF inv_has_hdr [OF inv a]] rem w32_diff MIN_SIZE_fits putw_def BLOCKHDR_w32
        PACK_hdr m2_def [symmetric] hdr_macros [OF has(1)] m3_def [symmetric] hdr_macros [OF has(2)]
        nxt m4_def [symmetric])
  with m4 that show ?thesis by blast
qed

lemma allocate_split_sim:
  assumes inv: "heap_inv s B (frees B) F" and a: "B a = Some (sz, False)"
    and n: "8 dvd n" "16 \<le> n" "n + 16 \<le> sz"
    and rem: "remove_from_list (w32 a) (lidx sz) s = s\<lparr>mem := m1, free_lists := f1\<rparr>" (is "_ = ?s1")
    and inv1: "heap_inv (s\<lparr>mem := m1, free_lists := f1\<rparr>) B ((frees B)(a := None)) (list_remove a sz F)"
    and A': "spec_coalesce (a + n) (B(a \<mapsto> (n, True), a + n \<mapsto> (sz - n, False)), list_remove a sz F) = (B', F')"
  shows "\<exists>m f. allocate (w32 a) (w32 n) s = Some (s\<lparr>mem := m, free_lists := f\<rparr>) \<and>
    heap_inv (s\<lparr>mem := m, free_lists := f\<rparr>) B' (frees B') F' \<and>
    quiet (heap_lo s) (brk s) B (view m1) (view m) \<and> view m a = view m1 a \<and> view m (a + 4) = view m1 (a + 4)"
proof -
  let ?B = "B(a \<mapsto> (n, True), a + n \<mapsto> (sz - n, False))"
  note T = heap_invD(2) [OF inv]
  note A = tiledD [OF T a]
  obtain m5 where run: "allocate (w32 a) (w32 n) s = map_option snd (coalesce (w32 (a + n)) (?s1\<lparr>mem := m5\<rparr>))"
    and m5: "view m5 = (view (mem ?s1))(a - 4 := hdr n True True, a + n - 8 := hdr n True True,
      a + n - 4 := hdr (sz - n) False True, a + sz - 8 := hdr (sz - n) False True)"
    by (rule allocate_split_run [OF inv a n rem])
  note W = split_write [OF inv1 a n m5]
  from coalesce_sim [OF W(1) _ A', of "sz - n"] obtain m f where
    co: "coalesce (w32 (a + n)) (?s1\<lparr>mem := m5\<rparr>) = Some (w32 (a + n), ?s1\<lparr>mem := m5\<rparr>\<lparr>mem := m, free_lists := f\<rparr>)"
    and invf: "heap_inv (?s1\<lparr>mem := m5\<rparr>\<lparr>mem := m, free_lists := f\<rparr>) B' (frees B') F'"
    and q: "quiet (heap_lo s) (brk s) ?B (view m5) (view m)"
    by auto
  have "B (a + n) = None" using n by (intro tiled_inside [OF T a]) auto
  then have "quiet (heap_lo s) (brk s) B (view m5) (view m)"
    by (intro quiet_mono [OF q]) (use a in auto)
  then have "quiet (heap_lo s) (brk s) B (view m1) (view m)"
    using quiet_trans [of _ _ _ "view m1" "view m5"] W(2) by simp
  moreover have "view m c = view m1 c" if "c = a \<or> c = a + 4" for c
  proof -
    have "c \<noteq> a - 4" "c \<noteq> a + n - 8" "c \<noteq> a + n - 4" "c \<noteq> a + sz - 8"
      using that A(5) n by linarith+
    then have "view m5 c = view (mem ?s1) c" by (simp only: m5 fun_upd_apply if_False simp_thms)
    moreover have "view m c = view m5 c" by (rule quietD [OF q, of a n]) (use that n in auto)
    ultimately show ?thesis by simp
  qed
  ultimately show ?thesis using run co invf
    by (intro exI [of _ m] exI [of _ f]) auto
qed

lemma allocate_whole_sim:
  assumes inv: "heap_inv s B (frees B) F" and a: "B a = Some (sz, False)" and n: "n \<le> sz" "\<not> n + 16 \<le> sz"
    and rem: "remove_from_list (w32 a) (lidx sz) s = s\<lparr>mem := m1, free_lists := f1\<rparr>" (is "_ = ?s1")
    and inv1: "heap_inv (s\<lparr>mem := m1, free_lists := f1\<rparr>) B ((frees B)(a := None)) (list_remove a sz F)"
  shows "\<exists>m f. allocate (w32 a) (w32 n) s = Some (s\<lparr>mem := m, free_lists := f\<rparr>) \<and>
    heap_inv (s\<lparr>mem := m, free_lists := f\<rparr>) (B(a \<mapsto> (sz, True))) (frees (B(a \<mapsto> (sz, True)))) (list_remove a sz F) \<and>
    quiet (heap_lo s) (brk s) B (view m1) (view m) \<and> view m a = view m1 a \<and> view m (a + 4) = view m1 (a + 4)"
proof -
  note A = tiledD [OF heap_invD(2) [OF inv] a]
  obtain m4 where run: "allocate (w32 a) (w32 n) s = Some (?s1\<lparr>mem := m4\<rparr>)"
    and m4: "view m4 = (view (mem ?s1))(a - 4 := hdr sz True True, a + sz - 8 := hdr sz True True,
      a + sz - 4 := view (mem ?s1) (a + sz - 4) OR PREVALLOC)"
    by (rule allocate_whole_run [OF inv a n rem])
  note W = whole_write [OF inv1 a m4]
  have "view m4 c = view m1 c" if "c = a \<or> c = a + 4" for c
  proof -
    have "c \<noteq> a - 4" "c \<noteq> a + sz - 8" "c \<noteq> a + sz - 4"
      using that A(3,5) by linarith+
    then show ?thesis by (simp add: m4)
  qed
  with run W show ?thesis by (intro exI [of _ m4] exI [of _ f1]) auto
qed

theorem allocate_sim:
  assumes inv: "heap_inv s B (frees B) F" and a: "B a = Some (sz, False)"
    and n: "8 dvd n" "16 \<le> n" "n \<le> sz"
    and A': "spec_allocate a n (B, F) = (B', F')"
  shows "\<exists>m f. allocate (w32 a) (w32 n) s = Some (s\<lparr>mem := m, free_lists := f\<rparr>) \<and>
    heap_inv (s\<lparr>mem := m, free_lists := f\<rparr>) B' (frees B') F' \<and>
    quiet (heap_lo s) (brk s) B (view (mem s)) (view m) \<and>
    view m a = view (mem s) a \<and> view m (a + 4) = view (mem s) (a + 4)"
proof -
  have S: "frees B \<subseteq>\<^sub>m frees B" "frees B a = Some sz"
    using a by (simp_all add: frees_Some)
  obtain m1 f1 where rem: "remove_from_list (w32 a) (lidx sz) s = s\<lparr>mem := m1, free_lists := f1\<rparr>"
    and inv1: "heap_inv (s\<lparr>mem := m1, free_lists := f1\<rparr>) B ((frees B)(a := None)) (list_remove a sz F)"
    and off1: "off_links (dom (frees B)) (view (mem s)) (view m1)"
    and own1: "view m1 a = view (mem s) a" "view m1 (a + 4) = view (mem s) (a + 4)"
    using remove_from_list_inv [OF inv S] by blast
  have "\<exists>m f. allocate (w32 a) (w32 n) s = Some (s\<lparr>mem := m, free_lists := f\<rparr>) \<and>
    heap_inv (s\<lparr>mem := m, free_lists := f\<rparr>) B' (frees B') F' \<and>
    quiet (heap_lo s) (brk s) B (view m1) (view m) \<and> view m a = view m1 a \<and> view m (a + 4) = view m1 (a + 4)"
  proof (cases "n + 16 \<le> sz")
    case True
    with A' a have "spec_coalesce (a + n) (B(a \<mapsto> (n, True), a + n \<mapsto> (sz - n, False)), list_remove a sz F) = (B', F')"
      by (simp add: spec_allocate_def)
    then show ?thesis by (rule allocate_split_sim [OF inv a n(1,2) True rem inv1])
  next
    case False
    then have "B' = B(a \<mapsto> (sz, True))" "F' = list_remove a sz F"
      using A' a by (simp_all add: spec_allocate_def)
    with allocate_whole_sim [OF inv a n(3) False rem inv1] show ?thesis by simp
  qed
  with own1 quiet_trans [OF off_links_quiet [OF heap_invD(2) [OF inv] off1]] show ?thesis by fastforce
qed

end
