(* ===== verification/Mm_Correct.thy ===== *)
theory Mm_Correct
  imports Mm_Simulation
begin

text \<open>
  The remaining internal routines of src/mm.c on well-formed states: the search
  \<open>find_fit\<close> simulates the abstract one, and \<open>extend_heap\<close> appends a block to the tiling,
  merged with the last block when that is free.
\<close>

section \<open>find_fit\<close>

lemma lists_head:
  assumes inv: "heap_inv s B (frees B) F" and i: "i < 17"
  shows "F ! i = [] \<Longrightarrow> free_lists s ! i = NULL"
    and "F ! i = a # as \<Longrightarrow> free_lists s ! i = w32 a \<and> w32 a \<noteq> NULL \<and>
      (\<exists>sz. B a = Some (sz, False) \<and> lidx sz = i)"
proof -
  note L = lists_okD [OF heap_invD(5) [OF inv]]
  show "free_lists s ! i = NULL" if "F ! i = []"
    using L(3) [OF i] that by (simp add: NULL_def)
  show "free_lists s ! i = w32 a \<and> w32 a \<noteq> NULL \<and> (\<exists>sz. B a = Some (sz, False) \<and> lidx sz = i)"
    if "F ! i = a # as"
    using L(3) [OF i] L(6) [OF i, of a] L(7) [of a] that by (auto simp: frees_Some node_NULL)
qed

lemma find_fit_loop_sim:
  assumes inv: "heap_inv s B (frees B) F" and n: "n < 2 ^ 32"
  shows "i \<le> FREELIST_COUNT \<Longrightarrow> find_fit_loop (w32 n) i s =
    map_option (\<lambda>i. (w32 (hd (F ! i)), i)) (List.find (spec_fits n (B, F)) [i..<FREELIST_COUNT])"
proof (induction "FREELIST_COUNT - i" arbitrary: i)
  case 0
  then show ?case by (subst find_fit_loop.simps) simp
next
  case (Suc k)
  then have i: "i < FREELIST_COUNT" "i < 17" by (simp_all add: FREELIST_COUNT_def)
  have IH: "find_fit_loop (w32 n) (i + 1) s =
      map_option (\<lambda>i. (w32 (hd (F ! i)), i)) (List.find (spec_fits n (B, F)) [i + 1..<FREELIST_COUNT])"
    using Suc by simp
  have fits: "(free_lists s ! i \<noteq> NULL \<and> GET_THISSIZE (mem s) (free_lists s ! i) \<ge> w32 n) \<longleftrightarrow>
      spec_fits n (B, F) i"
  proof (cases "F ! i")
    case Nil
    with lists_head(1) [OF inv i(2)] show ?thesis by (simp add: spec_fits_def)
  next
    case (Cons a as)
    from lists_head(2) [OF inv i(2) Cons] obtain sz where
      a: "free_lists s ! i = w32 a" "w32 a \<noteq> NULL" "B a = Some (sz, False)" by blast
    have "sz < 2 ^ 32" using tiledD(7) [OF heap_invD(2) [OF inv] a(3)] by simp
    with a Cons n show ?thesis
      by (simp add: spec_fits_def THISSIZE_w32 [OF inv_has_hdr [OF inv a(3)]] word_nat)
  qed
  have hd: "free_lists s ! i = w32 (hd (F ! i))" if "spec_fits n (B, F) i"
    using that lists_head(2) [OF inv i(2)] by (cases "F ! i") (auto simp: spec_fits_def)
  have upt: "[i..<FREELIST_COUNT] = i # [i + 1..<FREELIST_COUNT]"
    using i(1) by (simp add: upt_conv_Cons)
  show ?case
    using fits hd i(1) IH by (simp add: find_fit_loop.simps [of _ i] Let_def upt)
qed

theorem find_fit_sim:
  assumes inv: "heap_inv s B (frees B) F" and n: "n < 2 ^ 32"
  shows "find_fit (w32 n) s = map_option (map_prod w32 id) (spec_find_fit n (B, F))"
  using find_fit_loop_sim [OF assms, of "lidx n"]
  by (simp add: find_fit_def spec_find_fit_def option.map_comp comp_def FREELIST_COUNT_def less_imp_le)

text \<open>A found block is free, large enough, and the head of the list of its size class.\<close>

lemma spec_find_fit_Some:
  assumes inv: "heap_inv s B (frees B) F" and fit: "spec_find_fit n (B, F) = Some (a, i)"
  obtains sz ys where "B a = Some (sz, False)" "n \<le> sz" "i = lidx sz" "F ! i = a # ys"
proof -
  from fit have i: "spec_fits n (B, F) i" "i < 17" "a = hd (F ! i)"
    by (auto simp: spec_find_fit_def find_Some_iff FREELIST_COUNT_def
        dest!: find_Some_iff [THEN iffD1] simp del: upt_Suc)
  then obtain ys where F: "F ! i = a # ys"
    by (cases "F ! i") (auto simp: spec_fits_def)
  with lists_head(2) [OF inv i(2) this] i(1) that show ?thesis
    by (auto simp: spec_fits_def)
qed

section \<open>extend_heap\<close>

text \<open>The state after \<^verbatim>\<open>mem_sbrk\<close> moved the break up by \<open>n\<close> bytes and \<^verbatim>\<open>heap_end\<close> followed.\<close>

abbreviation grown :: "nat \<Rightarrow> memory \<Rightarrow> addr list \<Rightarrow> mm_state \<Rightarrow> mm_state" where
  "grown n m f s \<equiv> s\<lparr>mem := m, free_lists := f, mem_brk := w32 (brk s + n), heap_end := w32 (brk s + n) - 1\<rparr>"

lemma grown_order [simp]:
  "s\<lparr>mem_brk := b, mem := m\<rparr> = s\<lparr>mem := m, mem_brk := b\<rparr>"
  "s\<lparr>mem_brk := b, free_lists := f\<rparr> = s\<lparr>free_lists := f, mem_brk := b\<rparr>"
  "s\<lparr>heap_end := e, mem := m\<rparr> = s\<lparr>mem := m, heap_end := e\<rparr>"
  "s\<lparr>heap_end := e, free_lists := f\<rparr> = s\<lparr>free_lists := f, heap_end := e\<rparr>"
  "s\<lparr>heap_end := e, mem_brk := b\<rparr> = s\<lparr>mem_brk := b, heap_end := e\<rparr>"
  for s :: mm_state
  by simp_all

lemma grown_vars [simp]:
  "brk (s\<lparr>mem_brk := b\<rparr>) = unat b" "brk (s\<lparr>heap_end := e\<rparr>) = brk s"
  "heap_lo (s\<lparr>mem_brk := b\<rparr>) = heap_lo s" "heap_lo (s\<lparr>heap_end := e\<rparr>) = heap_lo s"
  by (simp_all add: brk_def heap_lo_def)

lemma vars_grown:
  assumes "vars_ok s" "8 dvd n" "brk s + n \<le> unat (mem_max_addr s)"
  shows "vars_ok (grown n m f s)" "brk (grown n m f s) = brk s + n" "heap_lo (grown n m f s) = heap_lo s"
    "brk s + n < 2 ^ 32"
proof -
  show lt: "brk s + n < 2 ^ 32"
    using assms(1,3) unat_lt2p_32 [of "mem_max_addr s"] by simp
  with assms show "vars_ok (grown n m f s)" "brk (grown n m f s) = brk s + n"
    "heap_lo (grown n m f s) = heap_lo s"
    by (auto simp: vars_ok_def memlib_inv_def brk_def heap_lo_def unat_w32)
qed

text \<open>
  What the writes above the old blocks leave alone: the blocks themselves, the lists, and
  what the lists' links leave alone in turn.
\<close>

lemma above_None:
  assumes T: "tiled lo hi B" and k: "hi \<le> k"
  shows "B k = None"
proof (cases "B k")
  case (Some blk)
  with tiledD(3,6) [OF T, of k] k show ?thesis by (cases blk) force
qed

lemma fresh_other:
  assumes "view m = H(hi - 4 := x, hi + n - 8 := y, hi + n - 4 := z)" "16 \<le> n" "16 \<le> hi"
    and "c + 4 < hi \<or> hi + n \<le> c"
  shows "view m c = H c"
proof -
  have "c \<noteq> hi - 4" "c \<noteq> hi + n - 8" "c \<noteq> hi + n - 4" using assms(2-4) by linarith+
  then show ?thesis by (simp only: assms(1) fun_upd_apply if_False simp_thms)
qed

lemma lists_ok_below:
  assumes T: "tiled lo hi B" and L: "lists_ok H heads (frees B) F" and same: "\<And>c. c + 4 < hi \<Longrightarrow> H' c = H c"
  shows "lists_ok H' heads (frees B) F"
proof (rule lists_ok_cong [OF L])
  fix a sz
  assume "frees B a = Some sz"
  then have "B a = Some (sz, False)" by (simp add: frees_Some)
  from tiledD(3,6) [OF T this] show "H' a = H a \<and> H' (a + 4) = H (a + 4)"
    by (intro conjI same) linarith+
qed

lemma off_links_above:
  assumes T: "tiled lo hi B" and off: "off_links (dom (frees B)) H H'" and c: "hi \<le> c + 4"
  shows "H' c = H c"
proof (rule off_linksD [OF off])
  fix a
  assume "a \<in> dom (frees B)"
  then obtain sz where "B a = Some (sz, False)" by (auto simp: dom_frees)
  from tiledD(3,6) [OF T this] c show "c \<noteq> a \<and> c \<noteq> a + 4" by linarith
qed

lemma heap_inv_brk:
  assumes "heap_inv s B S F"
  shows "8 dvd brk s" "32 \<le> brk s"
proof -
  show "8 dvd brk s" using heap_invD(1) [OF assms] by (simp add: vars_ok_def)
  show "32 \<le> brk s" using tiled_hi [OF heap_invD(2) [OF assms]] heap_invD(2) [OF assms] by (simp add: tiled_def)
qed

text \<open>The fresh block behind an allocated last block.\<close>

lemma extend_write:
  assumes inv: "heap_inv s B (frees B) F" and n: "8 dvd n" "16 \<le> n" "brk s + n \<le> unat (mem_max_addr s)"
    and m: "view m = (view (mem s))(brk s - 4 := hdr n False True, brk s + n - 8 := hdr n False True,
      brk s + n - 4 := hdr EPILOGUE True False)"
  defines "B' \<equiv> B(brk s \<mapsto> (n, False))"
  shows "heap_inv (grown n m (free_lists s) s) B' ((frees B')(brk s := None)) F"
    "quiet (heap_lo s) (brk s + n) B (view (mem s)) (view m)"
proof -
  let ?H = "view (mem s)"
  note T = heap_invD(2) [OF inv] and V = vars_grown [OF heap_invD(1) [OF inv] n(1,3)] and lo = heap_inv_brk [OF inv]
  have other: "view m c = ?H c" if "c + 4 < brk s \<or> brk s + n \<le> c" for c
    by (rule fresh_other [OF m n(2) _ that]) (use lo in simp)
  have T': "tiled (heap_lo s) (brk s + n) B'"
    unfolding B'_def by (rule tiled_extend [OF T lo(1) n(1,2) V(4)])
  have S: "(frees B')(brk s := None) = frees B"
    using above_None [OF T, of "brk s"] by (auto simp: B'_def fun_eq_iff frees_None)
  have ne: "brk s - 4 \<noteq> brk s + n - 8" "brk s - 4 \<noteq> brk s + n - 4" "brk s + n - 8 \<noteq> brk s + n - 4"
    using n(2) lo by linarith+
  have new: "block_hdr (view m) (brk s) n False" "view m (brk s + n - 4) = hdr EPILOGUE True False"
    using ne by (simp_all only: m fun_upd_apply if_False if_True simp_thms block_hdr_def)
  have "block_hdr (view m) a sz al" if a: "B' a = Some (sz, al)" for a sz al
  proof (cases "a = brk s")
    case True
    with a new(1) show ?thesis by (simp add: B'_def)
  next
    case False
    with a have a': "B a = Some (sz, al)" by (simp add: B'_def)
    have "view m c = ?H c" if "a \<le> c + 4" "c + 4 < a + sz" for c
      using other [of c] tiledD(6) [OF T a'] that by linarith
    with heap_invD(3) [OF inv] a' tiledD(3,5) [OF T a'] show ?thesis
      using block_hdr_frame [of a sz "view m" ?H al] by (simp add: blocks_ok_def)
  qed
  moreover have "lists_ok (view m) (free_lists s) (frees B) F"
    by (rule lists_ok_below [OF T heap_invD(5) [OF inv]]) (use other in blast)
  moreover have "epi_ok (view m) (brk s + n) B'"
    using new(2) by (auto simp: epi_ok_def B'_def)
  ultimately show "heap_inv (grown n m (free_lists s) s) B' ((frees B')(brk s := None)) F"
    unfolding S using V(1) [where m = m and f = "free_lists s"] T'
    by (simp only: heap_inv_def V) (simp add: blocks_ok_def)
  show "quiet (heap_lo s) (brk s + n) B ?H (view m)"
  proof (rule quietI)
    fix a sz c
    assume "B a = Some (sz, True)" "a \<le> c" "c + 4 < a + sz"
    with tiledD(6) [OF T this(1)] show "view m c = ?H c" by (intro other) linarith
  next
    fix c
    assume "c + 4 < heap_lo s \<or> brk s + n \<le> c"
    with tiled_hi [OF T] show "view m c = ?H c" by (intro other) linarith
  qed
qed

text \<open>The fresh block joins a free last block \<open>p\<close>, which was unlinked in between.\<close>

lemma tiled_extend_last:
  assumes T: "tiled lo hi B" and n: "8 dvd hi" "8 dvd n" "16 \<le> n" "hi + n < 2 ^ 32"
    and p: "B p = Some (psz, False)" "p + psz = hi"
  shows "tiled lo (hi + n) (B(p \<mapsto> (n + psz, False)))"
proof -
  note P = tiledD [OF T p(1)]
  have "tiled lo (hi + n) (B(hi \<mapsto> (n, False), p \<mapsto> (psz + n, False), p + psz := None))"
    by (rule tiled_merge [OF tiled_extend [OF T n]]) (use p P in auto)
  moreover have "B(hi \<mapsto> (n, False), p \<mapsto> (psz + n, False), p + psz := None) = B(p \<mapsto> (n + psz, False))"
    using p P above_None [OF T, of hi] by (auto simp: fun_eq_iff)
  ultimately show ?thesis by simp
qed

text \<open>Where the memory differs after the writes: above the old blocks, at the links, and in the header of \<open>p\<close>.\<close>

lemma extend_merge_other:
  assumes T: "tiled lo hi B" and n: "16 \<le> n" "16 \<le> hi" and p: "B p = Some (psz, False)" "p + psz = hi"
    and m0: "view m0 = H(hi - 4 := x, hi + n - 8 := y, hi + n - 4 := z)"
    and m: "view m = (view m1)(hi + n - 8 := h, p - 4 := h)"
    and c: "c + 4 < hi \<or> hi + n \<le> c" "c \<noteq> p - 4"
  shows "view m0 c = H c \<and> view m c = view m1 c"
proof -
  have "c \<noteq> hi + n - 8" using c(1) n by linarith
  with c(2) have "view m c = view m1 c" by (simp only: m fun_upd_apply if_False simp_thms)
  with fresh_other [OF m0 n c(1)] show ?thesis ..
qed

lemma extend_merge_blocks:
  assumes inv: "heap_inv s B (frees B) F" and n: "16 \<le> n" and p: "B p = Some (psz, False)" "p + psz = brk s"
    and m0: "view m0 = (view (mem s))(brk s - 4 := x, brk s + n - 8 := y, brk s + n - 4 := z)"
    and m1: "off_links (dom (frees B)) (view m0) (view m1)"
    and m: "view m = (view m1)(brk s + n - 8 := hdr (n + psz) False True, p - 4 := hdr (n + psz) False True)"
    and a: "(B(p \<mapsto> (n + psz, False))) a = Some (sz, al)"
  shows "block_hdr (view m) a sz al"
proof -
  note T = heap_invD(2) [OF inv]
  note P = tiledD [OF T p(1)]
  show ?thesis
  proof (cases "a = p")
    case True
    then have "a + sz - 8 = brk s + n - 8" "sz = n + psz" "al = False" using a p by auto
    moreover have "brk s + n - 8 \<noteq> p - 4" using P n p by linarith
    ultimately show ?thesis using True by (simp add: block_hdr_def m)
  next
    case False
    with a have a': "B a = Some (sz, al)" by simp
    note A = tiledD [OF T a']
    have span: "view m0 c = view (mem s) c \<and> view m c = view m1 c" if "a \<le> c + 4" "c + 4 < a + sz" for c
      by (rule extend_merge_other [OF T n _ p m0 m])
        (use tiled_disjoint [OF T a' p(1) False] that P(3,5) A(6) heap_inv_brk(2) [OF inv] in linarith)+
    have "block_hdr (view m) a sz al \<longleftrightarrow> block_hdr (view m1) a sz al"
      using span A by (intro block_hdr_frame) auto
    also have "\<dots> \<longleftrightarrow> block_hdr (view m0) a sz al"
      by (rule off_links_block_hdr [OF T m1 a'])
    also have "\<dots> \<longleftrightarrow> block_hdr (view (mem s)) a sz al"
      using span A by (intro block_hdr_frame) auto
    finally show ?thesis using heap_invD(3) [OF inv] a' by (simp add: blocks_ok_def)
  qed
qed

lemma extend_merge_write:
  assumes inv: "heap_inv s B (frees B) F" and n: "8 dvd n" "16 \<le> n" "brk s + n \<le> unat (mem_max_addr s)"
    and p: "B p = Some (psz, False)" "p + psz = brk s"
    and m0: "view m0 = (view (mem s))(brk s - 4 := x, brk s + n - 8 := y,
      brk s + n - 4 := hdr EPILOGUE True False)"
    and m1: "off_links (dom (frees B)) (view m0) (view m1)" "lists_ok (view m1) f ((frees B)(p := None)) F1"
    and m: "view m = (view m1)(brk s + n - 8 := hdr (n + psz) False True, p - 4 := hdr (n + psz) False True)"
  defines "B' \<equiv> B(p \<mapsto> (n + psz, False))"
  shows "heap_inv (grown n m f s) B' ((frees B')(p := None)) F1" "quiet (heap_lo s) (brk s + n) B (view (mem s)) (view m)"
proof -
  note T = heap_invD(2) [OF inv] and V = vars_grown [OF heap_invD(1) [OF inv] n(1,3)] and lo = heap_inv_brk [OF inv]
  note P = tiledD [OF T p(1)]
  have other: "view m0 c = view (mem s) c \<and> view m c = view m1 c"
    if "c + 4 < brk s \<or> brk s + n \<le> c" "c \<noteq> p - 4" for c
    by (rule extend_merge_other [OF T n(2) _ p m0 m that]) (use lo(2) in simp)
  have T': "tiled (heap_lo s) (brk s + n) B'"
    unfolding B'_def by (rule tiled_extend_last [OF T lo(1) n(1,2) V(4) p])
  have "blocks_ok (view m) B'"
    unfolding blocks_ok_def B'_def using extend_merge_blocks [OF inv n(2) p m0 m1(1) m] by blast
  moreover have "lists_ok (view m) f ((frees B)(p := None)) F1"
  proof (rule lists_ok_cong [OF m1(2)])
    fix a sz
    assume "((frees B)(p := None)) a = Some sz"
    then have a: "B a = Some (sz, False)" "a \<noteq> p" by (auto simp: frees_Some split: if_splits)
    have "a \<noteq> p - 4" "a + 4 \<noteq> p - 4" "a + 4 < brk s" "a + 4 + 4 < brk s"
      using tiled_disjoint [OF T a(1) p(1) a(2)] tiledD(3,6) [OF T a(1)] P(3,5) by linarith+
    then show "view m a = view m1 a \<and> view m (a + 4) = view m1 (a + 4)"
      using other by blast
  qed
  moreover have "view m (brk s + n - 4) = hdr EPILOGUE True False"
  proof -
    have "view m1 (brk s + n - 4) = view m0 (brk s + n - 4)"
      using n(2) by (intro off_links_above [OF T m1(1)]) linarith
    moreover have "brk s + n - 4 \<noteq> brk s + n - 8" "brk s + n - 4 \<noteq> p - 4" using P n(2) by linarith+
    ultimately show ?thesis by (simp add: m m0)
  qed
  then have "epi_ok (view m) (brk s + n) B'" using p(2) by (auto simp: epi_ok_def B'_def)
  ultimately show "heap_inv (grown n m f s) B' ((frees B')(p := None)) F1"
    using V(1) [where m = m and f = f] T' by (simp only: heap_inv_def V) (simp add: B'_def)
  show "quiet (heap_lo s) (brk s + n) B (view (mem s)) (view m)"
  proof (rule quietI)
    fix a sz c
    assume a: "B a = Some (sz, True)" "a \<le> c" "c + 4 < a + sz"
    have "a \<noteq> p" using a(1) p(1) by auto
    then have "c \<noteq> p - 4" "c + 4 < brk s"
      using tiled_disjoint [OF T a(1) p(1)] a(2,3) tiledD(6) [OF T a(1)] P(3,5) by linarith+
    then show "view m c = view (mem s) c"
      using other quietD [OF off_links_quiet [OF T m1(1)] a] by simp
  next
    fix c
    assume c: "c + 4 < heap_lo s \<or> brk s + n \<le> c"
    then have "c + 4 < brk s \<or> brk s + n \<le> c" "c \<noteq> p - 4"
      using tiled_hi [OF T] n(2) P(3-6) by linarith+
    moreover have "view m1 c = view m0 c"
      using quiet_outside [OF off_links_quiet [OF T m1(1)], of c] c by linarith
    ultimately show "view m c = view (mem s) c" using other by simp
  qed
qed

lemma brk_w32: "mem_brk s = w32 (brk s)"
  by (simp add: brk_def)

lemma extend_sbrk:
  assumes V: "vars_ok s" and n: "brk s + n < 2 ^ 32"
  shows "mem_sbrk (w32 n) s =
    (if brk s + n \<le> unat (mem_max_addr s)
     then (w32 (brk s), s\<lparr>mem_brk := w32 (brk s + n)\<rparr>) else (- 1, s))"
proof -
  have inv: "memlib_inv s" using V by (simp add: vars_ok_def)
  have un: "unat (w32 n) = n" using n by (simp add: unat_w32)
  have "brk s + n \<le> unat (mem_max_addr s) \<Longrightarrow> n < 2 ^ 31"
    using inv by (auto simp: memlib_inv_def brk_def)
  moreover have "mem_brk s + w32 n = w32 (brk s + n)" by (simp add: brk_w32 w32_add)
  ultimately show ?thesis
    using mem_sbrk_ok [OF inv, of "w32 n"] n by (auto simp: un brk_def [symmetric] brk_w32 [symmetric])
qed

text \<open>The three writes of \<^verbatim>\<open>extend_heap\<close>, up to the call of \<^verbatim>\<open>coalesce\<close>.\<close>

lemma extend_heap_coalesce:
  assumes inv: "heap_inv s B (frees B) F" and n: "8 dvd n" "16 \<le> n" "brk s + n \<le> unat (mem_max_addr s)"
    and epi: "view (mem s) (brk s - 4) = hdr EPILOGUE True prev"
  obtains m where "extend_heap (w32 n) s = coalesce (w32 (brk s)) (grown n m (free_lists s) s)"
    "view m = (view (mem s))(brk s - 4 := hdr n False prev, brk s + n - 8 := hdr n False prev,
      brk s + n - 4 := hdr EPILOGUE True False)"
proof -
  note V = vars_grown [OF heap_invD(1) [OF inv] n(1,3)] and C = brk_cell [OF inv]
  have dvd: "8 dvd brk s" using heap_invD(1) [OF inv] by (simp add: vars_ok_def)
  have cells: "wcell (brk s - 4)" "wcell (brk s + n - 8)" "wcell (brk s + n - 4)"
    using C(1) dvd n(1,2) V(4) by (auto simp: wcell_def elim!: dvdE)
  define m1 where "m1 = PUTW (mem s) (w32 (brk s - 4)) (hdr n False prev)"
  define m2 where "m2 = PUTW m1 (w32 (brk s + n - 8)) (hdr n False prev)"
  define m3 where "m3 = PUTW m2 (w32 (brk s + n - 4)) (hdr EPILOGUE True False)"
  have m3: "view m3 = (view (mem s))(brk s - 4 := hdr n False prev, brk s + n - 8 := hdr n False prev,
      brk s + n - 4 := hdr EPILOGUE True False)"
    unfolding m3_def m2_def m1_def by (simp only: view_PUTW cells)
  have ne: "brk s - 4 \<noteq> brk s + n - 8" using C(2) n(2) by linarith
  have has: "has_hdr (mem s) (brk s) EPILOGUE True prev" "has_hdr m1 (brk s) n False prev"
    "has_hdr m2 (brk s) n False prev"
    using C epi n(1) ne unfolding has_hdr_def m2_def m1_def by (simp_all add: view_PUTW cells)
  have pk: "PACK (w32 n) (if prev then 2 else 0) = hdr n False prev"
    "PACK 0xEA7F00D0 THISALLOC = hdr EPILOGUE True False"
    by (simp_all add: hdr_def PREVALLOC_def EPILOGUE_def)
  have sb: "mem_sbrk (w32 n) s = (w32 (brk s), s\<lparr>mem_brk := w32 (brk s + n)\<rparr>)"
    using extend_sbrk [OF heap_invD(1) [OF inv] V(4)] n(3) by simp
  have he: "heap_end s + 1 = w32 (brk s)"
    using heap_invD(1) [OF inv] by (simp add: vars_ok_def brk_w32)
  have neg: "w32 (brk s) \<noteq> - 1"
  proof
    assume "w32 (brk s) = - 1"
    then have "w32 (brk s + 1) = 0" by (simp add: w32_def)
    then show False using V(4) n(2) by (simp add: w32_eq_0_iff)
  qed
  have "extend_heap (w32 n) s = coalesce (w32 (brk s)) (grown n m3 (free_lists s) s)"
    using C(2) n(2) neg
    by (simp add: extend_heap_def sb Let_def he hdr_macros [OF has(1)] putw_def BLOCKHDR_w32 pk
        m1_def [symmetric] hdr_macros [OF has(2)] m2_def [symmetric] hdr_macros [OF has(3)]
        m3_def [symmetric] mem_heap_hi_def)
  then show ?thesis using m3 that by blast
qed

text \<open>
  \<^verbatim>\<open>coalesce\<close> on the fresh block when the last block \<open>p\<close> of the old heap is free: its third
  case, which enlarges \<open>p\<close>.
\<close>

lemma coalesce_prev:
  assumes inv: "heap_inv s B (frees B) F" and n: "8 dvd n" "16 \<le> n" "brk s + n \<le> unat (mem_max_addr s)"
    and p: "B p = Some (psz, False)" "p + psz = brk s"
    and m: "view m = (view (mem s))(brk s - 4 := hdr n False False, brk s + n - 8 := hdr n False False,
      brk s + n - 4 := hdr EPILOGUE True False)"
  shows "\<exists>m1 f1 m3. off_links (dom (frees B)) (view m) (view m1) \<and>
    lists_ok (view m1) f1 ((frees B)(p := None)) (list_remove p psz F) \<and>
    view m3 = (view m1)(brk s + n - 8 := hdr (n + psz) False True, p - 4 := hdr (n + psz) False True) \<and>
    coalesce (w32 (brk s)) (grown n m (free_lists s) s) =
      map_option (Pair (w32 p)) (add_to_list (w32 p) (lidx (n + psz)) (grown n m3 f1 s))"
proof -
  let ?H = "view (mem s)" and ?s0 = "grown n m (free_lists s) s"
  note T = heap_invD(2) [OF inv] and V = vars_grown [OF heap_invD(1) [OF inv] n(1,3)]
  note P = tiledD [OF T p(1)] and C = brk_cell [OF inv] and PC = block_cells [OF T p(1)]
  note lo = heap_inv_brk [OF inv]
  have cells: "wcell (brk s + n - 8)" "wcell (brk s + n - 4)"
    using lo(1) n(1,2) V(4) by (auto simp: wcell_def elim!: dvdE)
  have old: "view m c = ?H c" if "c + 4 < brk s" for c
    by (rule fresh_other [OF m n(2)]) (use lo that in simp_all)
  have ne: "brk s - 4 \<noteq> brk s + n - 8" "brk s - 4 \<noteq> brk s + n - 4" using C(2) n(2) by linarith+
  have bp: "block_hdr (view m) p psz False"
  proof -
    have "block_hdr ?H p psz False" using heap_invD(3) [OF inv] p by (simp add: blocks_ok_def)
    then show ?thesis
      using block_hdr_frame [of p psz "view m" ?H False] old p(2) P(3,5) by simp
  qed
  have lm: "lists_ok (view m) (free_lists s) (frees B) F"
    by (rule lists_ok_below [OF T heap_invD(5) [OF inv] old])
  have fp: "frees B p = Some psz" using p by (simp add: frees_Some)
  obtain m1 f1 where rem: "remove_from_list (w32 p) (lidx psz) ?s0 = grown n m1 f1 s"
    and l1: "lists_ok (view m1) f1 ((frees B)(p := None)) (list_remove p psz F)"
    and off: "off_links (dom (frees B)) (view m) (view m1)"
    using remove_from_list_ok [of ?s0 "frees B" F p psz, OF _ fp refl] lm unfolding list_remove_def by auto
  have bp1: "block_hdr (view m1) p psz False"
    using off_links_block_hdr [OF T off p(1)] bp by simp
  have "view m1 (brk s - 4) = view m (brk s - 4)"
    by (rule off_links_above [OF T off]) simp
  then have brk1: "view m1 (brk s - 4) = hdr n False False"
    using ne by (simp only: m fun_upd_apply if_False if_True simp_thms)
  have has: "has_hdr m (brk s) n False False" "has_hdr m (brk s + n) EPILOGUE True False"
    "has_hdr m p psz False True" "has_hdr m (brk s - 4) psz False True"
    "has_hdr m1 p psz False True" "has_hdr m1 (brk s) n False False"
    using C ne bp bp1 brk1 p n(1,2) cells P PC by (auto simp: has_hdr_def m block_hdr_def)
  define m2 where "m2 = PUTW m1 (w32 (brk s + n - 8)) (hdr (n + psz) False True)"
  define m3 where "m3 = PUTW m2 (w32 (p - 4)) (hdr (n + psz) False True)"
  have m3: "view m3 = (view m1)(brk s + n - 8 := hdr (n + psz) False True, p - 4 := hdr (n + psz) False True)"
    unfolding m3_def m2_def by (simp only: view_PUTW cells PC)
  have "brk s - psz = p" using p(2) by linarith
  then have prev: "GET_PREVBLOCK m (w32 (brk s)) = w32 p"
    using PREVBLOCK_w32 [OF has(4)] P p(2) by simp
  have "coalesce (w32 (brk s)) ?s0 =
      map_option (Pair (w32 p)) (add_to_list (w32 p) (lidx (n + psz)) (grown n m3 f1 s))"
    using C(2) n(2) P(5)
    by (simp add: coalesce_def Let_def NEXTALLOC_w32 [OF has(1,2)] hdr_macros [OF has(1)] prev
        hdr_macros [OF has(3)] rem [simplified] hdr_macros [OF has(5)] hdr_macros [OF has(6)] w32_add putw_def
        BLOCKHDR_w32 PACK_hdr m2_def [symmetric] m3_def [symmetric] map_option_case
        split: option.split bind_split)
  with off l1 m3 show ?thesis by blast
qed

text \<open>
  The result of a successful \<^verbatim>\<open>extend_heap\<close>: a free, listed block that reaches to the new
  break, either fresh or the old last block enlarged; every other block as before.
\<close>

lemma extend_heap_fresh:
  assumes inv: "heap_inv s B (frees B) F" and n: "8 dvd n" "16 \<le> n" "brk s + n \<le> unat (mem_max_addr s)"
    and epi: "view (mem s) (brk s - 4) = hdr EPILOGUE True True"
  defines "B' \<equiv> B(brk s \<mapsto> (n, False))"
  shows "\<exists>m f F'. extend_heap (w32 n) s = Some (w32 (brk s), grown n m f s) \<and>
    heap_inv (grown n m f s) B' (frees B') F' \<and> quiet (heap_lo s) (brk s + n) B (view (mem s)) (view m)"
proof -
  note T = heap_invD(2) [OF inv] and V = vars_grown [OF heap_invD(1) [OF inv] n(1,3)]
  note None = above_None [OF T, of "brk s"] above_None [OF T, of "brk s + n"]
  obtain m where m: "extend_heap (w32 n) s = coalesce (w32 (brk s)) (grown n m (free_lists s) s)"
    "view m = (view (mem s))(brk s - 4 := hdr n False True, brk s + n - 8 := hdr n False True,
      brk s + n - 4 := hdr EPILOGUE True False)"
    using extend_heap_coalesce [OF inv n epi] by blast
  note W = extend_write [OF inv n m(2), folded B'_def]
  have sc: "spec_coalesce (brk s) (B', F) = (B', list_add (brk s) n F)"
    using None n(2) by (simp add: spec_coalesce_def B'_def)
  obtain m' f where
    "coalesce (w32 (brk s)) (grown n m (free_lists s) s) = Some (w32 (brk s), grown n m' f s)"
    "heap_inv (grown n m' f s) B' (frees B') (list_add (brk s) n F)" "quiet (heap_lo s) (brk s + n) B' (view m) (view m')"
    using coalesce_sim [OF W(1) _ sc, of n] by (auto simp: unat_w32 [OF V(4)] B'_def)
  moreover from this(3) have "quiet (heap_lo s) (brk s + n) B (view m) (view m')"
    by (rule quiet_mono) (use None in \<open>auto simp: B'_def\<close>)
  ultimately show ?thesis
    using m(1) quiet_trans [OF W(2)] by (intro exI [of _ m'] exI [of _ f] exI [of _ "list_add (brk s) n F"]) simp
qed

lemma extend_heap_merged:
  assumes inv: "heap_inv s B (frees B) F" and n: "8 dvd n" "16 \<le> n" "brk s + n \<le> unat (mem_max_addr s)"
    and epi: "view (mem s) (brk s - 4) = hdr EPILOGUE True False"
    and p: "B p = Some (psz, False)" "p + psz = brk s"
  defines "B' \<equiv> B(p \<mapsto> (n + psz, False))"
  shows "\<exists>m f F'. extend_heap (w32 n) s = Some (w32 p, grown n m f s) \<and>
    heap_inv (grown n m f s) B' (frees B') F' \<and> quiet (heap_lo s) (brk s + n) B (view (mem s)) (view m)"
proof -
  note V = vars_grown [OF heap_invD(1) [OF inv] n(1,3)]
  obtain m where m: "extend_heap (w32 n) s = coalesce (w32 (brk s)) (grown n m (free_lists s) s)"
    "view m = (view (mem s))(brk s - 4 := hdr n False False, brk s + n - 8 := hdr n False False,
      brk s + n - 4 := hdr EPILOGUE True False)"
    using extend_heap_coalesce [OF inv n epi] by blast
  obtain m1 f1 m3 where m3: "off_links (dom (frees B)) (view m) (view m1)"
    "lists_ok (view m1) f1 ((frees B)(p := None)) (list_remove p psz F)"
    "view m3 = (view m1)(brk s + n - 8 := hdr (n + psz) False True, p - 4 := hdr (n + psz) False True)"
    "coalesce (w32 (brk s)) (grown n m (free_lists s) s) =
      map_option (Pair (w32 p)) (add_to_list (w32 p) (lidx (n + psz)) (grown n m3 f1 s))"
    using coalesce_prev [OF inv n p m(2)] by blast
  note W = extend_merge_write [OF inv n p m(2) m3(1-3), folded B'_def]
  let ?F = "list_add p (n + psz) (list_remove p psz F)"
  obtain m' f where
    "add_to_list (w32 p) (lidx (n + psz)) (grown n m3 f1 s) = Some (grown n m' f s)"
    "heap_inv (grown n m' f s) B' (frees B') ?F" "quiet (heap_lo s) (brk s + n) B' (view m3) (view m')"
    using coalesce_links [OF W(1), of "n + psz"] by (auto simp: unat_w32 [OF V(4)] B'_def)
  moreover from this(3) have "quiet (heap_lo s) (brk s + n) B (view m3) (view m')"
    by (rule quiet_mono) (use p(1) in \<open>auto simp: B'_def\<close>)
  ultimately show ?thesis
    using m(1) m3(4) quiet_trans [OF W(2)] by (intro exI [of _ m'] exI [of _ f] exI [of _ ?F]) simp
qed

lemma extend_heap_sim:
  assumes inv: "heap_inv s B (frees B) F" and n: "8 dvd n" "16 \<le> n" "brk s + n \<le> unat (mem_max_addr s)"
  shows "\<exists>p sz m f B' F'. extend_heap (w32 n) s = Some (w32 p, grown n m f s) \<and>
    heap_inv (grown n m f s) B' (frees B') F' \<and> quiet (heap_lo s) (brk s + n) B (view (mem s)) (view m) \<and>
    B' = B(p \<mapsto> (sz, False)) \<and> n \<le> sz \<and> p + sz = brk s + n \<and>
    (\<forall>sz0. B p \<noteq> Some (sz0, True))"
proof -
  from heap_invD(4) [OF inv] consider "view (mem s) (brk s - 4) = hdr EPILOGUE True True"
    | p psz where "view (mem s) (brk s - 4) = hdr EPILOGUE True False" "B p = Some (psz, False)" "p + psz = brk s"
    unfolding epi_ok_def by blast
  then show ?thesis
  proof cases
    case 1
    then show ?thesis
      using extend_heap_fresh [OF inv n 1] above_None [OF heap_invD(2) [OF inv], of "brk s"]
      by (intro exI [of _ "brk s"] exI [of _ n]) simp
  next
    case (2 p psz)
    then show ?thesis
      using extend_heap_merged [OF inv n 2] by (intro exI [of _ p] exI [of _ "n + psz"]) simp
  qed
qed

end
