(* ===== verification/Mm_Malloc.thy ===== *)
theory Mm_Malloc
  imports Mm_Correct
begin

text \<open>
  The entry points \<open>mm_malloc\<close> and \<open>mm_realloc\<close> of src/mm.c on well-formed states, and
  what they do to the allocated blocks. \<open>allocs B\<close> forgets the free blocks: it is what a
  client of the package can rely on.
\<close>

section \<open>Allocated blocks\<close>

definition allocs :: "blocks \<Rightarrow> nat \<rightharpoonup> nat" where
  "allocs B a = (case B a of Some (sz, True) \<Rightarrow> Some sz | _ \<Rightarrow> None)"

lemma allocs_Some: "allocs B a = Some sz \<longleftrightarrow> B a = Some (sz, True)"
  by (auto simp: allocs_def split: option.splits bool.splits)

lemma allocs_upd [simp]:
  "allocs (B(a \<mapsto> (sz, al))) = (allocs B)(a := if al then Some sz else None)"
  "allocs (B(a := None)) = (allocs B)(a := None)"
  by (auto simp: allocs_def fun_eq_iff)

lemma allocs_None: "B a = None \<Longrightarrow> allocs B a = None" "B a = Some (sz, False) \<Longrightarrow> allocs B a = None"
  by (simp_all add: allocs_def)

lemma allocs_idem [simp]: "allocs B a = None \<Longrightarrow> (allocs B)(a := None) = allocs B"
  by auto

lemma spec_coalesce_allocs:
  assumes "B a = Some (sz, False)" "spec_coalesce a (B, F) = (B', F')"
  shows "allocs B' = allocs B"
  using assms
  by (auto simp: spec_coalesce_def allocs_None fun_upd_idem split: option.splits bool.splits)

lemma spec_allocate_allocs:
  assumes T: "tiled lo hi B" and a: "B a = Some (sz, False)" and n: "0 < n"
    and A': "spec_allocate a n (B, F) = (B', F')"
  shows "allocs B' = (allocs B)(a \<mapsto> (if n + 16 \<le> sz then n else sz))"
proof (cases "n + 16 \<le> sz")
  case True
  have none: "allocs B (a + n) = None"
    using tiled_inside [OF T a, of n] n True by (simp add: allocs_None)
  have "spec_coalesce (a + n) (B(a \<mapsto> (n, True), a + n \<mapsto> (sz - n, False)), list_remove a sz F) = (B', F')"
    using A' a True by (simp add: spec_allocate_def)
  from spec_coalesce_allocs [OF _ this] have "allocs B' = (allocs B)(a \<mapsto> n, a + n := None)"
    by simp
  with none n True show ?thesis by (auto simp: fun_eq_iff)
next
  case False
  with A' a show ?thesis by (auto simp: spec_allocate_def)
qed

section \<open>The second removal in mm_malloc\<close>

text \<open>
  After \<^verbatim>\<open>allocate\<close> has unlinked the block, \<^verbatim>\<open>mm_malloc\<close> calls
  \<^verbatim>\<open>remove_from_list\<close> on it again, with the stale links that are still in its payload.
  The next link \<open>x\<close> leads either to the new head of the list, whose previous link is
  already null, or into the middle of a free block that has swallowed \<open>x\<close>.
\<close>

definition stale :: "blocks \<Rightarrow> nat list list \<Rightarrow> nat \<Rightarrow> nat \<Rightarrow> bool" where
  "stale B F i x \<longleftrightarrow> x = 0 \<or> (\<exists>ys. F ! i = x # ys) \<or>
     (\<exists>b sz. B b = Some (sz, False) \<and> b + 8 \<le> x \<and> x + 12 < b + sz)"

lemma spec_allocate_stale:
  assumes inv: "heap_inv s B (frees B) F" and a: "B a = Some (sz, False)"
    and n: "0 < n" "n \<le> sz" and F: "F ! lidx sz = a # ys"
    and A': "spec_allocate a n (B, F) = (B', F')"
  shows "stale B' F' (lidx sz) (hdn ys 0)"
proof (cases ys)
  case Nil
  then show ?thesis by (simp add: stale_def)
next
  case (Cons x zs)
  note T = heap_invD(2) [OF inv] and L = lists_okD [OF heap_invD(5) [OF inv]]
  have len [simp]: "length F = 17" by (rule L(2))
  have x: "x \<noteq> a" using L(5) [of "lidx sz"] F Cons by auto
  have rem: "list_remove a sz F ! lidx sz = x # zs"
    using F Cons by (simp add: list_remove_def)
  show ?thesis
  proof (cases "n + 16 \<le> sz")
    case False
    with A' a rem Cons show ?thesis by (auto simp: spec_allocate_def stale_def)
  next
    case True
    have sc: "spec_coalesce (a + n) (B(a \<mapsto> (n, True), a + n \<mapsto> (sz - n, False)), list_remove a sz F) = (B', F')"
      using A' a True by (simp add: spec_allocate_def)
    have nxt: "a + n + (sz - n) = a + sz" "a + sz \<noteq> a" "a + sz \<noteq> a + n" using n True by auto
    show ?thesis
    proof (cases "\<exists>sz2. B (a + sz) = Some (sz2, False)")
      case False
      then have "F' = list_add (a + n) (sz - n) (list_remove a sz F)"
        using sc nxt by (auto simp: spec_coalesce_def split: option.splits bool.splits)
      with rem Cons show ?thesis
        by (simp add: stale_def list_add_def nth_list_update list_remove_def)
    next
      case True
      then obtain sz2 where sz2: "B (a + sz) = Some (sz2, False)" by blast
      then have F': "F' = list_add (a + n) (sz - n + sz2) (list_remove (a + sz) sz2 (list_remove a sz F))"
        and B': "B' (a + n) = Some (sz - n + sz2, False)"
        using sc nxt by (auto simp: spec_coalesce_def)
      show ?thesis
      proof (cases "x = a + sz")
        case True
        then have "a + n + 8 \<le> x \<and> x + 12 < a + n + (sz - n + sz2)"
          using tiledD(3) [OF T sz2] \<open>n + 16 \<le> sz\<close> by linarith
        with B' have "stale B' F' (lidx sz) x" unfolding stale_def by blast
        with Cons show ?thesis by simp
      next
        case False
        with rem Cons F' show ?thesis
          by (simp add: stale_def list_add_def nth_list_update list_remove_def)
      qed
    qed
  qed
qed

text \<open>A word inside a free block, away from its links and its footer, does not matter.\<close>

lemma heap_inv_inside:
  assumes inv: "heap_inv s B (frees B) F" and b: "B b = Some (szb, False)" "b + 8 \<le> d" "d + 8 < b + szb"
    and m: "view m = (view (mem s))(d := v)"
  shows "heap_inv (s\<lparr>mem := m\<rparr>) B (frees B) F" "quiet (heap_lo s) (brk s) B (view (mem s)) (view m)"
proof -
  note T = heap_invD(2) [OF inv]
  have other: "view m c = view (mem s) c" if "\<not> (b + 8 \<le> c \<and> c + 8 < b + szb)" for c
    using that b(2,3) by (auto simp: m)
  show "heap_inv (s\<lparr>mem := m\<rparr>) B (frees B) F"
  proof (rule heap_inv_meta [OF inv])
    show "view m (c - 4) = view (mem s) (c - 4)" if c: "B c = Some (szc, alc)" for c szc alc
    proof (rule other)
      from tiled_disjoint [OF T b(1) c] tiledD(3,5) [OF T c]
      show "\<not> (b + 8 \<le> c - 4 \<and> c - 4 + 8 < b + szb)" by (cases "c = b") linarith+
    qed
    show "view m c = view (mem s) c \<and> view m (c + 4) = view (mem s) (c + 4) \<and>
        view m (c + szc - 8) = view (mem s) (c + szc - 8)" if c: "B c = Some (szc, False)" for c szc
    proof (intro conjI other)
      have eq: "szc = szb" if "c = b" using that c b(1) by simp
      note D = tiled_disjoint [OF T b(1) c] tiledD(3,5) [OF T c]
      from D eq show "\<not> (b + 8 \<le> c \<and> c + 8 < b + szb)" by (cases "c = b") linarith+
      from D eq show "\<not> (b + 8 \<le> c + 4 \<and> c + 4 + 8 < b + szb)" by (cases "c = b") linarith+
      from D eq show "\<not> (b + 8 \<le> c + szc - 8 \<and> c + szc - 8 + 8 < b + szb)" by (cases "c = b") linarith+
    qed
    show "view m (brk s - 4) = view (mem s) (brk s - 4)"
      using tiledD(6) [OF T b(1)] by (intro other) linarith
  qed simp
  show "quiet (heap_lo s) (brk s) B (view (mem s)) (view m)"
    unfolding m using quiet_upd [OF T b(1), of d "view (mem s)" v] b(2,3) by simp
qed

lemma stale_apart:
  assumes T: "tiled lo hi B" and L: "lists_ok H heads (frees B) F" and a: "B a = Some (sz, True)" and i: "i < 17"
    and x: "stale B F i x"
  shows "x \<noteq> a"
proof
  assume "x = a"
  moreover have "a \<notin> set (F ! i)" using lists_okD(6) [OF L i, of a] a by (auto simp: frees_Some)
  ultimately obtain b szb where b: "B b = Some (szb, False)" "b + 8 \<le> a" "a + 12 < b + szb"
    using x tiledD(5) [OF T a] by (auto simp: stale_def)
  then have "b \<noteq> a" using a by auto
  from tiled_disjoint [OF T b(1) a this] b(2,3) show False by linarith
qed

text \<open>The write through a stale link: none, or one into the middle of a free block.\<close>

lemma stale_write:
  assumes L: "lists_ok H heads S F" and i: "i < 17" and x: "stale B F i x"
  obtains "(if x = 0 then H else H(x + 4 := 0)) = H"
  | b szb where "B b = Some (szb, False)" "b + 8 \<le> x + 4" "x + 4 + 8 < b + szb" "x \<noteq> 0"
proof (cases "x = 0")
  case True
  with that(1) show ?thesis by simp
next
  case False
  with x consider ys where "F ! i = x # ys" | b szb where "B b = Some (szb, False)" "b + 8 \<le> x" "x + 12 < b + szb"
    by (auto simp: stale_def)
  then show ?thesis
  proof cases
    case (1 ys)
    with lists_okD(4) [OF L i] have "H (x + 4) = 0" by simp
    with that(1) show ?thesis by (simp add: fun_upd_idem)
  qed (use that(2) False in force)
qed

lemma remove_stale:
  assumes inv: "heap_inv s B (frees B) F" and a: "B a = Some (sz, True)" and i: "i < 17"
    and links: "view (mem s) a = w32 x" "view (mem s) (a + 4) = 0"
    and x: "stale B F i x" "x = 0 \<or> node x"
  shows "\<exists>m. remove_from_list (w32 a) i s = s\<lparr>mem := m\<rparr> \<and>
    heap_inv (s\<lparr>mem := m\<rparr>) B (frees B) F \<and> quiet (heap_lo s) (brk s) B (view (mem s)) (view m)"
proof -
  note T = heap_invD(2) [OF inv] and L = heap_invD(5) [OF inv]
  note node = tiled_node [OF T a]
  have n: "x = 0 \<or> node x \<and> x \<noteq> a" using x(2) stale_apart [OF T L a i x(1)] by blast
  obtain m where m: "remove_from_list (w32 a) i s = s\<lparr>mem := m, free_lists :=
      if free_lists s ! i = w32 a then (free_lists s)[i := w32 x] else free_lists s\<rparr>"
    "view m = (if x = 0 then view (mem s) else (view (mem s))(x + 4 := 0))"
    using remove_from_list_links [OF node n, of 0 s i] links by auto
  have "a \<notin> set (F ! i)" using lists_okD(6) [OF L i, of a] a by (auto simp: frees_Some)
  then have "free_lists s ! i \<noteq> w32 a"
    using lists_okD(3) [OF L i] lists_ok_node [OF L i] node node_NULL [OF node]
    by (cases "F ! i") (auto simp: node_eq NULL_def)
  with m(1) have r: "remove_from_list (w32 a) i s = s\<lparr>mem := m\<rparr>" by simp
  from L i x(1) show ?thesis
  proof (cases rule: stale_write)
    case 1
    with m(2) have same: "view m = view (mem s)" by simp
    then have "heap_inv (s\<lparr>mem := m\<rparr>) B (frees B) F" by (intro heap_inv_meta [OF inv]) simp_all
    with r same show ?thesis by auto
  next
    case (2 b szb)
    with m(2) have "view m = (view (mem s))(x + 4 := 0)" by simp
    with r heap_inv_inside [OF inv 2(1-3) this] show ?thesis by blast
  qed
qed

section \<open>mm_malloc\<close>

text \<open>
  \<open>grows n s s'\<close>: the heap is in the same area in both states, and the break moved up by
  at most \<open>n\<close> bytes.
\<close>

definition grows :: "nat \<Rightarrow> mm_state \<Rightarrow> mm_state \<Rightarrow> bool" where
  "grows n s s' \<longleftrightarrow> mem_start_brk s' = mem_start_brk s \<and> mem_max_addr s' = mem_max_addr s \<and>
     PAGE_SIZE s' = PAGE_SIZE s \<and> ADJUSTED_PAGESIZE s' = ADJUSTED_PAGESIZE s \<and>
     heap_start s' = heap_start s \<and> brk s \<le> brk s' \<and> brk s' \<le> brk s + n"

lemma grows_upd [simp]:
  "grows n s (s\<lparr>mem := m\<rparr>)" "grows n s (s\<lparr>mem := m, free_lists := f\<rparr>)"
  by (simp_all add: grows_def)

lemma grows_grown:
  assumes "vars_ok s" "8 dvd n" "brk s + n \<le> unat (mem_max_addr s)"
  shows "grows n s (grown n m f s)"
  using vars_grown(2) [OF assms] by (simp add: grows_def)

lemma grows_trans: "grows n s s' \<Longrightarrow> grows n' s' s'' \<Longrightarrow> grows (n + n') s s''"
  by (auto simp: grows_def)

text \<open>The request \<open>n\<close> is small enough for the size arithmetic and the break not to wrap.\<close>

definition fits_word :: "mm_state \<Rightarrow> nat \<Rightarrow> bool" where
  "fits_word s n \<longleftrightarrow> unat (mem_max_addr s) + n + 15 < 2 ^ 32"

text \<open>By how much a request may have to extend the heap.\<close>

definition demand :: "mm_state \<Rightarrow> nat \<Rightarrow> nat" where
  "demand s n = max (adjusted n) (unat (ADJUSTED_PAGESIZE s))"

lemma MAX2_w32: "m < 2 ^ 32 \<Longrightarrow> MAX2 (w32 m) x = w32 (max m (unat x))"
  using w32_less_iff [of "unat x" m] unat_lt2p_32 [of x] by (auto simp: MAX2_def max_def not_less)

text \<open>What a successful allocation of \<open>n\<close> bytes does: a fresh block of sufficient size.\<close>

definition allocated :: "nat \<Rightarrow> mm_state \<Rightarrow> blocks \<Rightarrow> nat \<Rightarrow> mm_state \<Rightarrow> blocks \<Rightarrow> bool" where
  "allocated n s B p s' B' \<longleftrightarrow> allocs B p = None \<and>
     (\<exists>k. allocs B' = (allocs B)(p \<mapsto> k) \<and> n + 4 \<le> k) \<and>
     quiet (heap_lo s) (brk s') B (view (mem s)) (view (mem s'))"

lemma allocate_allocated:
  assumes inv: "heap_inv s B (frees B) F" and a: "B a = Some (sz, False)" and n: "adjusted n \<le> sz"
  obtains m f B' F' where "allocate (w32 a) (w32 (adjusted n)) s = Some (s\<lparr>mem := m, free_lists := f\<rparr>)"
    "heap_inv (s\<lparr>mem := m, free_lists := f\<rparr>) B' (frees B') F'"
    "spec_allocate a (adjusted n) (B, F) = (B', F')" "allocated n s B a (s\<lparr>mem := m, free_lists := f\<rparr>) B'"
    "view m a = view (mem s) a" "view m (a + 4) = view (mem s) (a + 4)"
proof -
  note bounds = adjusted_bounds [of n]
  obtain B' F' where A': "spec_allocate a (adjusted n) (B, F) = (B', F')"
    by (cases "spec_allocate a (adjusted n) (B, F)")
  have "allocs B' = (allocs B)(a \<mapsto> (if adjusted n + 16 \<le> sz then adjusted n else sz))"
    using spec_allocate_allocs [OF heap_invD(2) [OF inv] a _ A'] bounds(2) by simp
  moreover have "n + 4 \<le> (if adjusted n + 16 \<le> sz then adjusted n else sz)"
    using bounds(3) n by simp
  ultimately show ?thesis
    using allocate_sim [OF inv a bounds(1,2) n A'] A' a that
    by (auto simp: allocated_def allocs_None)
qed

lemma mm_malloc_found:
  assumes inv: "heap_inv s B (frees B) F" and n: "0 < n" "n + 15 < 2 ^ 32"
    and fit: "spec_find_fit (adjusted n) (B, F) = Some (a, i)"
  shows "\<exists>s' B' F'. mm_malloc (w32 n) s = Some (w32 a, s') \<and> heap_inv s' B' (frees B') F' \<and>
    allocated n s B a s' B' \<and> grows 0 s s'"
proof -
  obtain sz ys where a: "B a = Some (sz, False)" "adjusted n \<le> sz" "i = lidx sz" "F ! i = a # ys"
    using spec_find_fit_Some [OF inv fit] by blast
  have i: "i < 17" by (simp add: a)
  obtain m f B' F' where al: "allocate (w32 a) (w32 (adjusted n)) s = Some (s\<lparr>mem := m, free_lists := f\<rparr>)"
    and inv': "heap_inv (s\<lparr>mem := m, free_lists := f\<rparr>) B' (frees B') F'"
    and A': "spec_allocate a (adjusted n) (B, F) = (B', F')"
    and al': "allocated n s B a (s\<lparr>mem := m, free_lists := f\<rparr>) B'"
    and links: "view m a = view (mem s) a" "view m (a + 4) = view (mem s) (a + 4)"
    by (rule allocate_allocated [OF inv a(1,2)])
  let ?s' = "s\<lparr>mem := m, free_lists := f\<rparr>"
  obtain k where "allocs B' a = Some k" using al' by (auto simp: allocated_def)
  then have k: "B' a = Some (k, True)" by (simp add: allocs_Some)
  have dll: "dll (view (mem s)) 0 (a # ys) 0" "\<forall>y \<in> set (a # ys). node y"
    using lists_okD(4) [OF heap_invD(5) [OF inv] i] lists_ok_node [OF heap_invD(5) [OF inv] i] a(4) by auto
  then have "stale B' F' i (hdn ys 0)" "hdn ys 0 = 0 \<or> node (hdn ys 0)"
    using spec_allocate_stale [OF inv a(1) _ a(2) _ A', of ys] a adjusted_bounds(2) [of n]
    by (auto simp: hdn_def split: list.split)
  then obtain m' where m': "remove_from_list (w32 a) i ?s' = ?s'\<lparr>mem := m'\<rparr>"
    "heap_inv (?s'\<lparr>mem := m'\<rparr>) B' (frees B') F'" "quiet (heap_lo s) (brk s) B' (view m) (view m')"
    using remove_stale [OF inv' k i, of "hdn ys 0"] links dll(1) by auto
  have "mm_malloc (w32 n) s = Some (w32 a, ?s'\<lparr>mem := m'\<rparr>)"
    using n find_fit_sim [OF inv, of "adjusted n"] adjusted_bounds(4) [OF n(1)] fit al m'(1)
    by (simp add: mm_malloc_def ADJUST_BYTESIZE_w32 w32_eq_0_iff Let_def)
  moreover have "quiet (heap_lo s) (brk s) B (view m) (view m')"
    using al' by (intro quiet_mono [OF m'(3)]) (auto simp: allocated_def simp flip: allocs_Some)
  then have "allocated n s B a (?s'\<lparr>mem := m'\<rparr>) B'"
    using al' quiet_trans by (auto simp: allocated_def)
  ultimately show ?thesis
    using m'(2) by (intro exI [of _ "?s'\<lparr>mem := m'\<rparr>"] exI [of _ B'] exI [of _ F']) simp
qed

lemma demand_bounds:
  assumes inv: "heap_inv s B S F" and n: "0 < n" "fits_word s n"
  shows "8 dvd demand s n" "16 \<le> demand s n" "adjusted n \<le> demand s n" "brk s + demand s n < 2 ^ 32"
proof -
  note bounds = adjusted_bounds [of n] and V = heap_invD(1) [OF inv]
  show "8 dvd demand s n" "16 \<le> demand s n" "adjusted n \<le> demand s n"
    using bounds(1,2) V by (auto simp: demand_def max_def vars_ok_def)
  have "brk s \<le> unat (mem_max_addr s)" using V by (simp add: vars_ok_def memlib_inv_def brk_def)
  moreover have "demand s n \<le> max (n + 15) (unat (ADJUSTED_PAGESIZE s))"
    using bounds(4) [OF n(1)] by (simp add: demand_def)
  ultimately show "brk s + demand s n < 2 ^ 32" using n(2) V by (auto simp: fits_word_def vars_ok_def)
qed

lemma mm_malloc_no_fit:
  assumes inv: "heap_inv s B (frees B) F" and n: "0 < n" "fits_word s n"
    and fit: "spec_find_fit (adjusted n) (B, F) = None"
  shows "mm_malloc (w32 n) s =
    do {
      (bp, s) \<leftarrow> extend_heap (w32 (demand s n)) s;
      if bp = NULL then Some (NULL, s)
      else do { s \<leftarrow> allocate bp (w32 (adjusted n)) s; Some (bp, s) }
    }"
proof -
  have "n + 15 < 2 ^ 32" using n(2) by (simp add: fits_word_def)
  then show ?thesis
    using n find_fit_sim [OF inv, of "adjusted n"] adjusted_bounds(4) [OF n(1)] fit
    by (simp add: mm_malloc_def ADJUST_BYTESIZE_w32 w32_eq_0_iff Let_def MAX2_w32 demand_def)
qed

text \<open>The block that the extension delivers is allocated; seen from the state before, it is new.\<close>

lemma extended_allocated:
  assumes B1: "B1 = B(p \<mapsto> (sz, False))" "\<forall>sz0. B p \<noteq> Some (sz0, True)" and d: "brk s + d < 2 ^ 32"
    and q: "quiet (heap_lo s) (brk s + d) B (view (mem s)) (view m)"
    and al: "allocated n (grown d m f s) B1 p (grown d m f s\<lparr>mem := m', free_lists := f'\<rparr>) B'"
  shows "allocated n s B p (grown d m f s\<lparr>mem := m', free_lists := f'\<rparr>) B'"
proof -
  have "allocs B p = None" using B1(2) by (auto simp: allocs_def split: option.split bool.split)
  moreover have "quiet (heap_lo s) (brk s + d) B (view m) (view m')"
  proof (rule quiet_mono [of _ _ B1])
    show "quiet (heap_lo s) (brk s + d) B1 (view m) (view m')"
      using al by (simp add: allocated_def unat_w32 [OF d])
  qed (use B1 in auto)
  ultimately show ?thesis
    using al quiet_trans [OF q] by (simp add: allocated_def B1(1) unat_w32 [OF d])
qed

lemma mm_malloc_extended:
  assumes inv: "heap_inv s B (frees B) F" and n: "0 < n" "fits_word s n"
    and fit: "spec_find_fit (adjusted n) (B, F) = None"
  shows "if brk s + demand s n \<le> unat (mem_max_addr s)
    then \<exists>p s' B' F'. mm_malloc (w32 n) s = Some (w32 p, s') \<and> heap_inv s' B' (frees B') F' \<and>
      allocated n s B p s' B' \<and> grows (demand s n) s s'
    else mm_malloc (w32 n) s = Some (NULL, s)"
proof -
  note V = heap_invD(1) [OF inv] and d = demand_bounds [OF inv n] and ext = mm_malloc_no_fit [OF inv n fit]
  show ?thesis
  proof (cases "brk s + demand s n \<le> unat (mem_max_addr s)")
    case False
    with extend_sbrk [OF V d(4)] have "extend_heap (w32 (demand s n)) s = Some (NULL, s)"
      by (simp add: extend_heap_def)
    with ext False show ?thesis by simp
  next
    case True
    obtain p sz m f B1 F1 where ex: "extend_heap (w32 (demand s n)) s = Some (w32 p, grown (demand s n) m f s)"
      and inv1: "heap_inv (grown (demand s n) m f s) B1 (frees B1) F1"
      and q: "quiet (heap_lo s) (brk s + demand s n) B (view (mem s)) (view m)"
      and p: "B1 = B(p \<mapsto> (sz, False))" "demand s n \<le> sz" "\<forall>sz0. B p \<noteq> Some (sz0, True)"
      using extend_heap_sim [OF inv d(1,2) True] by blast
    let ?s1 = "grown (demand s n) m f s"
    have p1: "B1 p = Some (sz, False)" "adjusted n \<le> sz" using p d(3) by auto
    obtain m' f' B' F' where al: "allocate (w32 p) (w32 (adjusted n)) ?s1 = Some (?s1\<lparr>mem := m', free_lists := f'\<rparr>)"
      and inv': "heap_inv (?s1\<lparr>mem := m', free_lists := f'\<rparr>) B' (frees B') F'"
      and al': "allocated n ?s1 B1 p (?s1\<lparr>mem := m', free_lists := f'\<rparr>) B'"
      by (rule allocate_allocated [OF inv1 p1])
    have "w32 p \<noteq> NULL" by (rule node_NULL [OF tiled_node [OF heap_invD(2) [OF inv1] p1(1)]])
    with ext ex al have "mm_malloc (w32 n) s = Some (w32 p, ?s1\<lparr>mem := m', free_lists := f'\<rparr>)" by simp
    moreover note extended_allocated [OF p(1,3) d(4) q al']
    moreover have "grows (demand s n) s (?s1\<lparr>mem := m', free_lists := f'\<rparr>)"
      using grows_grown [OF V d(1) True, where m = m' and f = f'] by simp
    ultimately show ?thesis using inv' True
      by (simp only: if_True) (intro exI conjI; (assumption | rule refl))
  qed
qed

theorem mm_malloc_sim:
  assumes inv: "heap_inv s B (frees B) F" and n: "0 < n" "fits_word s n"
  shows "mm_malloc (w32 n) s = Some (NULL, s) \<and> unat (mem_max_addr s) < brk s + demand s n \<or>
    (\<exists>p s' B' F'. mm_malloc (w32 n) s = Some (w32 p, s') \<and> heap_inv s' B' (frees B') F' \<and>
      allocated n s B p s' B' \<and> grows (demand s n) s s')"
proof (cases "spec_find_fit (adjusted n) (B, F)")
  case None
  with mm_malloc_extended [OF assms] show ?thesis by (meson not_le)
next
  case (Some fit)
  obtain a i where "fit = (a, i)" by (cases fit)
  with mm_malloc_found [OF inv n(1)] Some n(2) obtain s' B' F' where
    *: "mm_malloc (w32 n) s = Some (w32 a, s')" "heap_inv s' B' (frees B') F'"
    "allocated n s B a s' B'" "grows 0 s s'"
    by (auto simp: fits_word_def)
  from *(4) have "grows (demand s n) s s'" by (simp add: grows_def)
  with * show ?thesis by blast
qed

lemma mm_malloc_0: "mm_malloc 0 s = Some (NULL, s)"
  by (simp add: mm_malloc_def)

section \<open>Bytes of live payloads\<close>

text \<open>A quiet change keeps every byte of the payloads of allocated blocks.\<close>

lemma quiet_bytes:
  assumes T: "tiled lo hi B" and q: "quiet lo' hi' B' (view m) (view m')"
    and a: "allocs B a = Some sz" "a \<le> x" "x + 4 < a + sz" and B': "B' a = B a"
  shows "m' (w32 x) = m (w32 x)"
proof -
  have B: "B a = Some (sz, True)" using a(1) by (simp add: allocs_Some)
  with B' have "B' a = Some (sz, True)" by simp
  note q = quietD [OF q this]
  note A = tiledD [OF T B]
  define c where "c = x div 4 * 4"
  have c: "x = c + x mod 4" "x mod 4 < 4" "4 dvd c" by (simp_all add: c_def)
  obtain j k where "a = 8 * j" "sz = 8 * k" using A(1,2) by (auto elim!: dvdE)
  moreover obtain l where l: "c = 4 * l" using c(3) by (elim dvdE)
  ultimately have "2 * j \<le> l" using a(2) c(1,2) by linarith
  then have "a \<le> c" using l \<open>a = 8 * j\<close> by linarith
  moreover have "c + 4 < a + sz" using a(3) c(1) by linarith
  moreover from this A(7) c(3) have cell: "wcell c" by (simp add: wcell_def)
  ultimately have same: "view m' c = view m c" using q [of c] by simp
  have "m (w32 (c + x mod 4)) = m' (w32 (c + x mod 4))"
    using byte_of_view [OF cell c(2), of m] byte_of_view [OF cell c(2), of m'] same by (simp only:)
  then show ?thesis using c(1) by (simp only: flip: c(1))
qed

text \<open>Writing into the payloads of allocated blocks keeps the invariant.\<close>

lemma client_write_inv:
  assumes inv: "heap_inv s B (frees B) F"
    and w: "\<And>x. x < 2 ^ 32 \<Longrightarrow> m (w32 x) \<noteq> mem s (w32 x) \<Longrightarrow>
      \<exists>a sz. allocs B a = Some sz \<and> a \<le> x \<and> x + 4 < a + sz"
  shows "heap_inv (s\<lparr>mem := m\<rparr>) B (frees B) F"
proof -
  note T = heap_invD(2) [OF inv]
  have cell: "view m c = view (mem s) c"
    if "wcell c" "\<And>a sz. B a = Some (sz, True) \<Longrightarrow> c + 4 \<le> a \<or> a + sz \<le> c + 4" for c
  proof (rule view_eq_bytes [OF that(1)])
    fix k :: nat
    assume k: "k < 4"
    have "c + k < 2 ^ 32" using that(1) k by (auto simp: wcell_def elim!: dvdE)
    then show "m (w32 (c + k)) = mem s (w32 (c + k))"
      using w [of "c + k"] that(2) k by (fastforce simp: allocs_Some)
  qed
  show ?thesis
  proof (rule heap_inv_meta [OF inv])
    show "view m (a - 4) = view (mem s) (a - 4)" if a: "B a = Some (sz, al)" for a sz al
    proof (rule cell)
      show "wcell (a - 4)" by (rule block_cells [OF T a])
      show "a - 4 + 4 \<le> b \<or> b + szb \<le> a - 4 + 4" if b: "B b = Some (szb, True)" for b szb
        using tiled_disjoint [OF T a b] tiledD(3,5) [OF T a] by (cases "a = b") linarith+
    qed
    show "view m a = view (mem s) a \<and> view m (a + 4) = view (mem s) (a + 4) \<and>
        view m (a + sz - 8) = view (mem s) (a + sz - 8)" if a: "B a = Some (sz, False)" for a sz
    proof (intro conjI cell)
      have dis: "a + sz \<le> b \<or> b + szb \<le> a" if "B b = Some (szb, True)" for b szb
        using tiled_disjoint [OF T a that] a that by (cases "a = b") auto
      note A = tiledD [OF T a]
      show "wcell a" "wcell (a + 4)" using node_cells [OF tiled_node [OF T a]] by simp_all
      show "wcell (a + sz - 8)" by (rule block_cells [OF T a])
      fix b szb
      assume "B b = Some (szb, True)"
      from dis [OF this] A(3) show "a + 4 \<le> b \<or> b + szb \<le> a + 4"
        "a + 4 + 4 \<le> b \<or> b + szb \<le> a + 4 + 4" "a + sz - 8 + 4 \<le> b \<or> b + szb \<le> a + sz - 8 + 4"
        by linarith+
    qed
    show "view m (brk s - 4) = view (mem s) (brk s - 4)"
      using brk_cell [OF inv] tiledD(6) [OF T] by (intro cell) force+
  qed simp
qed

section \<open>mm_free and mm_realloc\<close>

lemma mm_free_allocs:
  assumes inv: "heap_inv s B (frees B) F" and a: "allocs B a = Some sz"
  obtains s' B' F' where "mm_free (w32 a) s = Some s'" "heap_inv s' B' (frees B') F'"
    "allocs B' = (allocs B)(a := None)" "quiet (heap_lo s) (brk s) (B(a := None)) (view (mem s)) (view (mem s'))" "grows 0 s s'"
proof -
  have B: "B a = Some (sz, True)" using a by (simp add: allocs_Some)
  obtain B' F' where A': "spec_coalesce a (B(a \<mapsto> (sz, False)), F) = (B', F')"
    by (cases "spec_coalesce a (B(a \<mapsto> (sz, False)), F)")
  from mm_free_sim [OF inv B A'] obtain m f where
    *: "mm_free (w32 a) s = Some (s\<lparr>mem := m, free_lists := f\<rparr>)"
    "heap_inv (s\<lparr>mem := m, free_lists := f\<rparr>) B' (frees B') F'"
    "quiet (heap_lo s) (brk s) (B(a \<mapsto> (sz, False))) (view (mem s)) (view m)"
    by blast
  moreover have "allocs B' = (allocs B)(a := None)"
    using spec_coalesce_allocs [OF _ A', of sz] by simp
  moreover have "quiet (heap_lo s) (brk s) (B(a := None)) (view (mem s)) (view m)"
    by (rule quiet_mono [OF *(3)]) (auto split: if_splits)
  ultimately show ?thesis by (intro that [of "s\<lparr>mem := m, free_lists := f\<rparr>" B' F']) simp_all
qed

text \<open>The copy of \<^verbatim>\<open>mm_realloc\<close>, from one allocated block into another one.\<close>

lemma realloc_copy:
  assumes inv: "heap_inv s B (frees B) F" and a: "allocs B a = Some sz" and p: "allocs B p = Some k" "p \<noteq> a"
    and c: "c + 4 \<le> k" "c \<le> sz"
  defines "s' \<equiv> s\<lparr>mem := memcpy (mem s) (w32 p) (w32 a) (w32 c)\<rparr>"
  shows "heap_inv s' B (frees B) F" "quiet (heap_lo s) (brk s) (B(p := None)) (view (mem s)) (view (mem s'))"
    "\<And>j. j < c \<Longrightarrow> mem s' (w32 (p + j)) = mem s (w32 (a + j))"
proof -
  note T = heap_invD(2) [OF inv]
  have P: "B p = Some (k, True)" using p(1) by (simp add: allocs_Some)
  have pk: "p + k < 2 ^ 32" by (rule tiledD(7) [OF T P])
  then have at: "mem s' (w32 x) = (if p \<le> x \<and> x < p + c then mem s (w32 (a + (x - p))) else mem s (w32 x))"
    if "x < 2 ^ 32" for x
    using memcpy_at [of p c x "mem s" a] that c(1) by (simp add: s'_def)
  show "heap_inv s' B (frees B) F"
    unfolding s'_def
  proof (rule client_write_inv [OF inv])
    fix x :: nat
    assume "x < 2 ^ 32" "memcpy (mem s) (w32 p) (w32 a) (w32 c) (w32 x) \<noteq> mem s (w32 x)"
    with at [of x] have "p \<le> x \<and> x < p + c" by (simp add: s'_def split: if_splits)
    with p(1) c(1) show "\<exists>a sz. allocs B a = Some sz \<and> a \<le> x \<and> x + 4 < a + sz" by force
  qed
  show "mem s' (w32 (p + j)) = mem s (w32 (a + j))" if "j < c" for j
    using at [of "p + j"] that pk c(1) by simp
  show "quiet (heap_lo s) (brk s) (B(p := None)) (view (mem s)) (view (mem s'))"
  proof (rule quietI)
    have same: "view (mem s') d = view (mem s) d"
      if d: "\<And>j. j < 4 \<Longrightarrow> \<not> (p \<le> d + j \<and> d + j < p + c)" for d
    proof (cases "wcell d")
      case False
      then show ?thesis by (simp add: view_at)
    next
      case True
      then show ?thesis
      proof (rule view_eq_bytes)
        fix j :: nat
        assume j: "j < 4"
        have "d + j < 2 ^ 32" using True j by (auto simp: wcell_def elim!: dvdE)
        with at [of "d + j"] d [OF j] show "mem s' (w32 (d + j)) = mem s (w32 (d + j))" by (simp only: if_False)
      qed
    qed
    show "view (mem s') d = view (mem s) d"
      if "(B(p := None)) b = Some (szb, True)" and d: "b \<le> d" "d + 4 < b + szb" for b szb d
    proof (rule same)
      from that have b: "B b = Some (szb, True)" "b \<noteq> p" by (auto split: if_splits)
      show "\<not> (p \<le> d + j \<and> d + j < p + c)" if "j < 4" for j
        using tiled_disjoint [OF T b(1) P b(2)] d that c(1) by linarith
    qed
    show "view (mem s') d = view (mem s) d" if "d + 4 < heap_lo s \<or> brk s \<le> d" for d
      using that tiledD(4,6) [OF T P] c(1) by (intro same) linarith
  qed
qed

text \<open>What a successful reallocation of block \<open>a\<close> (of \<open>sz\<close> bytes) to \<open>n\<close> bytes does.\<close>

definition reallocated :: "nat \<Rightarrow> nat \<Rightarrow> nat \<Rightarrow> mm_state \<Rightarrow> blocks \<Rightarrow> nat \<Rightarrow> mm_state \<Rightarrow> blocks \<Rightarrow> bool" where
  "reallocated n a sz s B p s' B' \<longleftrightarrow> allocs B p = None \<and>
     (\<exists>k. allocs B' = (allocs B)(a := None, p \<mapsto> k) \<and> n + 4 \<le> k) \<and>
     (\<forall>j. j < n \<longrightarrow> j + 4 < sz \<longrightarrow> mem s' (w32 (p + j)) = mem s (w32 (a + j))) \<and>
     quiet (heap_lo s) (brk s') (B(a := None)) (view (mem s)) (view (mem s'))"

lemma realloc_quiet:
  assumes k: "allocs B1 = (allocs B)(p \<mapsto> k)" "allocs B p = None"
    and q: "quiet lo hi B H H1" "quiet lo hi (B1(p := None)) H1 H2" "quiet lo hi (B1(a := None)) H2 H3"
  shows "quiet lo hi (B(a := None)) H H3"
proof -
  have old: "B1 b = Some (szb, True) \<and> b \<noteq> p \<and> b \<noteq> a" if "(B(a := None)) b = Some (szb, True)" for b szb
  proof -
    from that have "allocs B b = Some szb" "b \<noteq> a" by (auto simp: allocs_Some split: if_splits)
    with k show ?thesis by (auto simp flip: allocs_Some)
  qed
  have "quiet lo hi (B(a := None)) H H1"
    by (rule quiet_mono [OF q(1)]) (auto split: if_splits)
  moreover have "quiet lo hi (B(a := None)) H1 H2"
    by (rule quiet_mono [OF q(2)], drule old) (simp only: fun_upd_apply if_False simp_thms)
  moreover have "quiet lo hi (B(a := None)) H2 H3"
    by (rule quiet_mono [OF q(3)], drule old) (simp only: fun_upd_apply if_False simp_thms)
  ultimately show ?thesis by (blast intro: quiet_trans)
qed

lemma realloc_run:
  assumes inv: "heap_inv s1 B1 S F1" and a: "B1 a = Some (sz, True)" and p: "B1 p = Some (k, True)" and n: "n < 2 ^ 32"
    and run: "mm_malloc (w32 n) s = Some (w32 p, s1)"
  shows "mm_realloc (w32 a) (w32 n) s =
    map_option (Pair (w32 p)) (mm_free (w32 a) (s1\<lparr>mem := memcpy (mem s1) (w32 p) (w32 a) (w32 (min n sz))\<rparr>))"
proof -
  note T = heap_invD(2) [OF inv]
  have "w32 p \<noteq> NULL" by (rule node_NULL [OF tiled_node [OF T p]])
  moreover have "sz < 2 ^ 32" using tiledD(7) [OF T a] by simp
  then have "(if w32 n < w32 sz then w32 n else w32 sz) = w32 (min n sz)"
    using n by (simp add: w32_less_iff)
  ultimately show ?thesis
    using run by (simp add: mm_realloc_def Let_def THISSIZE_w32 [OF inv_has_hdr [OF inv a]] map_option_case
        split: option.split bind_split if_splits)
qed

text \<open>The steps behind a successful allocation: copy, free, and what the client then finds.\<close>

lemma realloc_moved:
  assumes inv: "heap_inv s B (frees B) F" and a: "allocs B a = Some sz" and n: "n < 2 ^ 32"
    and run: "mm_malloc (w32 n) s = Some (w32 p, s1)"
    and inv1: "heap_inv s1 B1 (frees B1) F1" and al: "allocated n s B p s1 B1" and g1: "grows d s s1"
  shows "\<exists>s' B' F'. mm_realloc (w32 a) (w32 n) s = Some (w32 p, s') \<and> heap_inv s' B' (frees B') F' \<and>
    reallocated n a sz s B p s' B' \<and> grows d s s'"
proof -
  from al obtain k where k: "allocs B1 = (allocs B)(p \<mapsto> k)" "n + 4 \<le> k" "allocs B p = None"
    and q1: "quiet (heap_lo s) (brk s1) B (view (mem s)) (view (mem s1))"
    by (auto simp: allocated_def)
  have pa: "p \<noteq> a" using k(3) a by auto
  have a1: "allocs B1 a = Some sz" and p1: "allocs B1 p = Some k" using k(1) a pa by simp_all
  note T = heap_invD(2) [OF inv] and T1 = heap_invD(2) [OF inv1]
  have B1p: "B1 p = Some (k, True)" and B1a: "B1 a = Some (sz, True)" using p1 a1 by (simp_all add: allocs_Some)
  define c where "c = min n sz"
  define s2 where "s2 = s1\<lparr>mem := memcpy (mem s1) (w32 p) (w32 a) (w32 c)\<rparr>"
  have cp: "heap_inv s2 B1 (frees B1) F1" "quiet (heap_lo s1) (brk s1) (B1(p := None)) (view (mem s1)) (view (mem s2))"
    "\<And>j. j < c \<Longrightarrow> mem s2 (w32 (p + j)) = mem s1 (w32 (a + j))"
    using realloc_copy [OF inv1 a1 p1 pa, of c] k(2) by (simp_all add: c_def s2_def)
  obtain s' B' F' where fr: "mm_free (w32 a) s2 = Some s'" and inv': "heap_inv s' B' (frees B') F'"
    and allocs': "allocs B' = (allocs B1)(a := None)"
    and q3: "quiet (heap_lo s2) (brk s2) (B1(a := None)) (view (mem s2)) (view (mem s'))" and g3: "grows 0 s2 s'"
    by (rule mm_free_allocs [OF cp(1) a1])
  have "mm_realloc (w32 a) (w32 n) s = Some (w32 p, s')"
    using realloc_run [OF inv1 B1a B1p n run] fr by (simp add: c_def s2_def)
  moreover have "mem s' (w32 (p + j)) = mem s (w32 (a + j))" if j: "j < n" "j + 4 < sz" for j
    using quiet_bytes [OF T1 q3 p1, of "p + j"] cp(3) [of j] quiet_bytes [OF T q1 a, of "a + j"] j k(2) pa
    by (simp add: c_def)
  moreover have same: "heap_lo s1 = heap_lo s" "heap_lo s2 = heap_lo s" "brk s2 = brk s1" "brk s' = brk s1"
    using g1 g3 by (auto simp: grows_def heap_lo_def s2_def)
  have "quiet (heap_lo s) (brk s') (B(a := None)) (view (mem s)) (view (mem s'))"
    unfolding same(4) by (rule realloc_quiet [OF k(1,3) q1 cp(2) [unfolded same] q3 [unfolded same]])
  moreover have "allocs B' = (allocs B)(a := None, p \<mapsto> k)"
    using allocs' k(1) pa by (simp add: fun_upd_twist)
  moreover have "grows d s s'"
    using g1 g3 by (simp add: grows_def s2_def)
  ultimately show ?thesis using inv' k(2,3) by (auto simp: reallocated_def)
qed

theorem mm_realloc_sim:
  assumes inv: "heap_inv s B (frees B) F" and a: "allocs B a = Some sz" and n: "0 < n" "fits_word s n"
  shows "mm_realloc (w32 a) (w32 n) s = Some (NULL, s) \<and> unat (mem_max_addr s) < brk s + demand s n \<or>
    (\<exists>p s' B' F'. mm_realloc (w32 a) (w32 n) s = Some (w32 p, s') \<and> heap_inv s' B' (frees B') F' \<and>
      reallocated n a sz s B p s' B' \<and> grows (demand s n) s s')"
  using mm_malloc_sim [OF inv n]
proof
  assume "mm_malloc (w32 n) s = Some (NULL, s) \<and> unat (mem_max_addr s) < brk s + demand s n"
  then show ?thesis by (simp add: mm_realloc_def)
next
  have "n < 2 ^ 32" using n(2) by (simp add: fits_word_def)
  moreover assume "\<exists>p s' B' F'. mm_malloc (w32 n) s = Some (w32 p, s') \<and> heap_inv s' B' (frees B') F' \<and>
      allocated n s B p s' B' \<and> grows (demand s n) s s'"
  ultimately show ?thesis using realloc_moved [OF inv a] by blast
qed

end
