(* ===== verification/Mm_Init.thy ===== *)
theory Mm_Init
  imports Mm_Malloc
begin

text \<open>
  \<open>mm_init\<close> of src/mm.c establishes the invariant: the heap it leaves is one free block
  between the prologue and the epilogue.
\<close>

text \<open>What \<open>mm_init\<close> relies on: an area for the heap, and a page size that fits into it.\<close>

definition init_ok :: "(size_t \<Rightarrow> addr) \<Rightarrow> 32 word \<Rightarrow> bool" where
  "init_ok libc_malloc getpagesize \<longleftrightarrow> area_ok (libc_malloc MAX_HEAP) \<and> 0 < unat getpagesize \<and>
     adjusted (2 * unat getpagesize) + 16 \<le> unat MAX_HEAP \<and>
     unat (libc_malloc MAX_HEAP) + unat MAX_HEAP + adjusted (2 * unat getpagesize) < 2 ^ 32"

definition init_blocks :: "nat \<Rightarrow> nat \<Rightarrow> blocks" where
  "init_blocks base n = [base + 16 \<mapsto> (n, False)]"

lemma tiled_init:
  assumes "8 dvd base" "8 dvd n" "16 \<le> n" "base + 16 + n < 2 ^ 32"
  shows "tiled (base + 16) (base + 16 + n) (init_blocks base n)"
  using assms by (auto simp: tiled_def init_blocks_def split: if_splits)

lemma lists_ok_empty: "lists_ok H (replicate 17 NULL) Map.empty (replicate 17 [])"
  by (simp add: lists_ok_def NULL_def)

text \<open>The state in which \<open>mm_init\<close> calls \<^verbatim>\<open>add_to_list\<close>.\<close>

lemma init_inv:
  assumes V: "vars_ok s" "heap_start s = w32 base" "base < 2 ^ 32" "brk s = base + 16 + n"
    and n: "8 dvd n" "16 \<le> n" and f: "free_lists s = replicate 17 NULL"
    and m: "view (mem s) (base + n + 12) = hdr EPILOGUE True False"
      "view (mem s) (base + 12) = hdr n False True" "view (mem s) (base + n + 8) = hdr n False True"
  defines "B \<equiv> init_blocks base n"
  shows "heap_inv s B ((frees B)(base + 16 := None)) (replicate 17 [])"
proof -
  have lo: "heap_lo s = base + 16" using V(2,3) by (simp add: heap_lo_def unat_w32)
  have "8 dvd unat (mem_start_brk s)" "mem_start_brk s = heap_start s"
    using V(1) by (auto simp: vars_ok_def memlib_inv_def area_ok_def)
  then have "8 dvd base" using V(2,3) by (simp add: unat_w32)
  moreover have "base + 16 + n < 2 ^ 32" using V(4) unat_lt2p_32 [of "mem_brk s"] by (simp add: brk_def)
  ultimately have "tiled (heap_lo s) (brk s) B"
    unfolding lo V(4) B_def by (intro tiled_init n)
  moreover have "base + 16 - 4 = base + 12" "base + 16 + n - 8 = base + n + 8" by simp_all
  then have "block_hdr (view (mem s)) (base + 16) n False"
    unfolding block_hdr_def using m(2,3) by (simp only: simp_thms)
  then have "blocks_ok (view (mem s)) B"
    by (auto simp: blocks_ok_def B_def init_blocks_def split: if_splits)
  moreover have "brk s - 4 = base + n + 12" using V(4) by simp
  then have "view (mem s) (brk s - 4) = hdr EPILOGUE True False" using m(1) by (simp only:)
  then have "epi_ok (view (mem s)) (brk s) B"
    using V(4) by (auto simp: epi_ok_def B_def init_blocks_def)
  moreover have "(frees B)(base + 16 := None) = Map.empty"
    by (auto simp: B_def init_blocks_def frees_def fun_eq_iff)
  ultimately show ?thesis
    using V(1) f lists_ok_empty by (simp add: heap_inv_def)
qed


text \<open>
  The variables after \<open>mm_init\<close> took its part of the area. \<open>n\<close> is the size of the first
  block, two pages adjusted like a request.
\<close>

definition init_vars :: "addr \<Rightarrow> 32 word \<Rightarrow> memory \<Rightarrow> mm_state \<Rightarrow> mm_state" where
  "init_vars base pg m s = (let n = adjusted (2 * unat pg) in
     s\<lparr>mem := m, mem_start_brk := base, mem_brk := base + w32 (n + 16), mem_max_addr := base + MAX_HEAP,
       free_lists := replicate 17 NULL, PAGE_SIZE := pg, ADJUSTED_PAGESIZE := w32 n,
       heap_start := base, heap_end := base + w32 (n + 16) - 1\<rparr>)"

lemma init_vars_ok:
  assumes "init_ok libc_malloc pg"
  defines "base \<equiv> unat (libc_malloc MAX_HEAP)" and "n \<equiv> adjusted (2 * unat pg)"
  shows "vars_ok (init_vars (libc_malloc MAX_HEAP) pg m s)"
    "brk (init_vars (libc_malloc MAX_HEAP) pg m s) = base + 16 + n"
proof -
  note n = adjusted_bounds [of "2 * unat pg", folded n_def]
  have ok: "area_ok (libc_malloc MAX_HEAP)" "8 dvd base" "n + 16 \<le> 20971520" "base + 20971520 + n < 2 ^ 32"
    using assms(1) by (auto simp: init_ok_def area_ok_def base_def n_def)
  have un: "unat (w32 n) = n" "unat (w32 (n + 16)) = n + 16" using ok by (simp_all add: unat_w32)
  have brk: "unat (libc_malloc MAX_HEAP + w32 (n + 16)) = base + 16 + n"
    "unat (libc_malloc MAX_HEAP + MAX_HEAP) = base + 20971520"
    using ok by (simp_all add: unat_word_ariths un base_def [symmetric])
  show "brk (init_vars (libc_malloc MAX_HEAP) pg m s) = base + 16 + n"
    using brk by (simp add: brk_def init_vars_def Let_def n_def)
  show "vars_ok (init_vars (libc_malloc MAX_HEAP) pg m s)"
    using brk ok un n by (simp add: vars_ok_def memlib_inv_def brk_def init_vars_def Let_def
        n_def [symmetric] base_def [symmetric])
qed

lemma init_block_size:
  assumes "init_ok libc_malloc pg"
  shows "ADJUST_BYTESIZE (mem_pagesize pg * 2) = w32 (adjusted (2 * unat pg))"
proof -
  have "2 * unat pg + 15 < 2 ^ 32"
    using assms adjusted_bounds(3) [of "2 * unat pg"] by (simp add: init_ok_def)
  from ADJUST_BYTESIZE_w32 [OF this] show ?thesis
    by (simp add: mem_pagesize_def w32_def mult.commute)
qed

text \<open>\<open>mm_init\<close> up to the call of \<^verbatim>\<open>add_to_list\<close>.\<close>

text \<open>The six words that \<open>mm_init\<close> writes before it lists the first block.\<close>

definition init_words :: "nat \<Rightarrow> nat \<Rightarrow> memory \<Rightarrow> memory" where
  "init_words base n m0 =
     (let m1 = PUTW m0 (w32 base) 0x8BADF00D;
          m2 = PUTW m1 (w32 (base + 4)) (PACK DSIZE (THISALLOC OR PREVALLOC));
          m3 = PUTW m2 (w32 (base + 8)) (PACK DSIZE (THISALLOC OR PREVALLOC));
          m4 = PUTW m3 (w32 (base + n + 12)) (hdr EPILOGUE True False);
          m5 = PUTW m4 (w32 (base + 12)) (hdr n False True)
      in PUTW m5 (w32 (base + n + 8)) (hdr n False True))"

lemma view_init_words:
  assumes "8 dvd base" "8 dvd n" "16 \<le> n" "base + n + 16 < 2 ^ 32"
  shows "view (init_words base n m) (base + n + 12) = hdr EPILOGUE True False"
    "view (init_words base n m) (base + 12) = hdr n False True"
    "view (init_words base n m) (base + n + 8) = hdr n False True"
    "c < base \<or> base + 16 + n \<le> c \<Longrightarrow> view (init_words base n m) c = view m c"
proof -
  have cells: "wcell (base + n + 12)" "wcell (base + 12)" "wcell (base + n + 8)"
    "wcell base" "wcell (base + 4)" "wcell (base + 8)"
    using assms by (auto simp: wcell_def elim!: dvdE)
  have ne: "base + n + 12 \<noteq> base + 12" "base + n + 12 \<noteq> base + n + 8" "base + 12 \<noteq> base + n + 8"
    using assms(3) by linarith+
  note W = init_words_def [of base n m, unfolded Let_def]
  show "view (init_words base n m) (base + n + 12) = hdr EPILOGUE True False"
    "view (init_words base n m) (base + 12) = hdr n False True"
    "view (init_words base n m) (base + n + 8) = hdr n False True"
    using ne unfolding W by (simp_all only: view_PUTW cells) simp_all
  show "view (init_words base n m) c = view m c" if "c < base \<or> base + 16 + n \<le> c"
    using that unfolding W by (simp only: view_PUTW cells) auto
qed

lemma mm_init_words:
  assumes ok: "init_ok libc_malloc pg"
  defines "base \<equiv> unat (libc_malloc MAX_HEAP)" and "n \<equiv> adjusted (2 * unat pg)"
  shows "mm_init libc_malloc pg s = map_option (\<lambda>s. Inr (0, s))
    (add_to_list (w32 (base + 16)) (lidx n) (init_vars (libc_malloc MAX_HEAP) pg (init_words base n (mem s)) s))"
proof -
  let ?b = "libc_malloc MAX_HEAP"
  have ar: "?b \<noteq> NULL" "n + 16 \<le> 20971520" "base + 20971520 + n < 2 ^ 32"
    using ok by (auto simp: init_ok_def area_ok_def base_def n_def)
  have b: "?b = w32 base" by (simp add: base_def)
  have incr: "w32 n + 4 * WSIZE = w32 (n + 16)" by (simp add: WSIZE_def w32_add_numeral)
  have "unat (w32 (n + 16)) = n + 16" using ar by (simp add: unat_w32)
  then have sbrk: "\<not> sint (w32 (n + 16)) < 0" "\<not> ?b + MAX_HEAP < ?b + w32 (n + 16)"
    using ar by (simp_all add: sint_neg_iff word_less_nat_alt unat_word_ariths base_def [symmetric])
  have at: "?b + 1 * WSIZE = w32 (base + 4)" "?b + 2 * WSIZE = w32 (base + 8)"
    "?b + w32 n + 3 * WSIZE = w32 (base + n + 12)" "?b + 3 * WSIZE = w32 (base + 12)"
    "?b + w32 (n + 16) - 1 - WSIZE + 1 - WSIZE = w32 (base + n + 8)" "?b + 4 * WSIZE = w32 (base + 16)"
    unfolding b WSIZE_def w32_def by simp_all
  have pk: "PACK (w32 n) PREVALLOC = hdr n False True" "PACK 0xEA7F00D0 THISALLOC = hdr EPILOGUE True False"
    by (simp_all add: hdr_def EPILOGUE_def)
  have size: "ADJUST_BYTESIZE (pg * 2) = w32 n"
    using init_block_size [OF ok] by (simp add: n_def mem_pagesize_def)
  have bind: "map_option Inr (x \<bind> (\<lambda>s. Some (0, s))) = map_option (\<lambda>s. Inr (0, s)) x" for x :: "mm_state option"
    by (cases x) simp_all
  show ?thesis
    using ar(1) unfolding mm_init_def mm_setup_def mem_init_def mem_sbrk_def
    by (simp add: Let_def mem_pagesize_def mem_heap_hi_def size incr sbrk putw_def at [simplified] pk bind
        init_words_def FREELIST_COUNT_def flip: b)
      (rule arg_cong [where f = "\<lambda>s. map_option (\<lambda>s. Inr (0, s)) (add_to_list (w32 (base + 16)) (lidx n) s)"],
        simp add: init_vars_def Let_def flip: n_def)
qed

lemma mm_init_add:
  assumes ok: "init_ok libc_malloc pg"
  defines "base \<equiv> unat (libc_malloc MAX_HEAP)" and "n \<equiv> adjusted (2 * unat pg)"
  shows "\<exists>m. mm_init libc_malloc pg s = map_option (\<lambda>s. Inr (0, s))
      (add_to_list (w32 (base + 16)) (lidx n) (init_vars (libc_malloc MAX_HEAP) pg m s)) \<and>
    view m (base + n + 12) = hdr EPILOGUE True False \<and>
    view m (base + 12) = hdr n False True \<and> view m (base + n + 8) = hdr n False True \<and>
    (\<forall>c. c < base \<or> base + 16 + n \<le> c \<longrightarrow> view m c = view (mem s) c)"
proof -
  have "8 dvd base" "base + n + 16 < 2 ^ 32"
    using ok by (auto simp: init_ok_def area_ok_def base_def n_def)
  with view_init_words [where base = base and n = n and m = "mem s"] adjusted_bounds(1,2) [of "2 * unat pg"] show ?thesis
    using mm_init_words [OF ok, of s] unfolding base_def n_def
    by (intro exI [of _ "init_words (unat (libc_malloc MAX_HEAP)) (adjusted (2 * unat pg)) (mem s)"] conjI) blast+
qed


text \<open>\<open>mm_init\<close> writes into the part of the area it took, and nowhere else.\<close>

theorem mm_init_run:
  assumes ok: "init_ok libc_malloc pg"
  defines "base \<equiv> unat (libc_malloc MAX_HEAP)" and "n \<equiv> adjusted (2 * unat pg)"
  shows "\<exists>s' F. mm_init libc_malloc pg s = Some (Inr (0, s')) \<and>
    heap_inv s' (init_blocks base n) (frees (init_blocks base n)) F \<and>
    mem_start_brk s' = libc_malloc MAX_HEAP \<and> unat (ADJUSTED_PAGESIZE s') = n \<and>
    unat (mem_max_addr s') = base + unat MAX_HEAP \<and> brk s' = base + 16 + n \<and>
    (\<forall>c. c < base \<or> brk s' \<le> c \<longrightarrow> view (mem s') c = view (mem s) c)"
proof -
  let ?B = "init_blocks base n"
  note n = adjusted_bounds [of "2 * unat pg", folded n_def]
  obtain m where m: "mm_init libc_malloc pg s = map_option (\<lambda>s. Inr (0, s))
      (add_to_list (w32 (base + 16)) (lidx n) (init_vars (libc_malloc MAX_HEAP) pg m s))"
    "view m (base + n + 12) = hdr EPILOGUE True False" "view m (base + 12) = hdr n False True"
    "view m (base + n + 8) = hdr n False True"
    and out: "\<forall>c. c < base \<or> base + 16 + n \<le> c \<longrightarrow> view m c = view (mem s) c"
    using mm_init_add [OF ok, of s] unfolding base_def n_def by blast
  let ?s = "init_vars (libc_malloc MAX_HEAP) pg m s"
  note V = init_vars_ok [OF ok, of m s, folded base_def n_def]
  have "heap_inv ?s ?B ((frees ?B)(base + 16 := None)) (replicate 17 [])"
  proof (rule init_inv [OF V(1) _ _ V(2) n(1,2)])
    show "heap_start ?s = w32 base" by (simp add: init_vars_def Let_def base_def)
    show "base < 2 ^ 32" by (simp only: base_def unat_lt2p_32)
    show "free_lists ?s = replicate 17 NULL" by (simp add: init_vars_def Let_def)
    have "mem ?s = m" by (simp add: init_vars_def Let_def)
    with m(2-4) show "view (mem ?s) (base + n + 12) = hdr EPILOGUE True False"
      "view (mem ?s) (base + 12) = hdr n False True" "view (mem ?s) (base + n + 8) = hdr n False True"
      by (simp_all only:)
  qed
  moreover have "?B (base + 16) = Some (n, False)" by (simp add: init_blocks_def)
  ultimately obtain m' f F where
    *: "add_to_list (w32 (base + 16)) (lidx n) ?s = Some (?s\<lparr>mem := m', free_lists := f\<rparr>)"
    "heap_inv (?s\<lparr>mem := m', free_lists := f\<rparr>) ?B (frees ?B) F"
    and q: "quiet (heap_lo ?s) (brk ?s) ?B (view (mem ?s)) (view m')"
    using coalesce_links by blast
  moreover have "memlib_inv ?s" using V(1) by (simp add: vars_ok_def)
  moreover have "n < 2 ^ 32" using ok by (simp add: init_ok_def n_def)
  moreover have "mem_start_brk ?s = libc_malloc MAX_HEAP" "ADJUSTED_PAGESIZE ?s = w32 n"
    by (simp_all add: init_vars_def Let_def n_def)
  moreover have "view m' c = view (mem s) c" if c: "c < base \<or> base + 16 + n \<le> c" for c
  proof -
    have "heap_lo ?s = base + 16" by (simp add: heap_lo_def init_vars_def Let_def base_def)
    with quiet_outside [OF q, of c] c V(2) have "view m' c = view (mem ?s) c" by auto
    then have "view m' c = view m c" by (simp add: init_vars_def Let_def)
    with out c show ?thesis by simp blast
  qed
  ultimately show ?thesis
    using m(1) V(2)
    by (intro exI [of _ "?s\<lparr>mem := m', free_lists := f\<rparr>"] exI [of _ F])
      (simp add: memlib_inv_def base_def [symmetric] unat_w32)
qed

corollary mm_init_sim:
  assumes "init_ok libc_malloc pg"
  defines "base \<equiv> unat (libc_malloc MAX_HEAP)" and "n \<equiv> adjusted (2 * unat pg)"
  shows "\<exists>s' F. mm_init libc_malloc pg s = Some (Inr (0, s')) \<and>
    heap_inv s' (init_blocks base n) (frees (init_blocks base n)) F \<and>
    mem_start_brk s' = libc_malloc MAX_HEAP \<and> unat (ADJUSTED_PAGESIZE s') = n \<and>
    unat (mem_max_addr s') = base + unat MAX_HEAP \<and> brk s' = base + 16 + n"
  using mm_init_run [OF assms(1), of s] unfolding base_def n_def by blast

lemma allocs_init [simp]: "allocs (init_blocks base n) = Map.empty"
  by (auto simp: init_blocks_def allocs_def fun_eq_iff)

end
