(* ===== verification/Mm_Contract.thy ===== *)
theory Mm_Contract
  imports Mm_Init
begin

text \<open>
  What the package promises to its clients, with no reference to blocks, headers and free
  lists: the locale \<open>allocator\<close>. \<open>rep s L\<close> says that in state \<open>s\<close> the live payloads
  are those of the map \<open>L\<close>, from payload addresses to usable bytes. The client lemmas are
  proved once inside the locale, for a client that names its blocks by numbers and keeps
  a byte pattern in each of them, which is what the trace driver of src/mdriver.c does.

  The interpretation at the end discharges the laws for \<open>mm_malloc\<close>, \<open>mm_free\<close> and
  \<open>mm_realloc\<close> of src/mm.c.
\<close>

section \<open>The contract\<close>

definition inside :: "(nat \<rightharpoonup> nat) \<Rightarrow> nat \<Rightarrow> bool" where
  "inside L x \<longleftrightarrow> (\<exists>a n. L a = Some n \<and> a \<le> x \<and> x < a + n)"

lemma insideI: "L a = Some n \<Longrightarrow> j < n \<Longrightarrow> inside L (a + j)"
  unfolding inside_def by (intro exI [of _ a] exI [of _ n]) simp

text \<open>Every byte of the payloads of \<open>L\<close> is the same in both states.\<close>

definition keeps :: "('s \<Rightarrow> nat \<Rightarrow> byte) \<Rightarrow> (nat \<rightharpoonup> nat) \<Rightarrow> 's \<Rightarrow> 's \<Rightarrow> bool" where
  "keeps byte L s s' \<longleftrightarrow> (\<forall>x. inside L x \<longrightarrow> byte s' x = byte s x)"

lemma keepsD: "keeps byte L s s' \<Longrightarrow> L a = Some n \<Longrightarrow> j < n \<Longrightarrow> byte s' (a + j) = byte s (a + j)"
  by (simp add: keeps_def insideI)

text \<open>
  \<open>evolves fits cost room c s s'\<close>: the size limits are those of before, and at most \<open>c\<close>
  bytes of the room to grow were used up.
\<close>

definition evolves ::
  "('s \<Rightarrow> nat \<Rightarrow> bool) \<Rightarrow> ('s \<Rightarrow> nat \<Rightarrow> nat) \<Rightarrow> ('s \<Rightarrow> nat) \<Rightarrow> nat \<Rightarrow> 's \<Rightarrow> 's \<Rightarrow> bool" where
  "evolves fits cost room c s s' \<longleftrightarrow> fits s' = fits s \<and> cost s' = cost s \<and> room s \<le> room s' + c"

locale allocator =
  fixes rep :: "'s \<Rightarrow> (nat \<rightharpoonup> nat) \<Rightarrow> bool"
    and malloc :: "nat \<Rightarrow> 's \<Rightarrow> (nat \<times> 's) option"
    and free :: "nat \<Rightarrow> 's \<Rightarrow> 's option"
    and realloc :: "nat \<Rightarrow> nat \<Rightarrow> 's \<Rightarrow> (nat \<times> 's) option"
    and byte :: "'s \<Rightarrow> nat \<Rightarrow> byte"
    and fill :: "nat \<Rightarrow> byte \<Rightarrow> nat \<Rightarrow> 's \<Rightarrow> 's"
    and lo :: "'s \<Rightarrow> nat" and hi :: "'s \<Rightarrow> nat"
    and fits :: "'s \<Rightarrow> nat \<Rightarrow> bool"
    and cost :: "'s \<Rightarrow> nat \<Rightarrow> nat"
    and room :: "'s \<Rightarrow> nat"
  assumes payload: "rep s L \<Longrightarrow> L a = Some n \<Longrightarrow> 8 dvd a \<and> 0 < a \<and> lo s \<le> a \<and> a + n \<le> hi s"
    and disjoint: "rep s L \<Longrightarrow> L a = Some n \<Longrightarrow> L b = Some k \<Longrightarrow> a \<noteq> b \<Longrightarrow> a + n \<le> b \<or> b + k \<le> a"
    and malloc_law: "rep s L \<Longrightarrow> 0 < n \<Longrightarrow> fits s n \<Longrightarrow>
      malloc n s = Some (0, s) \<and> room s < cost s n \<or>
      (\<exists>p s' k. malloc n s = Some (p, s') \<and> L p = None \<and> rep s' (L(p \<mapsto> k)) \<and> n \<le> k \<and>
        keeps byte L s s' \<and> evolves fits cost room (cost s n) s s')"
    and realloc_law: "rep s L \<Longrightarrow> L a = Some m \<Longrightarrow> 0 < n \<Longrightarrow> fits s n \<Longrightarrow>
      realloc a n s = Some (0, s) \<and> room s < cost s n \<or>
      (\<exists>p s' k. realloc a n s = Some (p, s') \<and> L p = None \<and> rep s' (L(a := None, p \<mapsto> k)) \<and> n \<le> k \<and>
        (\<forall>j. j < n \<longrightarrow> j < m \<longrightarrow> byte s' (p + j) = byte s (a + j)) \<and>
        keeps byte (L(a := None)) s s' \<and> evolves fits cost room (cost s n) s s')"
    and free_law: "rep s L \<Longrightarrow> L a = Some n \<Longrightarrow>
      \<exists>s'. free a s = Some s' \<and> rep s' (L(a := None)) \<and> keeps byte (L(a := None)) s s' \<and>
        evolves fits cost room 0 s s'"
    and fill_law: "rep s L \<Longrightarrow> L p = Some k \<Longrightarrow> n \<le> k \<Longrightarrow>
      rep (fill p v n s) L \<and> evolves fits cost room 0 s (fill p v n s) \<and>
      (\<forall>x. inside L x \<longrightarrow> byte (fill p v n s) x = (if p \<le> x \<and> x < p + n then v else byte s x))"
begin

section \<open>A client with named blocks\<close>

text \<open>
  \<open>holds v s C\<close>: the client's block number \<open>i\<close> is the \<open>n\<close> bytes at \<open>p\<close> when
  \<open>C i = Some (p, n)\<close>, different numbers have different blocks, and each byte of block
  \<open>i\<close> is the pattern \<open>v i\<close>. \<open>backs\<close> is the same for given live payloads \<open>L\<close>.
\<close>

definition backs :: "(nat \<Rightarrow> byte) \<Rightarrow> 's \<Rightarrow> (nat \<rightharpoonup> nat) \<Rightarrow> (nat \<rightharpoonup> nat \<times> nat) \<Rightarrow> bool" where
  "backs v s L C \<longleftrightarrow>
     (\<forall>i p n. C i = Some (p, n) \<longrightarrow> (\<exists>k. L p = Some k \<and> n \<le> k) \<and> (\<forall>j < n. byte s (p + j) = v i)) \<and>
     (\<forall>i j p n k. C i = Some (p, n) \<longrightarrow> C j = Some (p, k) \<longrightarrow> i = j)"

definition holds :: "(nat \<Rightarrow> byte) \<Rightarrow> 's \<Rightarrow> (nat \<rightharpoonup> nat \<times> nat) \<Rightarrow> bool" where
  "holds v s C \<longleftrightarrow> (\<exists>L. rep s L \<and> backs v s L C)"

lemma backsD:
  assumes "backs v s L C" "C i = Some (p, n)"
  obtains k where "L p = Some k" "n \<le> k" "\<forall>j < n. byte s (p + j) = v i"
  using assms unfolding backs_def by blast

lemma backs_inj: "backs v s L C \<Longrightarrow> C i = Some (p, n) \<Longrightarrow> C j = Some (p, k) \<Longrightarrow> i = j"
  unfolding backs_def by blast

lemma backsI:
  assumes "\<And>i p n. C i = Some (p, n) \<Longrightarrow> \<exists>k. L p = Some k \<and> n \<le> k"
    and "\<And>i p n j. C i = Some (p, n) \<Longrightarrow> j < n \<Longrightarrow> byte s (p + j) = v i"
    and "\<And>i j p n k. C i = Some (p, n) \<Longrightarrow> C j = Some (p, k) \<Longrightarrow> i = j"
  shows "backs v s L C"
  using assms unfolding backs_def by blast

lemma holds_empty: "rep s Map.empty \<Longrightarrow> holds v s Map.empty"
  by (auto simp: holds_def backs_def)

lemma holds_block:
  assumes "holds v s C" "C i = Some (p, n)"
  shows "8 dvd p" "0 < p" "lo s \<le> p" "p + n \<le> hi s" "j < n \<Longrightarrow> byte s (p + j) = v i"
proof -
  from assms obtain L where L: "rep s L" "backs v s L C" unfolding holds_def by blast
  obtain k where k: "L p = Some k" "n \<le> k" "\<forall>j < n. byte s (p + j) = v i"
    by (rule backsD [OF L(2) assms(2)])
  from payload [OF L(1) k(1)] k(2,3)
  show "8 dvd p" "0 < p" "lo s \<le> p" "p + n \<le> hi s" "j < n \<Longrightarrow> byte s (p + j) = v i" by auto
qed

lemma holds_disjoint:
  assumes "holds v s C" "C i = Some (p, n)" "C j = Some (q, k)" "i \<noteq> j"
  shows "p + n \<le> q \<or> q + k \<le> p"
proof -
  from assms(1) obtain L where L: "rep s L" "backs v s L C" unfolding holds_def by blast
  obtain n' k' where *: "L p = Some n'" "n \<le> n'" "L q = Some k'" "k \<le> k'"
    using backsD [OF L(2) assms(2)] backsD [OF L(2) assms(3)] by metis
  have "p \<noteq> q" using backs_inj [OF L(2) assms(2)] assms(3,4) by blast
  from disjoint [OF L(1) *(1,3) this] *(2,4) show ?thesis by linarith
qed

lemma backs_keeps:
  assumes "backs v s L C" "keeps byte L s s'"
  shows "backs v s' L C"
proof (rule backsI)
  fix i p n
  assume i: "C i = Some (p, n)"
  obtain k where k: "L p = Some k" "n \<le> k" "\<forall>j < n. byte s (p + j) = v i"
    by (rule backsD [OF assms(1) i])
  show "\<exists>k. L p = Some k \<and> n \<le> k" using k(1,2) by blast
  show "byte s' (p + j) = v i" if "j < n" for j
    using keepsD [OF assms(2) k(1), of j] k(2,3) that by simp
qed (rule backs_inj [OF assms(1)])

lemma backs_drop:
  assumes "backs v s L C" "C i = Some (a, m)"
  shows "backs v s (L(a := None)) (C(i := None))"
proof (rule backsI)
  fix j q n
  assume "(C(i := None)) j = Some (q, n)"
  then have j: "C j = Some (q, n)" "j \<noteq> i" by (auto split: if_splits)
  then have "q \<noteq> a" using backs_inj [OF assms(1) j(1)] assms(2) by blast
  moreover obtain k where "L q = Some k" "n \<le> k" "\<forall>x < n. byte s (q + x) = v j"
    by (rule backsD [OF assms(1) j(1)])
  ultimately show "\<exists>k. (L(a := None)) q = Some k \<and> n \<le> k" "\<And>x. x < n \<Longrightarrow> byte s (q + x) = v j"
    by simp_all
qed (auto split: if_splits dest: backs_inj [OF assms(1)])

text \<open>
  Filling a fresh block: the common part of allocation and reallocation. \<open>L\<close> are the live
  payloads without the block, \<open>C\<close> the client's other blocks.
\<close>

lemma backs_apart:
  assumes rep: "rep s (L(p \<mapsto> k))" and p: "L p = None" "n \<le> k" and C: "backs v s L C" and q: "C j = Some (q, m)"
  shows "p \<noteq> q" "p + n \<le> q \<or> q + m \<le> p"
proof -
  obtain k' where k: "L q = Some k'" "m \<le> k'" using backsD [OF C q] by metis
  with p(1) show "p \<noteq> q" by auto
  with k show "p + n \<le> q \<or> q + m \<le> p" using disjoint [OF rep, of p k q k'] p(2) by auto
qed

text \<open>The bytes of the other blocks survive the filling of a new one.\<close>

lemma backs_kept:
  assumes rep: "rep s (L(p \<mapsto> k))" and p: "L p = None" "n \<le> k" and C: "backs v s L C" and q: "C j = Some (q, m)"
  shows "(\<exists>k'. (L(p \<mapsto> k)) q = Some k' \<and> m \<le> k') \<and> (\<forall>x < m. byte (fill p w n s) (q + x) = v j)"
proof -
  obtain k' where k': "L q = Some k'" "m \<le> k'" "\<forall>x < m. byte s (q + x) = v j"
    by (rule backsD [OF C q])
  note ap = backs_apart [OF rep p C q]
  have "byte (fill p w n s) (q + x) = v j" if "x < m" for x
  proof -
    have "inside (L(p \<mapsto> k)) (q + x)" using k' that ap by (intro insideI [of _ _ k']) auto
    moreover have "\<not> (p \<le> q + x \<and> q + x < p + n)" using ap that by linarith
    ultimately show ?thesis using fill_law [OF rep, of p k n w] p(2) k'(3) that by auto
  qed
  with k' ap(1) show ?thesis by auto
qed

lemma holds_fill:
  assumes rep: "rep s (L(p \<mapsto> k))" and p: "L p = None" "n \<le> k" and C: "backs v s L C"
  shows "holds v (fill p (v i) n s) (C(i \<mapsto> (p, n)))" "evolves fits cost room 0 s (fill p (v i) n s)"
    "8 dvd p" "0 < p" "lo s \<le> p" "p + n \<le> hi s"
    "C j = Some (q, m) \<Longrightarrow> p + n \<le> q \<or> q + m \<le> p"
proof -
  let ?L = "L(p \<mapsto> k)" and ?s = "fill p (v i) n s" and ?C = "C(i \<mapsto> (p, n))"
  have f: "rep ?s ?L" "evolves fits cost room 0 s ?s"
    "\<And>x. inside ?L x \<Longrightarrow> byte ?s x = (if p \<le> x \<and> x < p + n then v i else byte s x)"
    using fill_law [OF rep, of p k n "v i"] p(2) by auto
  show "evolves fits cost room 0 s ?s" by (rule f(2))
  show "8 dvd p" "0 < p" "lo s \<le> p" "p + n \<le> hi s" using payload [OF rep, of p k] p(2) by auto
  note apart = backs_apart [OF rep p C]
  then show "p + n \<le> q \<or> q + m \<le> p" if "C j = Some (q, m)" using that by blast
  have "backs v ?s ?L ?C"
  proof (rule backsI)
    fix j q m
    assume j: "?C j = Some (q, m)"
    have "(\<exists>k. ?L q = Some k \<and> m \<le> k) \<and> (\<forall>x < m. byte ?s (q + x) = v j)"
    proof (cases "j = i")
      case True
      with j have "q = p" "m = n" by auto
      moreover have "inside ?L (p + x)" if "x < n" for x
        using that p(2) by (intro insideI [of _ _ k]) auto
      ultimately show ?thesis using f(3) p(2) True by auto
    next
      case False
      with j have "C j = Some (q, m)" by simp
      then show ?thesis by (rule backs_kept [OF rep p C])
    qed
    then show "\<exists>k. ?L q = Some k \<and> m \<le> k" "\<And>x. x < m \<Longrightarrow> byte ?s (q + x) = v j" by blast+
  next
    fix j j' q m m'
    assume "?C j = Some (q, m)" "?C j' = Some (q, m')"
    then show "j = j'"
      using backs_inj [OF C, of j q m j' m'] apart [of j q m] apart [of j' q m'] by (auto split: if_splits)
  qed
  then show "holds v ?s ?C" unfolding holds_def using f(1) by blast
qed

text \<open>The three requests of the client.\<close>

lemma client_malloc:
  assumes H: "holds v s C" and n: "0 < n" "fits s n"
  shows "malloc n s = Some (0, s) \<and> room s < cost s n \<or>
    (\<exists>p s'. malloc n s = Some (p, s') \<and> 8 dvd p \<and> 0 < p \<and> lo s' \<le> p \<and> p + n \<le> hi s' \<and>
      (\<forall>j q m. C j = Some (q, m) \<longrightarrow> p + n \<le> q \<or> q + m \<le> p) \<and>
      holds v (fill p (v i) n s') (C(i \<mapsto> (p, n))) \<and>
      evolves fits cost room (cost s n) s (fill p (v i) n s'))"
proof -
  obtain L where L: "rep s L" "backs v s L C" using H unfolding holds_def by blast
  from malloc_law [OF L(1) n] show ?thesis
  proof
    assume "\<exists>p s' k. malloc n s = Some (p, s') \<and> L p = None \<and> rep s' (L(p \<mapsto> k)) \<and> n \<le> k \<and>
        keeps byte L s s' \<and> evolves fits cost room (cost s n) s s'"
    then obtain p s' k where run: "malloc n s = Some (p, s')" "L p = None" "rep s' (L(p \<mapsto> k))" "n \<le> k"
      "keeps byte L s s'" "evolves fits cost room (cost s n) s s'"
      by blast
    note F = holds_fill [OF run(3,2,4) backs_keeps [OF L(2) run(5)]]
    have "evolves fits cost room (cost s n) s (fill p (v i) n s')"
      using run(6) F(2) [of i] by (simp add: evolves_def)
    with run(1) F(1) [of i] F(3-) show ?thesis by blast
  qed blast
qed

lemma client_realloc:
  assumes H: "holds v s C" and i: "C i = Some (a, m)" and n: "0 < n" "fits s n"
  shows "realloc a n s = Some (0, s) \<and> room s < cost s n \<or>
    (\<exists>p s'. realloc a n s = Some (p, s') \<and> 8 dvd p \<and> 0 < p \<and> lo s' \<le> p \<and> p + n \<le> hi s' \<and>
      (\<forall>j q k. C j = Some (q, k) \<longrightarrow> j \<noteq> i \<longrightarrow> p + n \<le> q \<or> q + k \<le> p) \<and>
      (\<forall>j. j < n \<longrightarrow> j < m \<longrightarrow> byte s' (p + j) = v i) \<and>
      holds v (fill p (v i) n s') (C(i \<mapsto> (p, n))) \<and>
      evolves fits cost room (cost s n) s (fill p (v i) n s'))"
proof -
  obtain L where L: "rep s L" "backs v s L C" using H unfolding holds_def by blast
  obtain l where l: "L a = Some l" "m \<le> l" "\<forall>j < m. byte s (a + j) = v i"
    by (rule backsD [OF L(2) i])
  from realloc_law [OF L(1) l(1) n] show ?thesis
  proof
    assume "\<exists>p s' k. realloc a n s = Some (p, s') \<and> L p = None \<and> rep s' (L(a := None, p \<mapsto> k)) \<and> n \<le> k \<and>
        (\<forall>j. j < n \<longrightarrow> j < l \<longrightarrow> byte s' (p + j) = byte s (a + j)) \<and>
        keeps byte (L(a := None)) s s' \<and> evolves fits cost room (cost s n) s s'"
    then obtain p s' k where run: "realloc a n s = Some (p, s')" "L p = None" "rep s' (L(a := None, p \<mapsto> k))"
      "n \<le> k" "\<And>j. j < n \<Longrightarrow> j < l \<Longrightarrow> byte s' (p + j) = byte s (a + j)"
      "keeps byte (L(a := None)) s s'" "evolves fits cost room (cost s n) s s'"
      by blast
    have none: "(L(a := None)) p = None" using run(2) by simp
    note F = holds_fill [OF run(3) none run(4) backs_keeps [OF backs_drop [OF L(2) i] run(6)]]
    have "\<forall>j. j < n \<longrightarrow> j < m \<longrightarrow> byte s' (p + j) = v i"
      using run(5) l(2,3) by simp
    moreover have "evolves fits cost room (cost s n) s (fill p (v i) n s')"
      using run(7) F(2) [of i] by (simp add: evolves_def)
    moreover have "\<forall>j q k. C j = Some (q, k) \<longrightarrow> j \<noteq> i \<longrightarrow> p + n \<le> q \<or> q + k \<le> p"
    proof (intro allI impI)
      fix j q k
      assume "C j = Some (q, k)" "j \<noteq> i"
      then have "(C(i := None)) j = Some (q, k)" by simp
      then show "p + n \<le> q \<or> q + k \<le> p" by (rule F(7))
    qed
    ultimately show ?thesis using run(1) F(1) [of i, unfolded fun_upd_upd] F(3-6) by blast
  qed blast
qed

lemma client_free:
  assumes H: "holds v s C" and i: "C i = Some (a, m)"
  shows "\<exists>s'. free a s = Some s' \<and> holds v s' (C(i := None)) \<and> evolves fits cost room 0 s s'"
proof -
  obtain L where L: "rep s L" "backs v s L C" using H unfolding holds_def by blast
  obtain l where l: "L a = Some l" using backsD [OF L(2) i] by metis
  from free_law [OF L(1) l] obtain s' where run: "free a s = Some s'" "rep s' (L(a := None))"
    "keeps byte (L(a := None)) s s'" "evolves fits cost room 0 s s'"
    by blast
  have "backs v s' (L(a := None)) (C(i := None))"
    by (rule backs_keeps [OF backs_drop [OF L(2) i] run(3)])
  with run show ?thesis unfolding holds_def by blast
qed

end

section \<open>The package keeps the contract\<close>

text \<open>
  The live payloads of a state: the header word of a block is not usable, all the rest
  up to the next header is.
\<close>

definition usable :: "blocks \<Rightarrow> nat \<rightharpoonup> nat" where
  "usable B a = map_option (\<lambda>sz. sz - 4) (allocs B a)"

definition live :: "mm_state \<Rightarrow> (nat \<rightharpoonup> nat) \<Rightarrow> bool" where
  "live s L \<longleftrightarrow> (\<exists>B F. heap_inv s B (frees B) F \<and> L = usable B)"

definition mem_byte :: "mm_state \<Rightarrow> nat \<Rightarrow> byte" where
  "mem_byte s x = mem s (w32 x)"

definition mem_fill :: "nat \<Rightarrow> byte \<Rightarrow> nat \<Rightarrow> mm_state \<Rightarrow> mm_state" where
  "mem_fill p v n s = s\<lparr>mem := memset (mem s) (w32 p) v (w32 n)\<rparr>"

definition spare :: "mm_state \<Rightarrow> nat" where
  "spare s = unat (mem_max_addr s) - brk s"

definition unat_ptr :: "(addr \<times> mm_state) option \<Rightarrow> (nat \<times> mm_state) option" where
  "unat_ptr = map_option (map_prod unat id)"

lemma unat_ptr_simps [simp]:
  "unat_ptr (Some (p, s)) = Some (unat p, s)" "unat_ptr None = None"
  by (simp_all add: unat_ptr_def)

lemma usable_Some: "usable B a = Some n \<longleftrightarrow> (\<exists>sz. B a = Some (sz, True) \<and> n = sz - 4)"
  by (auto simp: usable_def allocs_Some)

lemma usable_upd:
  "allocs B' = (allocs B)(a := None) \<Longrightarrow> usable B' = (usable B)(a := None)"
  "allocs B' = (allocs B)(a \<mapsto> k) \<Longrightarrow> usable B' = (usable B)(a \<mapsto> k - 4)"
  "allocs B' = (allocs B)(b := None, a \<mapsto> k) \<Longrightarrow> usable B' = (usable B)(b := None, a \<mapsto> k - 4)"
  by (simp_all add: usable_def fun_eq_iff)

lemma grows_evolves:
  assumes "grows c s s'" "vars_ok s'"
  shows "evolves fits_word demand spare c s s'"
proof -
  have "brk s' \<le> unat (mem_max_addr s')" using assms(2) by (simp add: vars_ok_def memlib_inv_def brk_def)
  with assms(1) show ?thesis
    by (auto simp: evolves_def grows_def fits_word_def demand_def spare_def fun_eq_iff)
qed

lemma quiet_keeps:
  assumes T: "tiled lo hi B" and q: "quiet lo' hi' B' (view (mem s)) (view (mem s'))"
    and L: "\<And>a n. L a = Some n \<Longrightarrow> usable B a = Some n \<and> B' a = B a"
  shows "keeps mem_byte L s s'"
  unfolding keeps_def inside_def mem_byte_def
proof (intro allI impI)
  fix x
  assume "\<exists>a n. L a = Some n \<and> a \<le> x \<and> x < a + n"
  then obtain a n where a: "L a = Some n" "a \<le> x" "x < a + n" by blast
  obtain sz where "allocs B a = Some sz" "n = sz - 4" "B' a = B a"
    using L [OF a(1)] by (auto simp: usable_Some allocs_Some)
  with quiet_bytes [OF T q, of a sz x] a(2,3) show "mem s' (w32 x) = mem s (w32 x)" by simp
qed

lemma spare_less:
  assumes "vars_ok s"
  shows "spare s < c \<longleftrightarrow> unat (mem_max_addr s) < brk s + c"
  using assms by (auto simp: spare_def vars_ok_def memlib_inv_def brk_def)

lemma live_payload:
  assumes "live s L" "L a = Some n"
  shows "8 dvd a \<and> 0 < a \<and> heap_lo s \<le> a \<and> a + n \<le> brk s" "a + n < 2 ^ 32" "0 < n" "unat (w32 a) = a"
proof -
  from assms obtain B F sz where "heap_inv s B (frees B) F" "B a = Some (sz, True)" "n = sz - 4"
    by (auto simp: live_def usable_Some)
  with tiledD [OF heap_invD(2) [OF this(1)] this(2)]
  show "8 dvd a \<and> 0 < a \<and> heap_lo s \<le> a \<and> a + n \<le> brk s" "a + n < 2 ^ 32" "0 < n" "unat (w32 a) = a"
    by (auto simp: unat_w32)
qed

lemma live_disjoint:
  assumes "live s L" "L a = Some n" "L b = Some k" "a \<noteq> b"
  shows "a + n \<le> b \<or> b + k \<le> a"
proof -
  from assms(1) obtain B F where inv: "heap_inv s B (frees B) F" "L = usable B" by (auto simp: live_def)
  from assms(2,3) obtain sz sz' where "B a = Some (sz, True)" "n = sz - 4" "B b = Some (sz', True)" "k = sz' - 4"
    by (auto simp: inv(2) usable_Some)
  with tiled_disjoint [OF heap_invD(2) [OF inv(1)] this(1,3) assms(4)] show ?thesis by linarith
qed

lemma live_malloc:
  assumes live: "live s L" and n: "0 < n" "fits_word s n"
  shows "unat_ptr (mm_malloc (w32 n) s) = Some (0, s) \<and> spare s < demand s n \<or>
    (\<exists>p s' k. unat_ptr (mm_malloc (w32 n) s) = Some (p, s') \<and> L p = None \<and> live s' (L(p \<mapsto> k)) \<and> n \<le> k \<and>
      keeps mem_byte L s s' \<and> evolves fits_word demand spare (demand s n) s s')"
proof -
  obtain B F where inv: "heap_inv s B (frees B) F" and L: "L = usable B"
    using live by (auto simp: live_def)
  from mm_malloc_sim [OF inv n] show ?thesis
  proof
    assume "mm_malloc (w32 n) s = Some (NULL, s) \<and> unat (mem_max_addr s) < brk s + demand s n"
    with spare_less [OF heap_invD(1) [OF inv]] show ?thesis by (simp add: NULL_def)
  next
    assume "\<exists>p s' B' F'. mm_malloc (w32 n) s = Some (w32 p, s') \<and> heap_inv s' B' (frees B') F' \<and>
      allocated n s B p s' B' \<and> grows (demand s n) s s'"
    then obtain p s' B' F' where run: "mm_malloc (w32 n) s = Some (w32 p, s')" "heap_inv s' B' (frees B') F'"
      "grows (demand s n) s s'" and al: "allocated n s B p s' B'"
      by blast
    from al obtain k where k: "allocs B' = (allocs B)(p \<mapsto> k)" "n + 4 \<le> k" "allocs B p = None"
      and q: "quiet (heap_lo s) (brk s') B (view (mem s)) (view (mem s'))"
      by (auto simp: allocated_def)
    have live': "live s' (L(p \<mapsto> k - 4))"
      unfolding live_def using run(2) usable_upd(2) [OF k(1)] L by metis
    have "unat_ptr (mm_malloc (w32 n) s) = Some (p, s')"
      using run(1) live_payload(4) [OF live', of p] by simp
    moreover have "L p = None" using k(3) by (simp add: L usable_def)
    moreover have "keeps mem_byte L s s'"
      by (rule quiet_keeps [OF heap_invD(2) [OF inv] q]) (simp add: L)
    moreover have "n \<le> k - 4" using k(2) by simp
    ultimately show ?thesis
      using live' grows_evolves [OF run(3) heap_invD(1) [OF run(2)]] by blast
  qed
qed

lemma live_realloc:
  assumes live: "live s L" and a: "L a = Some m" and n: "0 < n" "fits_word s n"
  shows "unat_ptr (mm_realloc (w32 a) (w32 n) s) = Some (0, s) \<and> spare s < demand s n \<or>
    (\<exists>p s' k. unat_ptr (mm_realloc (w32 a) (w32 n) s) = Some (p, s') \<and> L p = None \<and>
      live s' (L(a := None, p \<mapsto> k)) \<and> n \<le> k \<and>
      (\<forall>j. j < n \<longrightarrow> j < m \<longrightarrow> mem_byte s' (p + j) = mem_byte s (a + j)) \<and>
      keeps mem_byte (L(a := None)) s s' \<and> evolves fits_word demand spare (demand s n) s s')"
proof -
  obtain B F where inv: "heap_inv s B (frees B) F" and L: "L = usable B"
    using live by (auto simp: live_def)
  from a obtain sz where sz: "allocs B a = Some sz" "m = sz - 4" by (auto simp: L usable_def)
  from mm_realloc_sim [OF inv sz(1) n] show ?thesis
  proof
    assume "mm_realloc (w32 a) (w32 n) s = Some (NULL, s) \<and> unat (mem_max_addr s) < brk s + demand s n"
    with spare_less [OF heap_invD(1) [OF inv]] show ?thesis by (simp add: NULL_def)
  next
    assume "\<exists>p s' B' F'. mm_realloc (w32 a) (w32 n) s = Some (w32 p, s') \<and> heap_inv s' B' (frees B') F' \<and>
      reallocated n a sz s B p s' B' \<and> grows (demand s n) s s'"
    then obtain p s' B' F' where run: "mm_realloc (w32 a) (w32 n) s = Some (w32 p, s')"
      "heap_inv s' B' (frees B') F'" "grows (demand s n) s s'" and re: "reallocated n a sz s B p s' B'"
      by blast
    from re obtain k where k: "allocs B' = (allocs B)(a := None, p \<mapsto> k)" "n + 4 \<le> k" "allocs B p = None"
      and copy: "\<forall>j. j < n \<longrightarrow> j + 4 < sz \<longrightarrow> mem s' (w32 (p + j)) = mem s (w32 (a + j))"
      and q: "quiet (heap_lo s) (brk s') (B(a := None)) (view (mem s)) (view (mem s'))"
      by (auto simp: reallocated_def)
    have live': "live s' (L(a := None, p \<mapsto> k - 4))"
      unfolding live_def using run(2) usable_upd(3) [OF k(1)] L by metis
    have "unat_ptr (mm_realloc (w32 a) (w32 n) s) = Some (p, s')"
      using run(1) live_payload(4) [OF live', of p] by simp
    moreover have "L p = None" using k(3) by (simp add: L usable_def)
    moreover have "keeps mem_byte (L(a := None)) s s'"
      by (rule quiet_keeps [OF heap_invD(2) [OF inv] q]) (auto simp: L split: if_splits)
    moreover have "n \<le> k - 4" using k(2) by simp
    moreover have "\<forall>j. j < n \<longrightarrow> j < m \<longrightarrow> mem_byte s' (p + j) = mem_byte s (a + j)"
      using copy sz(2) by (simp add: mem_byte_def)
    ultimately show ?thesis
      using live' grows_evolves [OF run(3) heap_invD(1) [OF run(2)]] by blast
  qed
qed

lemma live_free:
  assumes live: "live s L" and a: "L a = Some n"
  shows "\<exists>s'. mm_free (w32 a) s = Some s' \<and> live s' (L(a := None)) \<and> keeps mem_byte (L(a := None)) s s' \<and>
    evolves fits_word demand spare 0 s s'"
proof -
  obtain B F where inv: "heap_inv s B (frees B) F" and L: "L = usable B"
    using live by (auto simp: live_def)
  from a obtain sz where "allocs B a = Some sz" by (auto simp: L usable_def)
  from mm_free_allocs [OF inv this] obtain s' B' F' where
    *: "mm_free (w32 a) s = Some s'" "heap_inv s' B' (frees B') F'" "allocs B' = (allocs B)(a := None)"
    "quiet (heap_lo s) (brk s) (B(a := None)) (view (mem s)) (view (mem s'))" "grows 0 s s'" .
  have "live s' (L(a := None))"
    unfolding live_def using *(2) usable_upd(1) [OF *(3)] L by metis
  moreover have "keeps mem_byte (L(a := None)) s s'"
    by (rule quiet_keeps [OF heap_invD(2) [OF inv] *(4)]) (auto simp: L split: if_splits)
  ultimately show ?thesis using *(1) grows_evolves [OF *(5) heap_invD(1) [OF *(2)]] by blast
qed

text \<open>A client may write anything into its live payloads.\<close>

lemma live_write:
  assumes live: "live s L" and w: "\<And>x. x < 2 ^ 32 \<Longrightarrow> m (w32 x) \<noteq> mem s (w32 x) \<Longrightarrow> inside L x"
  shows "live (s\<lparr>mem := m\<rparr>) L"
proof -
  obtain B F where inv: "heap_inv s B (frees B) F" and L: "L = usable B"
    using live by (auto simp: live_def)
  have "heap_inv (s\<lparr>mem := m\<rparr>) B (frees B) F"
  proof (rule client_write_inv [OF inv])
    fix x :: nat
    assume "x < 2 ^ 32" "m (w32 x) \<noteq> mem s (w32 x)"
    from w [OF this] obtain a n where "usable B a = Some n" "a \<le> x" "x < a + n"
      unfolding inside_def L by blast
    then show "\<exists>a sz. allocs B a = Some sz \<and> a \<le> x \<and> x + 4 < a + sz"
      by (intro exI [of _ a] exI [of _ "n + 4"]) (use tiledD(3) [OF heap_invD(2) [OF inv], of a] in
        \<open>auto simp: usable_Some allocs_Some\<close>)
  qed
  then show ?thesis unfolding live_def L by blast
qed

lemma live_fill:
  assumes live: "live s L" and p: "L p = Some k" "n \<le> k"
  shows "live (mem_fill p v n s) L \<and> evolves fits_word demand spare 0 s (mem_fill p v n s) \<and>
    (\<forall>x. inside L x \<longrightarrow> mem_byte (mem_fill p v n s) x =
      (if p \<le> x \<and> x < p + n then v else mem_byte s x))"
proof -
  have at: "mem_byte (mem_fill p v n s) x = (if p \<le> x \<and> x < p + n then v else mem_byte s x)"
    if "x < 2 ^ 32" for x
    using memset_at [of p n x] live_payload(2) [OF live p(1)] p(2) that
    by (simp add: mem_byte_def mem_fill_def)
  have "live (mem_fill p v n s) L"
    unfolding mem_fill_def
  proof (rule live_write [OF live])
    fix x :: nat
    assume "x < 2 ^ 32" "memset (mem s) (w32 p) v (w32 n) (w32 x) \<noteq> mem s (w32 x)"
    with at [of x] have "p \<le> x \<and> x < p + n" by (simp add: mem_byte_def mem_fill_def split: if_splits)
    moreover from this p(2) have "x - p < k" by linarith
    ultimately show "inside L x" using insideI [of L p k "x - p"] p(1) by simp
  qed
  moreover have "x < 2 ^ 32" if "inside L x" for x
    using that live_payload(2) [OF live] unfolding inside_def by (meson less_trans)
  moreover have "evolves fits_word demand spare 0 s (mem_fill p v n s)"
    by (simp add: evolves_def fits_word_def demand_def spare_def mem_fill_def fun_eq_iff)
  ultimately show ?thesis using at by blast
qed

interpretation mm: allocator live
  "\<lambda>n s. unat_ptr (mm_malloc (w32 n) s)" "\<lambda>a s. mm_free (w32 a) s"
  "\<lambda>a n s. unat_ptr (mm_realloc (w32 a) (w32 n) s)" mem_byte mem_fill heap_lo brk fits_word demand spare
  by unfold_locales
    (rule live_payload(1), assumption+, rule live_disjoint, assumption+, rule live_malloc, assumption+,
      rule live_realloc, assumption+, rule live_free, assumption+, rule live_fill, assumption+)

end
