(* ===== verification/Mm_Reach.thy ===== *)
theory Mm_Reach
  imports Mm_Contract
begin

text \<open>
  The package as a state machine. A state is the package's state together with the blocks
  the client holds, from payload addresses to the number of bytes that were requested.
  The steps are the client's calls of \<open>mm_malloc\<close>, \<open>mm_free\<close> and \<open>mm_realloc\<close> and its
  stores into the blocks it holds. The invariant of the reachable states follows from
  the contract alone.
\<close>

section \<open>The machine\<close>

type_synonym config = "mm_state \<times> (nat \<rightharpoonup> nat)"

inductive mm_step :: "config \<Rightarrow> config \<Rightarrow> bool" where
  malloc: "mm_malloc (w32 n) s = Some (p, s') \<Longrightarrow> 0 < n \<Longrightarrow> fits_word s n \<Longrightarrow> p \<noteq> NULL \<Longrightarrow>
    mm_step (s, L) (s', L(unat p \<mapsto> n))"
| malloc_null: "mm_malloc (w32 n) s = Some (NULL, s') \<Longrightarrow> fits_word s n \<Longrightarrow> mm_step (s, L) (s', L)"
| free: "mm_free (w32 a) s = Some s' \<Longrightarrow> L a = Some n \<Longrightarrow> mm_step (s, L) (s', L(a := None))"
| realloc: "mm_realloc (w32 a) (w32 n) s = Some (p, s') \<Longrightarrow> L a = Some m \<Longrightarrow> 0 < n \<Longrightarrow> fits_word s n \<Longrightarrow>
    p \<noteq> NULL \<Longrightarrow> mm_step (s, L) (s', L(a := None, unat p \<mapsto> n))"
| realloc_null: "mm_realloc (w32 a) (w32 n) s = Some (NULL, s') \<Longrightarrow> L a = Some m \<Longrightarrow> fits_word s n \<Longrightarrow>
    mm_step (s, L) (s', L)"
| store: "L a = Some n \<Longrightarrow> j < n \<Longrightarrow> mm_step (s, L) (s\<lparr>mem := PUTB (mem s) (w32 (a + j)) v\<rparr>, L)"

inductive mm_reachable :: "config \<Rightarrow> bool" where
  start: "init_ok libc_malloc pg \<Longrightarrow> mm_init libc_malloc pg s0 = Some (Inr (0, s)) \<Longrightarrow>
    mm_reachable (s, Map.empty)"
| step: "mm_reachable c \<Longrightarrow> mm_step c c' \<Longrightarrow> mm_reachable c'"

inductive_cases mm_stepE: "mm_step (s, L) (s', L')"

section \<open>The invariant of the reachable states\<close>

text \<open>The blocks the client holds are live payloads, at least as large as requested.\<close>

definition covers :: "mm_state \<Rightarrow> (nat \<rightharpoonup> nat) \<Rightarrow> bool" where
  "covers s L \<longleftrightarrow> (\<exists>M. live s M \<and> dom L = dom M \<and> (\<forall>a n. L a = Some n \<longrightarrow> n \<le> the (M a)))"

lemma coversD:
  assumes "covers s L" "L a = Some n"
  obtains M k where "live s M" "M a = Some k" "n \<le> k" "dom L = dom M"
  using assms unfolding covers_def by (metis domD domI option.sel)

lemma covers_inside:
  assumes "dom L = dom M" "\<forall>a n. L a = Some n \<longrightarrow> n \<le> the (M a)" "L a = Some n" "j < n"
  shows "inside M (a + j)"
proof -
  obtain k where "M a = Some k" using assms(1,3) by blast
  moreover from this assms(2,3) have "n \<le> k" by force
  ultimately show ?thesis using insideI [of M a k j] assms(4) by simp
qed

lemma covers_empty:
  assumes "heap_inv s (init_blocks base n) (frees (init_blocks base n)) F"
  shows "covers s Map.empty"
proof -
  have "usable (init_blocks base n) = Map.empty" by (simp add: usable_def fun_eq_iff)
  with assms have "live s Map.empty" unfolding live_def by metis
  then show ?thesis unfolding covers_def by auto
qed

lemma covers_init:
  assumes "init_ok libc_malloc pg" "mm_init libc_malloc pg s0 = Some (Inr (0, s))"
  shows "covers s Map.empty"
  using mm_init_sim [OF assms(1), of s0] assms(2) covers_empty by auto

lemma covers_malloc:
  assumes c: "covers s L" and run: "mm_malloc (w32 n) s = Some (p, s')" and n: "0 < n" "fits_word s n" and p: "p \<noteq> NULL"
  shows "covers s' (L(unat p \<mapsto> n))"
proof -
  obtain M where M: "live s M" "dom L = dom M" "\<forall>a n. L a = Some n \<longrightarrow> n \<le> the (M a)"
    using c unfolding covers_def by blast
  have "unat p \<noteq> 0" using p by (simp add: NULL_def unat_eq_0)
  with live_malloc [OF M(1) n] run obtain k where "live s' (M(unat p \<mapsto> k))" "n \<le> k"
    by auto
  then show ?thesis unfolding covers_def using M(2,3) by (intro exI [of _ "M(unat p \<mapsto> k)"]) auto
qed

lemma covers_realloc:
  assumes c: "covers s L" and run: "mm_realloc (w32 a) (w32 n) s = Some (p, s')" and a: "L a = Some m"
    and n: "0 < n" "fits_word s n" and p: "p \<noteq> NULL"
  shows "covers s' (L(a := None, unat p \<mapsto> n))"
proof -
  obtain M where M: "live s M" "dom L = dom M" "\<forall>a n. L a = Some n \<longrightarrow> n \<le> the (M a)"
    using c unfolding covers_def by blast
  obtain m' where a': "M a = Some m'" using a M(2) by blast
  have "unat p \<noteq> 0" using p by (simp add: NULL_def unat_eq_0)
  with live_realloc [OF M(1) a' n] run obtain k where "live s' (M(a := None, unat p \<mapsto> k))" "n \<le> k"
    by auto
  then show ?thesis unfolding covers_def using M(2,3)
    by (intro exI [of _ "M(a := None, unat p \<mapsto> k)"]) auto
qed

lemma covers_free:
  assumes c: "covers s L" and run: "mm_free (w32 a) s = Some s'" and a: "L a = Some n"
  shows "covers s' (L(a := None))"
proof -
  obtain M where M: "live s M" "dom L = dom M" "\<forall>a n. L a = Some n \<longrightarrow> n \<le> the (M a)"
    using c unfolding covers_def by blast
  obtain m' where a': "M a = Some m'" using a M(2) by blast
  from live_free [OF M(1) a'] run have "live s' (M(a := None))" by auto
  then show ?thesis unfolding covers_def using M(2,3) by (intro exI [of _ "M(a := None)"]) auto
qed

text \<open>A call that returns the null pointer changes nothing.\<close>

lemma mm_malloc_null:
  assumes c: "covers s L" and run: "mm_malloc (w32 n) s = Some (NULL, s')" and n: "fits_word s n"
  shows "s' = s"
proof (cases "n = 0")
  case True
  with run show ?thesis by (simp add: mm_malloc_0)
next
  case False
  obtain M where M: "live s M" using c unfolding covers_def by blast
  from live_malloc [OF M _ n] False run show ?thesis
    by (auto simp: NULL_def dest: live_payload(1))
qed

lemma mm_realloc_null:
  assumes c: "covers s L" and run: "mm_realloc (w32 a) (w32 n) s = Some (NULL, s')" and a: "L a = Some m"
    and n: "fits_word s n"
  shows "s' = s"
proof (cases "n = 0")
  case True
  with run show ?thesis by (simp add: mm_malloc_0 mm_realloc_def)
next
  case False
  obtain M where M: "live s M" "dom L = dom M" using c unfolding covers_def by blast
  obtain m' where a': "M a = Some m'" using a M(2) by blast
  from live_realloc [OF M(1) a' _ n] False run show ?thesis
    by (auto simp: NULL_def dest: live_payload(1))
qed

lemma covers_store:
  assumes c: "covers s L" and a: "L a = Some n" "j < n"
  shows "covers (s\<lparr>mem := PUTB (mem s) (w32 (a + j)) v\<rparr>) L"
proof -
  obtain M where M: "live s M" "dom L = dom M" "\<forall>a n. L a = Some n \<longrightarrow> n \<le> the (M a)"
    using c unfolding covers_def by blast
  have ins: "inside M (a + j)" by (rule covers_inside [OF M(2,3) a])
  then have lt: "a + j < 2 ^ 32"
    using live_payload(2) [OF M(1)] unfolding inside_def by (meson less_trans)
  have "live (s\<lparr>mem := PUTB (mem s) (w32 (a + j)) v\<rparr>) M"
  proof (rule live_write [OF M(1)])
    fix x :: nat
    assume "x < 2 ^ 32" "PUTB (mem s) (w32 (a + j)) v (w32 x) \<noteq> mem s (w32 x)"
    then have "x = a + j" using lt w32_eq_iff [of x "a + j"] by (simp add: PUTB_at split: if_splits)
    with ins show "inside M x" by simp
  qed
  with M(2,3) show ?thesis unfolding covers_def by blast
qed

theorem mm_step_covers: "mm_step (s, L) (s', L') \<Longrightarrow> covers s L \<Longrightarrow> covers s' L'"
  by (erule mm_stepE)
    (auto intro: covers_malloc covers_free covers_realloc covers_store dest: mm_malloc_null mm_realloc_null)

lemma reachable_covers: "mm_reachable c \<Longrightarrow> covers (fst c) (snd c)"
proof (induction rule: mm_reachable.induct)
  case (start libc_malloc pg s0 s)
  then show ?case by (simp add: covers_init)
next
  case (step c c')
  then show ?case using mm_step_covers by (metis prod.collapse)
qed

section \<open>The calls in reachable states\<close>

lemma covers_keeps:
  assumes "dom L = dom M" "\<forall>a n. L a = Some n \<longrightarrow> n \<le> the (M a)" "keeps byte M s t"
  shows "keeps byte L s t"
  unfolding keeps_def
proof (intro allI impI)
  fix x
  assume "inside L x"
  then obtain a n where "L a = Some n" "a \<le> x" "x < a + n" unfolding inside_def by blast
  with covers_inside [OF assms(1,2), of a n "x - a"] have "inside M x" by simp
  with assms(3) show "byte t x = byte s x" by (simp add: keeps_def)
qed

lemma covers_keeps_del:
  assumes "dom L = dom M" "\<forall>a n. L a = Some n \<longrightarrow> n \<le> the (M a)" "keeps byte (M(a := None)) s t"
  shows "keeps byte (L(a := None)) s t"
  by (rule covers_keeps [OF _ _ assms(3)]) (use assms(1,2) in auto)

lemma covers_payload:
  assumes "covers s L" "L a = Some n"
  shows "8 dvd a" "0 < a" "heap_lo s \<le> a" "a + n \<le> brk s" "a + n < 2 ^ 32" "unat (w32 a) = a"
proof -
  obtain M k where M: "live s M" "M a = Some k" "n \<le> k" by (rule coversD [OF assms])
  from live_payload [OF M(1,2)] M(3)
  show "8 dvd a" "0 < a" "heap_lo s \<le> a" "a + n \<le> brk s" "a + n < 2 ^ 32" "unat (w32 a) = a" by auto
qed

lemma covers_disjoint:
  assumes "covers s L" "L a = Some n" "L b = Some m" "a \<noteq> b"
  shows "a + n \<le> b \<or> b + m \<le> a"
proof -
  obtain M where M: "live s M" "dom L = dom M" "\<forall>a n. L a = Some n \<longrightarrow> n \<le> the (M a)"
    using assms(1) unfolding covers_def by blast
  obtain k l where "M a = Some k" "M b = Some l" using assms(2,3) M(2) by blast
  moreover from this M(3) assms(2,3) have "n \<le> k" "m \<le> l" by force+
  ultimately show ?thesis using live_disjoint [OF M(1) _ _ assms(4)] by fastforce
qed

lemma covers_malloc_spec:
  assumes c: "covers s L" and n: "0 < n" "fits_word s n"
  shows "mm_malloc (w32 n) s = Some (NULL, s) \<and> spare s < demand s n \<or>
    (\<exists>p s'. mm_malloc (w32 n) s = Some (w32 p, s') \<and> L p = None \<and> covers s' (L(p \<mapsto> n)) \<and>
      w32 p \<noteq> NULL \<and> keeps mem_byte L s s' \<and> evolves fits_word demand spare (demand s n) s s')"
proof -
  obtain M where M: "live s M" "dom L = dom M" "\<forall>a n. L a = Some n \<longrightarrow> n \<le> the (M a)"
    using c unfolding covers_def by blast
  from live_malloc [OF M(1) n] show ?thesis
  proof
    assume "unat_ptr (mm_malloc (w32 n) s) = Some (0, s) \<and> spare s < demand s n"
    then show ?thesis by (auto simp: unat_ptr_def NULL_def unat_eq_0)
  next
    assume "\<exists>p s' k. unat_ptr (mm_malloc (w32 n) s) = Some (p, s') \<and> M p = None \<and> live s' (M(p \<mapsto> k)) \<and>
      n \<le> k \<and> keeps mem_byte M s s' \<and> evolves fits_word demand spare (demand s n) s s'"
    then obtain p s' k where *: "unat_ptr (mm_malloc (w32 n) s) = Some (p, s')" "M p = None"
      "live s' (M(p \<mapsto> k))" "n \<le> k" "keeps mem_byte M s s'" "evolves fits_word demand spare (demand s n) s s'"
      by blast
    then have run: "mm_malloc (w32 n) s = Some (w32 p, s')" by (auto simp: unat_ptr_def)
    have p: "unat (w32 p) = p" "0 < p" using live_payload [OF *(3), of p k] by auto
    then have "w32 p \<noteq> NULL" by (auto simp: NULL_def)
    with covers_malloc [OF c run n] p run covers_keeps [OF M(2,3) *(5)] *(2,6) M(2) show ?thesis by auto
  qed
qed

lemma covers_realloc_spec:
  assumes c: "covers s L" and a: "L a = Some m" and n: "0 < n" "fits_word s n"
  shows "mm_realloc (w32 a) (w32 n) s = Some (NULL, s) \<and> spare s < demand s n \<or>
    (\<exists>p s'. mm_realloc (w32 a) (w32 n) s = Some (w32 p, s') \<and> L p = None \<and>
      covers s' (L(a := None, p \<mapsto> n)) \<and> w32 p \<noteq> NULL \<and>
      (\<forall>j. j < n \<longrightarrow> j < m \<longrightarrow> mem_byte s' (p + j) = mem_byte s (a + j)) \<and>
      keeps mem_byte (L(a := None)) s s' \<and> evolves fits_word demand spare (demand s n) s s')"
proof -
  obtain M where M: "live s M" "dom L = dom M" "\<forall>a n. L a = Some n \<longrightarrow> n \<le> the (M a)"
    using c unfolding covers_def by blast
  obtain m' where a': "M a = Some m'" "m \<le> m'" using a M(2,3) by force
  from live_realloc [OF M(1) a'(1) n] show ?thesis
  proof
    assume "unat_ptr (mm_realloc (w32 a) (w32 n) s) = Some (0, s) \<and> spare s < demand s n"
    then show ?thesis by (auto simp: unat_ptr_def NULL_def unat_eq_0)
  next
    assume "\<exists>p s' k. unat_ptr (mm_realloc (w32 a) (w32 n) s) = Some (p, s') \<and> M p = None \<and>
      live s' (M(a := None, p \<mapsto> k)) \<and> n \<le> k \<and>
      (\<forall>j. j < n \<longrightarrow> j < m' \<longrightarrow> mem_byte s' (p + j) = mem_byte s (a + j)) \<and>
      keeps mem_byte (M(a := None)) s s' \<and> evolves fits_word demand spare (demand s n) s s'"
    then obtain p s' k where *: "unat_ptr (mm_realloc (w32 a) (w32 n) s) = Some (p, s')" "M p = None"
      "live s' (M(a := None, p \<mapsto> k))" "n \<le> k"
      "\<forall>j. j < n \<longrightarrow> j < m' \<longrightarrow> mem_byte s' (p + j) = mem_byte s (a + j)"
      "keeps mem_byte (M(a := None)) s s'" "evolves fits_word demand spare (demand s n) s s'"
      by blast
    then have run: "mm_realloc (w32 a) (w32 n) s = Some (w32 p, s')" by (auto simp: unat_ptr_def)
    have p: "unat (w32 p) = p" "0 < p" using live_payload [OF *(3), of p k] by auto
    then have nn: "w32 p \<noteq> NULL" by (auto simp: NULL_def)
    note L' = covers_keeps_del [OF M(2,3) *(6)]
    have "\<forall>j. j < n \<longrightarrow> j < m \<longrightarrow> mem_byte s' (p + j) = mem_byte s (a + j)"
      using *(5) a'(2) by auto
    with covers_realloc [OF c run a n nn] p(1) run nn L' *(2,7) M(2) show ?thesis by auto
  qed
qed

lemma covers_free_spec:
  assumes c: "covers s L" and a: "L a = Some n"
  shows "\<exists>s'. mm_free (w32 a) s = Some s' \<and> covers s' (L(a := None)) \<and> keeps mem_byte (L(a := None)) s s' \<and>
    evolves fits_word demand spare 0 s s'"
proof -
  obtain M where M: "live s M" "dom L = dom M" "\<forall>a n. L a = Some n \<longrightarrow> n \<le> the (M a)"
    using c unfolding covers_def by blast
  obtain m where "M a = Some m" using a M(2) by blast
  from live_free [OF M(1) this] obtain s' where
    *: "mm_free (w32 a) s = Some s'" "keeps mem_byte (M(a := None)) s s'" "evolves fits_word demand spare 0 s s'"
    by blast
  with covers_free [OF c *(1) a] covers_keeps_del [OF M(2,3) *(2)] *(1,3) show ?thesis by blast
qed

end
