(* ===== verification/Mm_Demo.thy ===== *)
theory Mm_Demo
  imports Mm_Reach
begin

text \<open>
  Concrete states on which the properties are instantiated: the package initialised with a
  heap area at address \<^verbatim>\<open>0x10000000\<close> and 4096-byte pages, and the same after one
  request for 100 bytes.
\<close>

definition demo_libc :: "size_t \<Rightarrow> addr" where
  "demo_libc n = 0x10000000"

definition blank :: mm_state where
  "blank = \<lparr>mem = \<lambda>_. 0, mem_start_brk = 0, mem_brk = 0, mem_max_addr = 0, free_lists = [],
     PAGE_SIZE = 0, ADJUSTED_PAGESIZE = 0, heap_start = 0, heap_end = 0\<rparr>"

definition demo :: mm_state where
  "demo = (case mm_init demo_libc 4096 blank of Some (Inr (_, s)) \<Rightarrow> s | _ \<Rightarrow> blank)"

definition demo_ptr :: addr where
  "demo_ptr = (case mm_malloc 100 demo of Some (p, _) \<Rightarrow> p | None \<Rightarrow> 0)"

definition demo_100 :: mm_state where
  "demo_100 = (case mm_malloc 100 demo of Some (_, s) \<Rightarrow> s | None \<Rightarrow> blank)"

lemma demo_pages: "adjusted (2 * unat (4096 :: 32 word)) = 8200"
  by (simp add: adjusted_def Let_def)

lemma demo_init_ok: "init_ok demo_libc 4096"
  by (simp add: init_ok_def demo_libc_def area_ok_def NULL_def adjusted_def Let_def)

lemma demo_init:
  "mm_init demo_libc 4096 blank = Some (Inr (0, demo))"
  "unat (ADJUSTED_PAGESIZE demo) = 8200" "unat (mem_max_addr demo) = 0x10000000 + 20971520"
  "brk demo = 0x10000000 + 8216"
  using mm_init_sim [OF demo_init_ok, of blank, unfolded demo_pages]
  by (auto simp: demo_def demo_libc_def)

lemma demo_reachable: "mm_reachable (demo, Map.empty)"
  by (rule mm_reachable.start [OF demo_init_ok demo_init(1)])

lemma demo_covers: "covers demo Map.empty"
  using reachable_covers [OF demo_reachable] by simp

lemma demo_fits: "fits_word demo n \<longleftrightarrow> n < 4005560305"
  by (auto simp: fits_word_def demo_init)

lemma demo_spare: "spare demo = 20963304"
  by (simp add: spare_def demo_init)

lemma demo_malloc:
  "mm_malloc 100 demo = Some (demo_ptr, demo_100)" "demo_ptr \<noteq> NULL"
  "mm_reachable (demo_100, [unat demo_ptr \<mapsto> 100])" "covers demo_100 [unat demo_ptr \<mapsto> 100]"
  "fits_word demo_100 = fits_word demo"
proof -
  have "\<not> spare demo < demand demo 100"
    by (simp add: demo_spare demand_def demo_init adjusted_def Let_def)
  with covers_malloc_spec [OF demo_covers, of 100] obtain p s' where
    *: "mm_malloc (w32 100) demo = Some (w32 p, s')" "w32 p \<noteq> NULL" "evolves fits_word demand spare (demand demo 100) demo s'"
    by (auto simp: demo_fits)
  then show run: "mm_malloc 100 demo = Some (demo_ptr, demo_100)" and nn: "demo_ptr \<noteq> NULL"
    and "fits_word demo_100 = fits_word demo"
    by (auto simp: demo_ptr_def demo_100_def evolves_def)
  from mm_reachable.step [OF demo_reachable mm_step.malloc [of 100, OF _ _ _ nn]] run
  show "mm_reachable (demo_100, [unat demo_ptr \<mapsto> 100])" by (simp add: demo_fits)
  from reachable_covers [OF this] show "covers demo_100 [unat demo_ptr \<mapsto> 100]" by simp
qed

end
