(* ===== verification/Mdriver_Valid.thy ===== *)
theory Mdriver_Valid
  imports Mm_Demo Mdriver
begin

text \<open>
  The driver's verdict on the package: \<open>eval_mm_valid\<close> of src/mdriver.c, run on a
  well-formed trace, never reports a misaligned, escaping, overlapping or damaged block,
  and returns 1 whenever the heap area is large enough for the trace.

  The proof is a client proof: it uses the lemmas of the locale \<open>allocator\<close> through the
  interpretation for src/mm.c, and nothing else about the package.
\<close>

section \<open>The pattern\<close>

definition pattern :: "nat \<Rightarrow> byte" where
  "pattern i = ucast (w32 i AND 0xFF)"

lemma scast_low:
  assumes "\<not> bit (x :: 32 word) 7"
  shows "(scast (ucast (x AND 0xFF) :: 8 word) :: 32 word) = x AND 0xFF"
proof (rule bit_word_eqI)
  fix n
  assume "n < LENGTH(32)"
  have m: "(0xFF :: 32 word) = mask 8" by (simp add: mask_eq_exp_minus_1)
  show "bit (scast (ucast (x AND 0xFF) :: 8 word) :: 32 word) n \<longleftrightarrow> bit (x AND 0xFF) n"
    using assms \<open>n < LENGTH(32)\<close> unfolding m
    by (cases "n < 7"; cases "n = 7") (auto simp: bit_simps min_def)
qed

lemma scast_high:
  assumes "bit (x :: 32 word) 7"
  shows "(scast (ucast (x AND 0xFF) :: 8 word) :: 32 word) \<noteq> x AND 0xFF"
proof
  assume *: "(scast (ucast (x AND 0xFF) :: 8 word) :: 32 word) = x AND 0xFF"
  have m: "(0xFF :: 32 word) = mask 8" by (simp add: mask_eq_exp_minus_1)
  have "bit (scast (ucast (x AND 0xFF) :: 8 word) :: 32 word) 8 \<longleftrightarrow> bit (x AND 0xFF) 8"
    by (simp only: *)
  then show False using assms unfolding m by (auto simp: bit_simps min_def)
qed

section \<open>Well-formed traces\<close>

text \<open>
  \<open>ops_ok ok ids alive ops\<close>: every operation names one of \<open>ids\<close> blocks, allocates a free
  number or uses an allocated one, and asks for a positive size that satisfies \<open>ok\<close>. The
  index of a reallocation has bit 7 clear.
\<close>

fun ops_ok :: "(nat \<Rightarrow> bool) \<Rightarrow> nat \<Rightarrow> nat set \<Rightarrow> traceop_t list \<Rightarrow> bool" where
  "ops_ok ok ids alive [] \<longleftrightarrow> True"
| "ops_ok ok ids alive (op # rest) \<longleftrightarrow>
     (let i = unat (op_index op); n = unat (op_size op) in
      i < ids \<and>
      (case op_type op of
         ALLOC \<Rightarrow> i \<notin> alive \<and> 0 < n \<and> n < 2 ^ 31 \<and> ok n \<and> ops_ok ok ids (insert i alive) rest
       | REALLOC \<Rightarrow> i \<in> alive \<and> 0 < n \<and> n < 2 ^ 31 \<and> ok n \<and> \<not> bit (op_index op) 7 \<and> ops_ok ok ids alive rest
       | FREE \<Rightarrow> i \<in> alive \<and> ops_ok ok ids (alive - {i}) rest))"

text \<open>By how much a trace can make the heap grow, when a request for \<open>n\<close> bytes costs \<open>c n\<close>.\<close>

definition total_cost :: "(nat \<Rightarrow> nat) \<Rightarrow> traceop_t list \<Rightarrow> nat" where
  "total_cost c xs = sum_list (map (\<lambda>op. if op_type op = FREE then 0 else c (unat (op_size op))) xs)"

lemma total_cost_simps [simp]:
  "total_cost c [] = 0"
  "total_cost c (op # xs) = (if op_type op = FREE then 0 else c (unat (op_size op))) + total_cost c xs"
  by (simp_all add: total_cost_def)

section \<open>The driver's invariant\<close>

definition range_of :: "nat \<times> nat \<Rightarrow> range_t" where
  "range_of = (\<lambda>(p, n). \<lparr>r_lo = w32 p, r_hi = w32 (p + n - 1)\<rparr>)"

text \<open>
  \<open>replays ids t d C\<close>: the driver's arrays and range list describe the client's blocks \<open>C\<close>,
  and the package holds them with their patterns.
\<close>

definition replays :: "nat \<Rightarrow> trace_t \<Rightarrow> driver \<Rightarrow> (nat \<rightharpoonup> nat \<times> nat) \<Rightarrow> bool" where
  "replays ids t d C \<longleftrightarrow> mm.holds pattern (mm d) C \<and> ids < 2 ^ 31 \<and>
     length (blocks t) = ids \<and> length (block_sizes t) = ids \<and>
     (\<forall>i p n. C i = Some (p, n) \<longrightarrow> i < ids \<and> blocks t ! i = w32 p \<and> block_sizes t ! i = w32 n \<and>
        0 < n \<and> n < 2 ^ 31) \<and>
     distinct (map r_lo (ranges d)) \<and> set (ranges d) = range_of ` ran C"

lemma holds_live: "mm.holds v s C \<Longrightarrow> \<exists>L. live s L"
  unfolding mm.holds_def by blast

lemma holds_vars: "mm.holds v s C \<Longrightarrow> vars_ok s"
  using holds_live heap_invD(1) unfolding live_def by blast

lemma array_get_ok: "i < length xs \<Longrightarrow> i < 2 ^ 31 \<Longrightarrow> array_get xs (w32 i) = returns (xs ! i)"
  by (simp add: array_get_def sint_w32)

lemma array_set_ok: "i < length xs \<Longrightarrow> i < 2 ^ 31 \<Longrightarrow> array_set xs (w32 i) x = returns (xs[i := x])"
  by (simp add: array_set_def sint_w32)

section \<open>The range list\<close>

lemma add_range_ok:
  assumes V: "vars_ok (mm d)" and p: "8 dvd p" "heap_lo (mm d) \<le> p" "p + n \<le> brk (mm d)" "0 < n" "n < 2 ^ 31"
    and R: "\<And>r. r \<in> set (ranges d) \<Longrightarrow> \<exists>q m. r = range_of (q, m) \<and> 0 < m \<and> q + m < 2 ^ 32 \<and> (p + n \<le> q \<or> q + m \<le> p)"
  shows "add_range True (w32 p) (w32 n) tracenum opnum d =
    returns (1, d\<lparr>ranges := range_of (p, n) # ranges d\<rparr>)"
proof -
  have b: "brk (mm d) < 2 ^ 32" using unat_lt2p_32 [of "mem_brk (mm d)"] by (simp add: brk_def)
  have hi: "w32 p + w32 n - 1 = w32 (p + n - 1)" using p(4) by (simp add: w32_add w32_diff_1)
  have "w32 p mod 8 = w32 (p mod 8)" using w32_mod [of p 8] p(3) b by simp
  then have al: "IS_ALIGNED (w32 p)" using p(1) by (simp add: IS_ALIGNED_def ALIGNMENT_def)
  have lo: "mem_heap_lo (mm d) = w32 (heap_lo (mm d) - 16)"
    using V by (simp add: mem_heap_lo_def vars_ok_def heap_lo_def)
  have top: "mem_heap_hi (mm d) = w32 (brk (mm d) - 1)"
    using w32_diff_1 [of "brk (mm d)"] p(3,4) by (simp add: mem_heap_hi_def brk_def)
  have "w32 p \<ge> w32 (heap_lo (mm d) - 16)" "w32 p \<le> w32 (brk (mm d) - 1)"
    "w32 (p + n - 1) \<ge> w32 (heap_lo (mm d) - 16)" "w32 (p + n - 1) \<le> w32 (brk (mm d) - 1)"
    using p b by (simp_all add: w32_le_iff)
  then have inside: "\<not> (w32 p < mem_heap_lo (mm d) \<or> w32 p > mem_heap_hi (mm d) \<or>
      w32 (p + n - 1) < mem_heap_lo (mm d) \<or> w32 (p + n - 1) > mem_heap_hi (mm d))"
    by (simp add: lo top not_less)
  have "\<not> in_range (w32 p) (w32 (p + n - 1)) r" if "r \<in> set (ranges d)" for r
  proof -
    from R [OF that] obtain q m where r: "r = range_of (q, m)" "0 < m" "q + m < 2 ^ 32" "p + n \<le> q \<or> q + m \<le> p"
      by blast
    with p b show ?thesis by (auto simp: in_range_def range_of_def w32_le_iff)
  qed
  then have "List.find (in_range (w32 p) (w32 (p + n - 1))) (ranges d) = None"
    by (simp add: find_None_iff)
  with al inside p(4,5) show ?thesis
    by (simp add: add_range_def Let_def hi sint_w32 range_of_def)
qed

lemma remove_range_set:
  "distinct (map r_lo rs) \<Longrightarrow> set (remove_range rs lo) = {r \<in> set rs. r_lo r \<noteq> lo}"
  by (induction rs) (auto simp: image_iff)

lemma remove_range_distinct:
  "distinct (map r_lo rs) \<Longrightarrow> distinct (map r_lo (remove_range rs lo))"
  by (induction rs) (auto simp: remove_range_set image_iff)

section \<open>One operation\<close>

lemma replaysD:
  assumes "replays ids t d C"
  shows "mm.holds pattern (mm d) C" "ids < 2 ^ 31" "length (blocks t) = ids" "length (block_sizes t) = ids"
    "C i = Some (p, n) \<Longrightarrow> i < ids \<and> blocks t ! i = w32 p \<and> block_sizes t ! i = w32 n \<and> 0 < n \<and> n < 2 ^ 31"
    "distinct (map r_lo (ranges d))" "set (ranges d) = range_of ` ran C"
  using assms by (auto simp: replays_def)

lemma driver_order [simp]: "d\<lparr>ranges := rs, mm := s\<rparr> = d\<lparr>mm := s, ranges := rs\<rparr>" for d :: driver
  by simp

lemma mem_fill_pattern:
  "fill_pattern (w32 p) (w32 i) (w32 n) s = mem_fill p (pattern i) n s"
  by (simp add: fill_pattern_def mem_fill_def pattern_def)

lemma holds_lt:
  assumes "mm.holds v s C" "C i = Some (p, n)"
  shows "p + n < 2 ^ 32"
  using mm.holds_block(4) [OF assms] unat_lt2p_32 [of "mem_brk s"] by (simp add: brk_def)

lemma range_ran: "r \<in> range_of ` ran C \<longleftrightarrow> (\<exists>j q m. C j = Some (q, m) \<and> r = range_of (q, m))"
  by (force simp: ran_def image_iff)

text \<open>A new block, in the arrays and in the range list.\<close>

lemma replays_add:
  assumes H: "mm.holds pattern s (C(i \<mapsto> (p, n)))" and i: "i < ids" "0 < n" "n < 2 ^ 31"
    and A: "ids < 2 ^ 31" "length (blocks t) = ids" "length (block_sizes t) = ids"
      "\<And>j q m. j \<noteq> i \<Longrightarrow> C j = Some (q, m) \<Longrightarrow> j < ids \<and> blocks t ! j = w32 q \<and> block_sizes t ! j = w32 m \<and>
        0 < m \<and> m < 2 ^ 31"
    and R: "distinct (map r_lo rs)" "set rs = range_of ` ran (C(i := None))"
  shows "replays ids (t\<lparr>blocks := (blocks t)[i := w32 p], block_sizes := (block_sizes t)[i := w32 n]\<rparr>)
    (d\<lparr>mm := s, ranges := range_of (p, n) # rs\<rparr>) (C(i \<mapsto> (p, n)))"
proof -
  have "r_lo r \<noteq> w32 p" if "r \<in> set rs" for r
  proof -
    from that R(2) obtain j q m where j: "j \<noteq> i" "C j = Some (q, m)" "r = range_of (q, m)"
      by (auto simp: ran_def split: if_splits)
    then have j': "(C(i \<mapsto> (p, n))) j = Some (q, m)" and i': "(C(i \<mapsto> (p, n))) i = Some (p, n)" by auto
    have "q + m \<le> p \<or> p + n \<le> q" "0 < m"
      using mm.holds_disjoint [OF H j' i' j(1)] A(4) [OF j(1,2)] by auto
    then have "q \<noteq> p" using i(2) by linarith
    then show ?thesis
      using holds_lt [OF H j'] holds_lt [OF H i'] j(3) by (simp add: range_of_def w32_eq_iff)
  qed
  moreover have "r_lo (range_of (p, n)) = w32 p" by (simp add: range_of_def)
  ultimately have "distinct (map r_lo (range_of (p, n) # rs))" using R(1) by force
  moreover have "ran (C(i \<mapsto> (p, n))) = insert (p, n) (ran (C(i := None)))"
    by (auto simp: ran_def)
  then have "set (range_of (p, n) # rs) = range_of ` ran (C(i \<mapsto> (p, n)))" by (simp add: R(2))
  moreover have "j < ids \<and> (blocks t)[i := w32 p] ! j = w32 q \<and> (block_sizes t)[i := w32 n] ! j = w32 m \<and>
      0 < m \<and> m < 2 ^ 31" if "(C(i \<mapsto> (p, n))) j = Some (q, m)" for j q m
    using that i A by (cases "j = i") auto
  ultimately show ?thesis
    unfolding replays_def using H A(1-3) by simp
qed

text \<open>The range list when a block goes.\<close>

lemma ranges_drop:
  assumes P: "replays ids t d C" and i: "C i = Some (p, n)"
  shows "set (remove_range (ranges d) (w32 p)) = range_of ` ran (C(i := None))"
    "distinct (map r_lo (remove_range (ranges d) (w32 p)))"
proof -
  note D = replaysD [OF P]
  show "distinct (map r_lo (remove_range (ranges d) (w32 p)))"
    by (rule remove_range_distinct [OF D(6)])
  have "r_lo (range_of (q, m)) \<noteq> w32 p \<longleftrightarrow> j \<noteq> i" if j: "C j = Some (q, m)" for j q m
  proof (cases "j = i")
    case True
    with i j show ?thesis by (simp add: range_of_def)
  next
    case False
    have "q + m \<le> p \<or> p + n \<le> q" "0 < m" "0 < n"
      using mm.holds_disjoint [OF D(1) j i False] D(5) [OF j] D(5) [OF i] by auto
    then have "q \<noteq> p" by linarith
    with False show ?thesis
      using holds_lt [OF D(1) j] holds_lt [OF D(1) i] by (simp add: range_of_def w32_eq_iff)
  qed
  note other = this
  have "r \<in> range_of ` ran C \<and> r_lo r \<noteq> w32 p \<longleftrightarrow> r \<in> range_of ` ran (C(i := None))" for r
    unfolding range_ran
  proof (intro iffI conjI; (elim conjE exE)?)
    fix j q m
    assume "r_lo r \<noteq> w32 p" "C j = Some (q, m)" "r = range_of (q, m)"
    with other [of j q m] show "\<exists>j q m. (C(i := None)) j = Some (q, m) \<and> r = range_of (q, m)"
      by (intro exI [of _ j] exI [of _ q] exI [of _ m]) simp
  next
    fix j q m
    assume "(C(i := None)) j = Some (q, m)" and r: "r = range_of (q, m)"
    then have "C j = Some (q, m)" "j \<noteq> i" by (auto split: if_splits)
    with r other [of j q m] show "\<exists>j q m. C j = Some (q, m) \<and> r = range_of (q, m)" "r_lo r \<noteq> w32 p" by blast+
  qed
  then show "set (remove_range (ranges d) (w32 p)) = range_of ` ran (C(i := None))"
    unfolding remove_range_set [OF D(6)] D(7) by blast
qed

text \<open>
  What one operation does: it runs out of memory and is reported with \<open>msg\<close>, or it
  succeeds and leaves the blocks \<open>alive\<close>, with no error and at most \<open>c\<close> bytes of growth.
\<close>

definition op_result ::
  "nat \<Rightarrow> 32 word \<Rightarrow> nat \<Rightarrow> malloc_msg \<Rightarrow> nat \<Rightarrow> driver \<Rightarrow> nat set \<Rightarrow> (bool \<times> trace_t \<times> driver) run \<Rightarrow> bool" where
  "op_result ids tn k msg c d alive r \<longleftrightarrow>
     (\<exists>t' d'. r = returns (False, t', d') \<and> errors d' = errors d + 1 \<and>
       messages d' = (tn, LINENUM (of_nat k), msg) # messages d \<and> spare (mm d) < c) \<or>
     (\<exists>t' d' C'. r = returns (True, t', d') \<and> replays ids t' d' C' \<and> dom C' = alive \<and>
       evolves fits_word demand spare c (mm d) (mm d') \<and> errors d' = errors d \<and> messages d' = messages d)"

lemma op_result_fail:
  "r = returns (False, t', malloc_error tn (of_nat k) msg d') \<Longrightarrow> errors d' = errors d \<Longrightarrow>
    messages d' = messages d \<Longrightarrow> spare (mm d) < c \<Longrightarrow> op_result ids tn k msg c d alive r"
  unfolding op_result_def
  by (rule disjI1, intro exI conjI) (assumption | simp add: malloc_error_def)+

lemma op_result_ok:
  "r = returns (True, t', d') \<Longrightarrow> replays ids t' d' C' \<Longrightarrow> dom C' = alive \<Longrightarrow>
    evolves fits_word demand spare c (mm d) (mm d') \<Longrightarrow> errors d' = errors d \<Longrightarrow> messages d' = messages d \<Longrightarrow>
    op_result ids tn k msg c d alive r"
  unfolding op_result_def by blast

lemma add_range_other:
  assumes H: "mm.holds pattern (mem_fill p (pattern i) n s) (C(i \<mapsto> (p, n)))"
    and n: "0 < n" "n < 2 ^ 31" and p: "8 dvd p" "heap_lo s \<le> p" "p + n \<le> brk s"
    and s: "mm d = s"
    and rs: "set (ranges d) = range_of ` ran (C(i := None))"
    and pos: "\<And>j q m. C j = Some (q, m) \<Longrightarrow> 0 < m"
  shows "add_range True (w32 p) (w32 n) tracenum opnum d = returns (1, d\<lparr>ranges := range_of (p, n) # ranges d\<rparr>)"
proof (rule add_range_ok)
  show "vars_ok (mm d)" using holds_vars [OF H] by (simp add: s mem_fill_def)
  fix r
  assume "r \<in> set (ranges d)"
  then obtain j q m where j: "C j = Some (q, m)" "j \<noteq> i" "r = range_of (q, m)"
    by (auto simp: rs range_ran split: if_splits)
  then have j': "(C(i \<mapsto> (p, n))) j = Some (q, m)" and i': "(C(i \<mapsto> (p, n))) i = Some (p, n)" by auto
  have "p + n \<le> q \<or> q + m \<le> p" using mm.holds_disjoint [OF H j' i' j(2)] by auto
  with pos [OF j(1)] holds_lt [OF H j'] j(3)
  show "\<exists>q m. r = range_of (q, m) \<and> 0 < m \<and> q + m < 2 ^ 32 \<and> (p + n \<le> q \<or> q + m \<le> p)" by blast
qed (use n p s in simp_all)

lemma valid_alloc_ok:
  assumes P: "replays ids t d C" and i: "op_index op = w32 i" "i < ids" "C i = None"
    and n: "op_size op = w32 n" "0 < n" "n < 2 ^ 31" "fits_word (mm d) n" and ok: "record_ok k"
  shows "op_result ids tn k Malloc_failed (demand (mm d) n) d (insert i (dom C))
    (valid_alloc record_ok tn k op (t, d))"
proof -
  note D = replaysD [OF P]
  from mm.client_malloc [OF D(1) n(2,4), of i] show ?thesis
  proof
    assume fail: "unat_ptr (mm_malloc (w32 n) (mm d)) = Some (0, mm d) \<and> spare (mm d) < demand (mm d) n"
    then have "mm_malloc (w32 n) (mm d) = Some (NULL, mm d)"
      by (auto simp: unat_ptr_def NULL_def unat_eq_0)
    then have "valid_alloc record_ok tn k op (t, d) = returns (False, t, malloc_error tn (of_nat k) Malloc_failed d)"
      by (simp add: valid_alloc_def n(1) Let_def)
    with fail show ?thesis by (intro op_result_fail) simp_all
  next
    assume "\<exists>p s'. unat_ptr (mm_malloc (w32 n) (mm d)) = Some (p, s') \<and> 8 dvd p \<and> 0 < p \<and> heap_lo s' \<le> p \<and>
      p + n \<le> brk s' \<and> (\<forall>j q m. C j = Some (q, m) \<longrightarrow> p + n \<le> q \<or> q + m \<le> p) \<and>
      mm.holds pattern (mem_fill p (pattern i) n s') (C(i \<mapsto> (p, n))) \<and>
      evolves fits_word demand spare (demand (mm d) n) (mm d) (mem_fill p (pattern i) n s')"
    then obtain p s' where run: "unat_ptr (mm_malloc (w32 n) (mm d)) = Some (p, s')" and
      p: "8 dvd p" "0 < p" "heap_lo s' \<le> p" "p + n \<le> brk s'" and
      H: "mm.holds pattern (mem_fill p (pattern i) n s') (C(i \<mapsto> (p, n)))" and
      E: "evolves fits_word demand spare (demand (mm d) n) (mm d) (mem_fill p (pattern i) n s')"
      by blast
    from run have run': "mm_malloc (w32 n) (mm d) = Some (w32 p, s')" by (auto simp: unat_ptr_def)
    have nn: "w32 p \<noteq> NULL"
      using p(2) holds_lt [OF H, of i p n] by (simp add: NULL_def w32_eq_0_iff)
    have rs: "set (ranges d) = range_of ` ran (C(i := None))"
      using D(7) i(3) by (simp add: fun_upd_idem)
    define t' where "t' = t\<lparr>blocks := (blocks t)[i := w32 p], block_sizes := (block_sizes t)[i := w32 n]\<rparr>"
    define d' where "d' = d\<lparr>mm := mem_fill p (pattern i) n s', ranges := range_of (p, n) # ranges d\<rparr>"
    have add: "add_range True (w32 p) (w32 n) tn (of_nat k) (d\<lparr>mm := s'\<rparr>) =
        returns (1, d\<lparr>mm := s', ranges := range_of (p, n) # ranges d\<rparr>)"
      using add_range_other [OF H n(2,3) p(1,3,4), of "d\<lparr>mm := s'\<rparr>"] rs D(5) by simp
    have "valid_alloc record_ok tn k op (t, d) = returns (True, t', d')"
      using run' nn add i(2) D(2-4) ok
      by (simp add: valid_alloc_def i(1) n(1) Let_def array_set_ok mem_fill_pattern t'_def d'_def)
    moreover have "replays ids t' d' (C(i \<mapsto> (p, n)))"
      unfolding t'_def d'_def
      by (rule replays_add [OF H i(2) n(2,3) D(2-4) _ D(6) rs]) (use D(5) in blast)
    ultimately show ?thesis by (rule op_result_ok) (use E in \<open>simp_all add: d'_def\<close>)
  qed
qed

lemma pattern_kept_ok:
  assumes "\<forall>j. j < n \<longrightarrow> j < m \<longrightarrow> mem_byte s (p + j) = pattern i" "n < 2 ^ 31" "m < 2 ^ 31" "\<not> bit (w32 i) 7"
  shows "pattern_kept (mem s) (w32 p) (w32 i) (if sint (w32 n) < sint (w32 m) then w32 n else w32 m)"
proof -
  have "(if sint (w32 n) < sint (w32 m) then w32 n else w32 m) = w32 (min n m)"
    using assms(2,3) by (simp add: sint_w32)
  moreover have "mem s (w32 p + of_nat j) = ucast (w32 i AND 0xFF)" if "j < min n m" for j
    using assms(1) that by (simp add: mem_byte_def pattern_def w32_def)
  ultimately show ?thesis
    using assms(2,3) scast_low [OF assms(4)]
    by (simp add: pattern_kept_def sint_w32 list_all_iff)
qed

lemma realloc_entry:
  assumes P: "replays ids t d C" and i: "C i = Some (a, m)"
  shows "array_get (blocks t) (w32 i) = returns (w32 a)" "array_get (block_sizes t) (w32 i) = returns (w32 m)"
    "0 < m" "m < 2 ^ 31" "i < ids" "block_sizes t ! i = w32 m"
  using replaysD [OF P] replaysD(5) [OF P i] by (simp_all add: array_get_ok)

text \<open>
  What the driver's call of \<open>mm_realloc\<close> leads to: no room, or a block that the range list
  accepts in the place of the old one and that holds the old pattern.
\<close>

lemma realloc_recorded:
  assumes P: "replays ids t d C" and i: "C i = Some (a, m)" and n: "0 < n" "n < 2 ^ 31" "fits_word (mm d) n"
  defines "rs \<equiv> remove_range (ranges d) (w32 a)"
  obtains (fail) "mm_realloc (w32 a) (w32 n) (mm d) = Some (NULL, mm d)" "spare (mm d) < demand (mm d) n"
  | (moved) p s' where "mm_realloc (w32 a) (w32 n) (mm d) = Some (w32 p, s')" "w32 p \<noteq> NULL"
    "add_range True (w32 p) (w32 n) tn k (d\<lparr>mm := s', ranges := rs\<rparr>) =
      returns (1, d\<lparr>mm := s', ranges := range_of (p, n) # rs\<rparr>)"
    "\<forall>j. j < n \<longrightarrow> j < m \<longrightarrow> mem_byte s' (p + j) = pattern i"
    "replays ids (t\<lparr>blocks := (blocks t)[i := w32 p], block_sizes := (block_sizes t)[i := w32 n]\<rparr>)
      (d\<lparr>mm := mem_fill p (pattern i) n s', ranges := range_of (p, n) # rs\<rparr>) (C(i \<mapsto> (p, n)))"
    "evolves fits_word demand spare (demand (mm d) n) (mm d) (mem_fill p (pattern i) n s')"
proof -
  note D = replaysD [OF P] and RS = ranges_drop [OF P i, folded rs_def]
  from mm.client_realloc [OF D(1) i n(1,3)] show thesis
  proof
    assume "unat_ptr (mm_realloc (w32 a) (w32 n) (mm d)) = Some (0, mm d) \<and> spare (mm d) < demand (mm d) n"
    then show thesis by (intro fail) (auto simp: unat_ptr_def NULL_def unat_eq_0)
  next
    assume "\<exists>p s'. unat_ptr (mm_realloc (w32 a) (w32 n) (mm d)) = Some (p, s') \<and> 8 dvd p \<and> 0 < p \<and> heap_lo s' \<le> p \<and>
      p + n \<le> brk s' \<and> (\<forall>j q k. C j = Some (q, k) \<longrightarrow> j \<noteq> i \<longrightarrow> p + n \<le> q \<or> q + k \<le> p) \<and>
      (\<forall>j. j < n \<longrightarrow> j < m \<longrightarrow> mem_byte s' (p + j) = pattern i) \<and>
      mm.holds pattern (mem_fill p (pattern i) n s') (C(i \<mapsto> (p, n))) \<and>
      evolves fits_word demand spare (demand (mm d) n) (mm d) (mem_fill p (pattern i) n s')"
    then obtain p s' where run: "unat_ptr (mm_realloc (w32 a) (w32 n) (mm d)) = Some (p, s')" and
      p: "8 dvd p" "0 < p" "heap_lo s' \<le> p" "p + n \<le> brk s'" and
      copy: "\<forall>j. j < n \<longrightarrow> j < m \<longrightarrow> mem_byte s' (p + j) = pattern i" and
      H: "mm.holds pattern (mem_fill p (pattern i) n s') (C(i \<mapsto> (p, n)))" and
      E: "evolves fits_word demand spare (demand (mm d) n) (mm d) (mem_fill p (pattern i) n s')"
      by blast
    show thesis
    proof (rule moved [OF _ _ _ copy _ E])
      show "mm_realloc (w32 a) (w32 n) (mm d) = Some (w32 p, s')" using run by (auto simp: unat_ptr_def)
      show "w32 p \<noteq> NULL" using p(2) holds_lt [OF H, of i p n] by (simp add: NULL_def w32_eq_0_iff)
      show "add_range True (w32 p) (w32 n) tn k (d\<lparr>mm := s', ranges := rs\<rparr>) =
          returns (1, d\<lparr>mm := s', ranges := range_of (p, n) # rs\<rparr>)"
        using add_range_other [OF H n(1,2) p(1,3,4), of "d\<lparr>mm := s', ranges := rs\<rparr>"] RS(1) D(5) by simp
      show "replays ids (t\<lparr>blocks := (blocks t)[i := w32 p], block_sizes := (block_sizes t)[i := w32 n]\<rparr>)
          (d\<lparr>mm := mem_fill p (pattern i) n s', ranges := range_of (p, n) # rs\<rparr>) (C(i \<mapsto> (p, n)))"
        by (rule replays_add [OF H realloc_entry(5) [OF P i] n(1,2) D(2-4) _ RS(2,1)]) (use D(5) in blast)
    qed
  qed
qed

lemma valid_realloc_ok:
  assumes P: "replays ids t d C" and i: "op_index op = w32 i" "C i = Some (a, m)" "\<not> bit (w32 i) 7"
    and n: "op_size op = w32 n" "0 < n" "n < 2 ^ 31" "fits_word (mm d) n" and ok: "record_ok k"
  shows "op_result ids tn k Realloc_failed (demand (mm d) n) d (dom C) (valid_realloc record_ok tn k op (t, d))"
proof -
  note D = replaysD [OF P] and I = realloc_entry [OF P i(2)]
  from P i(2) n(2-4) show ?thesis
  proof (cases rule: realloc_recorded [where tn = tn and k = "of_nat k"])
    case fail
    then have "valid_realloc record_ok tn k op (t, d) = returns (False, t, malloc_error tn (of_nat k) Realloc_failed d)"
      by (simp add: valid_realloc_def n(1) i(1) I(1,2) Let_def)
    with fail show ?thesis by (intro op_result_fail) simp_all
  next
    case (moved p s')
    define rs where "rs = remove_range (ranges d) (w32 a)"
    note moved = moved [folded rs_def]
    let ?t = "t\<lparr>blocks := (blocks t)[i := w32 p], block_sizes := (block_sizes t)[i := w32 n]\<rparr>"
      and ?d = "d\<lparr>mm := mem_fill p (pattern i) n s', ranges := range_of (p, n) # rs\<rparr>"
    have "pattern_kept (mem s') (w32 p) (w32 i) (if sint (w32 n) < sint (w32 m) then w32 n else w32 m)"
      by (rule pattern_kept_ok [OF moved(4) n(3) I(4) i(3)])
    then have "valid_realloc record_ok tn k op (t, d) = returns (True, ?t, ?d)"
      using moved(1-3) I(5) D(2-4) ok
      by (simp add: valid_realloc_def i(1) n(1) Let_def I(1,2) array_set_ok mem_fill_pattern flip: rs_def cong: if_cong)
    moreover note moved(5)
    moreover have "dom (C(i \<mapsto> (p, n))) = dom C" using i(2) by auto
    ultimately show ?thesis by (rule op_result_ok) (use moved(6) in simp_all)
  qed
qed

lemma valid_free_ok:
  assumes P: "replays ids t d C" and i: "op_index op = w32 i" "C i = Some (a, m)"
  shows "op_result ids tn k msg 0 d (dom C - {i}) (valid_free op (t, d))"
proof -
  note D = replaysD [OF P]
  have I: "i < ids" "blocks t ! i = w32 a" using D(5) [OF i(2)] by simp_all
  have get: "array_get (blocks t) (w32 i) = returns (w32 a)" using I D(2-4) by (simp add: array_get_ok)
  from mm.client_free [OF D(1) i(2)] obtain s' where run: "mm_free (w32 a) (mm d) = Some s'"
    and H: "mm.holds pattern s' (C(i := None))" and E: "evolves fits_word demand spare 0 (mm d) s'"
    by blast
  define rs where "rs = remove_range (ranges d) (w32 a)"
  note RS = ranges_drop [OF P i(2), folded rs_def]
  have "valid_free op (t, d) = returns (True, t, d\<lparr>ranges := rs, mm := s'\<rparr>)"
    using run by (simp add: valid_free_def i(1) get Let_def rs_def)
  moreover have "replays ids t (d\<lparr>ranges := rs, mm := s'\<rparr>) (C(i := None))"
    unfolding replays_def using H D(2-4) D(5) RS by (simp add: fun_upd_apply)
  moreover have "dom (C(i := None)) = dom C - {i}" by auto
  ultimately show ?thesis by (rule op_result_ok) (use E in simp_all)
qed

section \<open>The loop\<close>

lemma evolves_trans:
  "evolves f c r k s s' \<Longrightarrow> evolves f c r k' s' s'' \<Longrightarrow> evolves f c r (k + k') s s''"
  by (auto simp: evolves_def)

lemma valid_op_ok:
  assumes P: "replays ids t d C" and ok: "ops_ok (fits_word (mm d)) ids (dom C) (op # rest)" "record_ok k"
  shows "\<exists>alive msg. msg \<in> {Malloc_failed, Realloc_failed} \<and> ops_ok (fits_word (mm d)) ids alive rest \<and>
    op_result ids tn k msg (if op_type op = FREE then 0 else demand (mm d) (unat (op_size op))) d alive
      (valid_op record_ok tn k op (t, d))"
proof -
  define i n where "i = unat (op_index op)" and "n = unat (op_size op)"
  then have w: "op_index op = w32 i" "op_size op = w32 n" by simp_all
  let ?d = "d\<lparr>traceop_index := of_nat k, traceop_ptr := op_index op\<rparr>"
  have P': "replays ids t ?d C" using P by (simp add: replays_def)
  have r: "op_result ids tn k msg c ?d alive x \<longleftrightarrow> op_result ids tn k msg c d alive x" for msg c alive x
    by (simp add: op_result_def)
  have i: "i < ids" using ok(1) by (simp add: Let_def i_def)
  show ?thesis
  proof (cases "op_type op")
    case ALLOC
    with ok(1) have *: "i \<notin> dom C" "0 < n" "n < 2 ^ 31" "fits_word (mm ?d) n"
      "ops_ok (fits_word (mm d)) ids (insert i (dom C)) rest"
      by (auto simp: Let_def i_def n_def simp del: domIff)
    from *(1) have None: "C i = None" by (auto intro: domI)
    from valid_alloc_ok [OF P' w(1) i None w(2) *(2-4), of record_ok k tn] ok(2) *(5) ALLOC show ?thesis
      by (intro exI [of _ "insert i (dom C)"] exI [of _ Malloc_failed])
        (simp add: valid_op_def r n_def Let_def)
  next
    case REALLOC
    with ok(1) have *: "i \<in> dom C" "0 < n" "n < 2 ^ 31" "fits_word (mm ?d) n" "\<not> bit (w32 i) 7"
      "ops_ok (fits_word (mm d)) ids (dom C) rest"
      by (auto simp: Let_def i_def n_def)
    then obtain a m where a: "C i = Some (a, m)" by auto
    from valid_realloc_ok [OF P' w(1) a *(5) w(2) *(2-4), of record_ok k tn] ok(2) *(6) REALLOC show ?thesis
      by (intro exI [of _ "dom C"] exI [of _ Realloc_failed]) (simp add: valid_op_def r n_def Let_def)
  next
    case FREE
    with ok(1) have *: "i \<in> dom C" "ops_ok (fits_word (mm d)) ids (dom C - {i}) rest"
      by (auto simp: Let_def i_def)
    then obtain a m where a: "C i = Some (a, m)" by auto
    from valid_free_ok [OF P' w(1) a, of tn k Malloc_failed] *(2) FREE show ?thesis
      by (intro exI [of _ "dom C - {i}"] exI [of _ Malloc_failed]) (simp add: valid_op_def r Let_def)
  qed
qed

text \<open>The verdict: success without an error, or out of memory, reported once.\<close>

definition verdict :: "32 word \<Rightarrow> nat \<Rightarrow> nat \<Rightarrow> driver \<Rightarrow> (32 word \<times> trace_t \<times> driver) run \<Rightarrow> bool" where
  "verdict tn c room d r \<longleftrightarrow>
     (\<exists>t' d'. r = returns (1, t', d') \<and> errors d' = errors d \<and> messages d' = messages d) \<or>
     (\<exists>t' d' line msg. r = returns (0, t', d') \<and> errors d' = errors d + 1 \<and>
       messages d' = (tn, line, msg) # messages d \<and> msg \<in> {Malloc_failed, Realloc_failed} \<and> room < c)"

lemma verdict_mono:
  assumes "verdict tn c room d' r" "errors d' = errors d" "messages d' = messages d" "room < c \<Longrightarrow> room' < c'"
  shows "verdict tn c' room' d r"
  using assms(1,4) unfolding verdict_def assms(2,3) by blast

lemma valid_loop_ok:
  assumes "replays ids t d C" "ops_ok (fits_word (mm d)) ids (dom C) xs" "\<And>k. record_ok k"
  shows "verdict tn (total_cost (demand (mm d)) xs) (spare (mm d)) d (valid_loop record_ok tn k xs (t, d))"
  using assms
proof (induction xs arbitrary: t d C k)
  case Nil
  then show ?case by (auto simp: verdict_def)
next
  case (Cons op rest)
  let ?c = "if op_type op = FREE then 0 else demand (mm d) (unat (op_size op))"
  from valid_op_ok [OF Cons.prems(1,2), of record_ok k tn] Cons.prems(3) obtain alive msg where
    msg: "msg \<in> {Malloc_failed, Realloc_failed}" and ok: "ops_ok (fits_word (mm d)) ids alive rest"
    and res: "op_result ids tn k msg ?c d alive (valid_op record_ok tn k op (t, d))"
    by blast
  from res [unfolded op_result_def] show ?case
  proof (elim disjE exE conjE)
    fix t' d'
    assume "valid_op record_ok tn k op (t, d) = returns (False, t', d')" "errors d' = errors d + 1"
      "messages d' = (tn, LINENUM (of_nat k), msg) # messages d" "spare (mm d) < ?c"
    with msg show ?thesis
      unfolding verdict_def
      by (intro disjI2 exI [of _ t'] exI [of _ d'] exI [of _ "LINENUM (of_nat k)"] exI [of _ msg]) simp
  next
    fix t' d' C'
    assume r: "valid_op record_ok tn k op (t, d) = returns (True, t', d')" and P: "replays ids t' d' C'"
      and "dom C' = alive" and E: "evolves fits_word demand spare ?c (mm d) (mm d')"
      and e: "errors d' = errors d" "messages d' = messages d"
    then have "verdict tn (total_cost (demand (mm d')) rest) (spare (mm d')) d'
        (valid_loop record_ok tn (k + 1) rest (t', d'))"
      using ok Cons.prems(3) by (intro Cons.IH [OF P]) (auto simp: evolves_def)
    moreover have "demand (mm d') = demand (mm d)" "spare (mm d) \<le> spare (mm d') + ?c"
      using E by (auto simp: evolves_def)
    ultimately have "verdict tn (?c + total_cost (demand (mm d)) rest) (spare (mm d)) d
        (valid_loop record_ok tn (k + 1) rest (t', d'))"
      using e by (elim verdict_mono) simp_all
    with r show ?thesis by simp
  qed
qed

section \<open>eval_mm_valid\<close>

text \<open>A trace as \<^verbatim>\<open>read_trace\<close> leaves it, whose requests the arithmetic can represent.\<close>

definition trace_ok :: "nat \<Rightarrow> trace_t \<Rightarrow> bool" where
  "trace_ok maxa t \<longleftrightarrow> unat (num_ids t) < 2 ^ 31 \<and> length (blocks t) = unat (num_ids t) \<and>
     length (block_sizes t) = unat (num_ids t) \<and>
     ops_ok (\<lambda>n. maxa + n + 15 < 2 ^ 32) (unat (num_ids t)) {} (trace_ops t)"

text \<open>The package after \<^verbatim>\<open>mm_init\<close>, as the driver sees it.\<close>

lemma init_package_ok:
  assumes "init_ok libc_malloc pg"
  defines "base \<equiv> unat (libc_malloc MAX_HEAP)" and "n \<equiv> adjusted (2 * unat pg)"
  obtains s' where "init_package libc_malloc pg d = returns (0, d\<lparr>mm := s'\<rparr>)" "mm.holds v s' Map.empty"
    "fits_word s' = (\<lambda>k. base + unat MAX_HEAP + k + 15 < 2 ^ 32)" "demand s' = (\<lambda>k. max (adjusted k) n)"
    "spare s' + 16 + n = unat MAX_HEAP" "mem_start_brk s' = libc_malloc MAX_HEAP"
proof -
  obtain s' F where *: "mm_init libc_malloc pg (mm d) = Some (Inr (0, s'))"
    "heap_inv s' (init_blocks base n) (frees (init_blocks base n)) F"
    "unat (ADJUSTED_PAGESIZE s') = n" "unat (mem_max_addr s') = base + unat MAX_HEAP" "brk s' = base + 16 + n"
    "mem_start_brk s' = libc_malloc MAX_HEAP"
    using mm_init_sim [OF assms(1), of "mm d"] unfolding base_def n_def by blast
  have "usable (init_blocks base n) = Map.empty" by (simp add: usable_def fun_eq_iff)
  then have "live s' Map.empty" using *(2) unfolding live_def by metis
  then have "mm.holds v s' Map.empty" by (rule mm.holds_empty)
  moreover have "n + 16 \<le> unat MAX_HEAP" using assms(1) by (simp add: init_ok_def n_def)
  ultimately show ?thesis
    using * by (intro that [of s'])
      (simp_all add: init_package_def fits_word_def demand_def spare_def fun_eq_iff)
qed

lemma eval_mm_valid_verdict:
  assumes ok: "init_ok libc_malloc pg" and t: "trace_ok (unat (libc_malloc MAX_HEAP) + unat MAX_HEAP) t"
    and r: "\<And>k. record_ok k"
  defines "n \<equiv> adjusted (2 * unat pg)"
  shows "verdict tn (16 + n + total_cost (\<lambda>k. max (adjusted k) n) (trace_ops t)) (unat MAX_HEAP) d
    (eval_mm_valid libc_malloc pg record_ok t tn d)"
proof -
  let ?d = "clear_ranges (d\<lparr>mm := mem_reset_brk (mm d)\<rparr>)"
  obtain s' where s': "init_package libc_malloc pg ?d = returns (0, ?d\<lparr>mm := s'\<rparr>)"
    "mm.holds pattern s' Map.empty"
    "fits_word s' = (\<lambda>k. unat (libc_malloc MAX_HEAP) + unat MAX_HEAP + k + 15 < 2 ^ 32)"
    "demand s' = (\<lambda>k. max (adjusted k) n)" "spare s' + 16 + n = unat MAX_HEAP"
    by (rule init_package_ok [OF ok, of ?d pattern, folded n_def])
  have P: "replays (unat (num_ids t)) t (?d\<lparr>mm := s', trace_operations := ops t\<rparr>) Map.empty"
    using t s'(2) by (simp add: replays_def trace_ok_def clear_ranges_def)
  have "verdict tn (total_cost (demand s') (trace_ops t)) (spare s') (?d\<lparr>mm := s', trace_operations := ops t\<rparr>)
      (valid_loop record_ok tn 0 (trace_ops t) (t, ?d\<lparr>mm := s', trace_operations := ops t\<rparr>))"
    using valid_loop_ok [OF P, of "trace_ops t" record_ok tn 0] t r
    by (simp add: trace_ok_def s'(3))
  then have "verdict tn (16 + n + total_cost (\<lambda>k. max (adjusted k) n) (trace_ops t)) (unat MAX_HEAP) d
      (valid_loop record_ok tn 0 (trace_ops t) (t, ?d\<lparr>mm := s', trace_operations := ops t\<rparr>))"
  proof (rule verdict_mono)
    assume "spare s' < total_cost (demand s') (trace_ops t)"
    then show "unat MAX_HEAP < 16 + n + total_cost (\<lambda>k. max (adjusted k) n) (trace_ops t)"
      using s'(5) unfolding s'(4) by linarith
  qed (simp_all add: clear_ranges_def)
  then show ?thesis
    using s'(1) by (simp add: eval_mm_valid_def Let_def)
qed

end
