(* ===== verification/Mdriver_Util.thy ===== *)
theory Mdriver_Util
  imports Mdriver_Valid
begin

text \<open>
  \<open>eval_mm_util\<close> of src/mdriver.c on well-formed traces that fit into the heap area: it
  returns, and the utilisation is the quotient of the high-water mark of the requested
  bytes and the size of the heap, hence at most 1.
\<close>

section \<open>The requested bytes fit into the heap\<close>

definition bytes :: "('a \<rightharpoonup> nat) \<Rightarrow> nat" where
  "bytes Z = (\<Sum>i \<in> dom Z. the (Z i))"

lemma bytes_upd:
  assumes "finite (dom Z)"
  shows "bytes (Z(i \<mapsto> n)) = bytes (Z(i := None)) + n"
proof -
  have "bytes (Z(i \<mapsto> n)) = (\<Sum>j \<in> insert i (dom Z - {i}). the ((Z(i \<mapsto> n)) j))"
    by (simp add: bytes_def)
  also have "\<dots> = n + (\<Sum>j \<in> dom Z - {i}. the ((Z(i \<mapsto> n)) j))"
    using assms by (subst sum.insert) simp_all
  also have "(\<Sum>j \<in> dom Z - {i}. the ((Z(i \<mapsto> n)) j)) = bytes (Z(i := None))"
    unfolding bytes_def by (rule sum.cong) auto
  finally show ?thesis by (simp only: add.commute)
qed

lemma bytes_del:
  assumes "finite (dom Z)" "Z i = Some n"
  shows "bytes (Z(i := None)) + n = bytes Z"
  using bytes_upd [OF assms(1), of i n] assms(2) by (simp add: fun_upd_idem)

text \<open>Disjoint intervals inside \<open>[lo, hi)\<close> have at most \<open>hi - lo\<close> bytes together.\<close>

lemma bytes_interval:
  assumes "\<And>a n. L a = Some n \<Longrightarrow> lo \<le> a \<and> a + n \<le> hi"
    and "\<And>a n b m. L a = Some n \<Longrightarrow> L b = Some m \<Longrightarrow> a \<noteq> b \<Longrightarrow> a + n \<le> b \<or> b + m \<le> a"
  shows "finite (dom L)" "bytes L \<le> hi - lo"
proof -
  have "dom L \<subseteq> {lo..hi}" using assms(1) by force
  then show fin: "finite (dom L)" by (rule finite_subset) simp
  have "bytes L = (\<Sum>a \<in> dom L. card {a..<a + the (L a)})" by (simp add: bytes_def)
  also have "\<dots> = card (\<Union>a \<in> dom L. {a..<a + the (L a)})"
  proof (rule card_UN_disjoint [symmetric])
    show "\<forall>a \<in> dom L. \<forall>b \<in> dom L. a \<noteq> b \<longrightarrow> {a..<a + the (L a)} \<inter> {b..<b + the (L b)} = {}"
    proof (intro ballI impI)
      fix a b
      assume "a \<in> dom L" "b \<in> dom L" "a \<noteq> b"
      then obtain n m where "L a = Some n" "L b = Some m" by blast
      with assms(2) [OF this \<open>a \<noteq> b\<close>] show "{a..<a + the (L a)} \<inter> {b..<b + the (L b)} = {}" by auto
    qed
  qed (simp_all add: fin)
  also have "\<dots> \<le> card {lo..<hi}"
  proof (rule card_mono)
    show "(\<Union>a \<in> dom L. {a..<a + the (L a)}) \<subseteq> {lo..<hi}"
    proof
      fix x
      assume "x \<in> (\<Union>a \<in> dom L. {a..<a + the (L a)})"
      then obtain a n where "L a = Some n" "a \<le> x" "x < a + n" by auto
      with assms(1) [of a n] show "x \<in> {lo..<hi}" by auto
    qed
  qed simp
  finally show "bytes L \<le> hi - lo" by simp
qed

lemma covers_bytes:
  assumes "covers s L"
  shows "finite (dom L)" "bytes L \<le> brk s - heap_lo s"
  using bytes_interval [of L "heap_lo s" "brk s"] covers_payload(3,4) [OF assms] covers_disjoint [OF assms]
  by blast+

section \<open>A client that writes nothing\<close>

text \<open>
  \<open>placed bs Z L P\<close>: block number \<open>i\<close> of size \<open>n\<close> is at the address \<open>P i\<close>, which the
  array \<open>bs\<close> holds, and these are all the blocks of \<open>L\<close>. \<open>tracks ids t s Z\<close>: the
  trace's array of pointers leads to the blocks that the client holds; \<open>Z\<close> gives the
  requested size for each block number in use.
\<close>

definition placed :: "addr list \<Rightarrow> (nat \<rightharpoonup> nat) \<Rightarrow> (nat \<rightharpoonup> nat) \<Rightarrow> (nat \<Rightarrow> nat) \<Rightarrow> bool" where
  "placed bs Z L P \<longleftrightarrow> inj_on P (dom Z) \<and> dom L = P ` dom Z \<and>
     (\<forall>i n. Z i = Some n \<longrightarrow> i < length bs \<and> bs ! i = w32 (P i) \<and> L (P i) = Some n)"

definition tracks :: "nat \<Rightarrow> trace_t \<Rightarrow> mm_state \<Rightarrow> (nat \<rightharpoonup> nat) \<Rightarrow> bool" where
  "tracks ids t s Z \<longleftrightarrow> ids < 2 ^ 31 \<and> length (blocks t) = ids \<and> (\<exists>L P. covers s L \<and> placed (blocks t) Z L P)"

lemma placedD:
  assumes "placed bs Z L P"
  shows "inj_on P (dom Z)" "dom L = P ` dom Z"
    "Z i = Some n \<Longrightarrow> i < length bs \<and> bs ! i = w32 (P i) \<and> L (P i) = Some n"
  using assms by (simp_all add: placed_def)

lemma placed_add:
  assumes Q: "placed bs Z L P" and i: "i < length bs" "Z i = None" and p: "L p = None"
  shows "placed (bs[i := w32 p]) (Z(i \<mapsto> n)) (L(p \<mapsto> n)) (P(i := p))"
proof -
  note D = placedD [OF Q]
  have ni: "i \<notin> dom Z" and np: "p \<notin> P ` dom Z" using i(2) p D(2) by (auto simp: domIff)
  have img: "(P(i := p)) ` insert i (dom Z) = insert p (P ` dom Z)"
    using ni by (auto simp: image_iff)
  have "inj_on (P(i := p)) (insert i (dom Z))"
    using D(1) np ni by (auto simp: inj_on_def)
  moreover have "dom (L(p \<mapsto> n)) = (P(i := p)) ` insert i (dom Z)"
    unfolding img by (simp add: D(2))
  moreover have "j < length (bs[i := w32 p]) \<and> bs[i := w32 p] ! j = w32 ((P(i := p)) j) \<and>
      (L(p \<mapsto> n)) ((P(i := p)) j) = Some m" if "(Z(i \<mapsto> n)) j = Some m" for j m
  proof (cases "j = i")
    case True
    with that i(1) show ?thesis by simp
  next
    case False
    with that have "Z j = Some m" by simp
    moreover from this np have "P j \<noteq> p" by blast
    ultimately show ?thesis using D(3) [of j m] False by simp
  qed
  ultimately show ?thesis unfolding placed_def dom_fun_upd by simp
qed

lemma placed_drop:
  assumes Q: "placed bs Z L P" and i: "Z i = Some n"
  shows "placed bs (Z(i := None)) (L(P i := None)) P"
proof -
  note D = placedD [OF Q]
  have "i \<in> dom Z" using i by blast
  then have img: "P ` (dom Z - {i}) = P ` dom Z - {P i}"
    using inj_on_image_set_diff [OF D(1), of "dom Z" "{i}"] by simp
  moreover have "inj_on P (dom Z - {i})" by (rule inj_on_subset [OF D(1)]) simp
  moreover have "j < length bs \<and> bs ! j = w32 (P j) \<and> (L(P i := None)) (P j) = Some m"
    if "(Z(i := None)) j = Some m" for j m
  proof -
    from that have j: "Z j = Some m" "j \<noteq> i" by (auto split: if_splits)
    then have "P j \<noteq> P i" using inj_onD [OF D(1), of j i] i by blast
    with D(3) [OF j(1)] show ?thesis by simp
  qed
  ultimately show ?thesis unfolding placed_def using D(2) by simp
qed

lemma tracksD:
  assumes "tracks ids t s Z"
  obtains L P where "covers s L" "placed (blocks t) Z L P" "ids < 2 ^ 31" "length (blocks t) = ids"
  using assms unfolding tracks_def by blast

lemma tracks_bytes:
  assumes "tracks ids t s Z"
  shows "finite (dom Z)" "bytes Z \<le> brk s - heap_lo s"
proof -
  obtain L P where c: "covers s L" and Q: "placed (blocks t) Z L P" by (rule tracksD [OF assms])
  note D = placedD [OF Q]
  show fin: "finite (dom Z)" using covers_bytes(1) [OF c] D(1) unfolding D(2) by (rule finite_imageD)
  have "bytes L = (\<Sum>i \<in> dom Z. the (L (P i)))" unfolding bytes_def D(2) using sum.reindex [OF D(1)] by simp
  also have "\<dots> = bytes Z" unfolding bytes_def
  proof (rule sum.cong [OF refl])
    fix i
    assume "i \<in> dom Z"
    then obtain n where "Z i = Some n" by blast
    with D(3) [OF this] show "the (L (P i)) = the (Z i)" by simp
  qed
  finally show "bytes Z \<le> brk s - heap_lo s" using covers_bytes(2) [OF c] by simp
qed

text \<open>The heap area stays and the break only moves up.\<close>

lemma covers_grows:
  assumes c: "covers s L"
  shows "0 < n \<Longrightarrow> fits_word s n \<Longrightarrow> mm_malloc (w32 n) s = Some (p, s') \<Longrightarrow> grows (demand s n) s s'"
    "L a = Some m \<Longrightarrow> 0 < n \<Longrightarrow> fits_word s n \<Longrightarrow> mm_realloc (w32 a) (w32 n) s = Some (p, s') \<Longrightarrow>
      grows (demand s n) s s'"
    "L a = Some m \<Longrightarrow> mm_free (w32 a) s = Some s' \<Longrightarrow> grows 0 s s'"
proof -
  have refl: "grows k s s" for k by (simp add: grows_def)
  from c obtain B F where inv: "heap_inv s B (frees B) F" and dom: "dom L = dom (usable B)"
    by (auto simp: covers_def live_def)
  have a: "\<exists>sz. allocs B a = Some sz" if "L a = Some m" for m
  proof -
    have "a \<in> dom (usable B)" using that dom by blast
    then show ?thesis by (auto simp: usable_def)
  qed
  show "grows (demand s n) s s'" if "0 < n" "fits_word s n" "mm_malloc (w32 n) s = Some (p, s')"
    using mm_malloc_sim [OF inv that(1,2)] that(3) refl by auto
  show "grows (demand s n) s s'"
    if A: "L a = Some m" "0 < n" "fits_word s n" "mm_realloc (w32 a) (w32 n) s = Some (p, s')"
  proof -
    obtain sz where "allocs B a = Some sz" using a [OF A(1)] by blast
    from mm_realloc_sim [OF inv this A(2,3)] A(4) refl show ?thesis by auto
  qed
  show "grows 0 s s'" if A: "L a = Some m" "mm_free (w32 a) s = Some s'"
  proof -
    obtain sz where "allocs B a = Some sz" using a [OF A(1)] by blast
    then show ?thesis by (rule mm_free_allocs [OF inv]) (use A(2) in auto)
  qed
qed

lemma tracks_malloc:
  assumes T: "tracks ids t s Z" and i: "i < ids" "Z i = None" and n: "0 < n" "fits_word s n" "demand s n \<le> spare s"
  shows "\<exists>p s'. mm_malloc (w32 n) s = Some (p, s') \<and> p \<noteq> NULL \<and>
    tracks ids (t\<lparr>blocks := (blocks t)[i := p]\<rparr>) s' (Z(i \<mapsto> n)) \<and> grows (demand s n) s s' \<and>
    evolves fits_word demand spare (demand s n) s s'"
proof -
  obtain L P where c: "covers s L" and Q: "placed (blocks t) Z L P" and len: "ids < 2 ^ 31" "length (blocks t) = ids"
    by (rule tracksD [OF T])
  from covers_malloc_spec [OF c n(1,2)] n(3) obtain p s' where run: "mm_malloc (w32 n) s = Some (w32 p, s')"
    "L p = None" "covers s' (L(p \<mapsto> n))" "w32 p \<noteq> NULL" "evolves fits_word demand spare (demand s n) s s'"
    by auto
  have "placed ((blocks t)[i := w32 p]) (Z(i \<mapsto> n)) (L(p \<mapsto> n)) (P(i := p))"
    using placed_add [OF Q _ i(2) run(2)] i(1) len(2) by simp
  then have "tracks ids (t\<lparr>blocks := (blocks t)[i := w32 p]\<rparr>) s' (Z(i \<mapsto> n))"
    unfolding tracks_def using run(3) len by auto
  with run(1,4,5) covers_grows(1) [OF c n(1,2) run(1)] show ?thesis by blast
qed

lemma tracks_free:
  assumes T: "tracks ids t s Z" and i: "Z i = Some n"
  shows "\<exists>s'. mm_free (blocks t ! i) s = Some s' \<and> tracks ids t s' (Z(i := None)) \<and> grows 0 s s' \<and>
    evolves fits_word demand spare 0 s s'"
proof -
  obtain L P where c: "covers s L" and Q: "placed (blocks t) Z L P" and len: "ids < 2 ^ 31" "length (blocks t) = ids"
    by (rule tracksD [OF T])
  note I = placedD(3) [OF Q i]
  from covers_free_spec [OF c, of "P i" n] I obtain s' where run: "mm_free (blocks t ! i) s = Some s'"
    "covers s' (L(P i := None))" "evolves fits_word demand spare 0 s s'"
    by auto
  have "grows 0 s s'" using covers_grows(3) [OF c, of "P i" n] I run(1) by simp
  with run placed_drop [OF Q i] len show ?thesis unfolding tracks_def by blast
qed

lemma tracks_realloc:
  assumes T: "tracks ids t s Z" and i: "Z i = Some m" and n: "0 < n" "fits_word s n" "demand s n \<le> spare s"
  shows "\<exists>p s'. mm_realloc (blocks t ! i) (w32 n) s = Some (p, s') \<and> p \<noteq> NULL \<and>
    tracks ids (t\<lparr>blocks := (blocks t)[i := p]\<rparr>) s' (Z(i \<mapsto> n)) \<and> grows (demand s n) s s' \<and>
    evolves fits_word demand spare (demand s n) s s'"
proof -
  obtain L P where c: "covers s L" and Q: "placed (blocks t) Z L P" and len: "ids < 2 ^ 31" "length (blocks t) = ids"
    by (rule tracksD [OF T])
  note I = placedD(3) [OF Q i]
  then have "L (P i) = Some m" by simp
  from covers_realloc_spec [OF c this n(1,2)] n(3) obtain p s' where
    run: "mm_realloc (w32 (P i)) (w32 n) s = Some (w32 p, s')" "L p = None"
    "covers s' (L(P i := None, p \<mapsto> n))" "w32 p \<noteq> NULL" "evolves fits_word demand spare (demand s n) s s'"
    by auto
  have "placed ((blocks t)[i := w32 p]) (Z(i := None, i \<mapsto> n)) (L(P i := None, p \<mapsto> n)) (P(i := p))"
    by (rule placed_add [OF placed_drop [OF Q i]]) (use I run(2) in simp_all)
  then have "tracks ids (t\<lparr>blocks := (blocks t)[i := w32 p]\<rparr>) s' (Z(i \<mapsto> n))"
    unfolding tracks_def using run(3) len by auto
  moreover have "grows (demand s n) s s'" using covers_grows(2) [OF c _ n(1,2) run(1)] I by blast
  ultimately show ?thesis using run(1,4,5) I by auto
qed

section \<open>The utilisation\<close>

text \<open>
  The specification: \<open>sizes_after op Z\<close> are the requested sizes after one operation, and
  \<open>peak h Z xs\<close> is the largest sum of requested bytes during the operations \<open>xs\<close>.
\<close>

definition sizes_after :: "traceop_t \<Rightarrow> (nat \<rightharpoonup> nat) \<Rightarrow> (nat \<rightharpoonup> nat)" where
  "sizes_after op Z = Z(unat (op_index op) := (if op_type op = FREE then None else Some (unat (op_size op))))"

fun peak :: "nat \<Rightarrow> (nat \<rightharpoonup> nat) \<Rightarrow> traceop_t list \<Rightarrow> nat" where
  "peak h Z [] = h"
| "peak h Z (op # rest) = peak (max h (bytes (sizes_after op Z))) (sizes_after op Z) rest"

text \<open>The counters agree with the specification, and the high-water mark fits into the heap.\<close>

definition metered :: "nat \<Rightarrow> trace_t \<Rightarrow> util_state \<Rightarrow> (nat \<rightharpoonup> nat) \<Rightarrow> nat \<Rightarrow> bool" where
  "metered ids t u Z h \<longleftrightarrow> tracks ids t (u_mm u) Z \<and> length (block_sizes t) = ids \<and>
     (\<forall>i n. Z i = Some n \<longrightarrow> block_sizes t ! i = w32 n) \<and> total u = w32 (bytes Z) \<and> hwm u = w32 h \<and>
     bytes Z \<le> h \<and> h \<le> brk (u_mm u) - heap_lo (u_mm u)"

lemma tracks_vars:
  assumes "tracks ids t s Z"
  shows "vars_ok s" "heap_lo s \<le> brk s"
proof -
  obtain L P where "covers s L" by (rule tracksD [OF assms])
  then obtain B F where "heap_inv s B (frees B) F" unfolding covers_def live_def by blast
  from heap_invD(1,2) [OF this] tiled_hi show "vars_ok s" "heap_lo s \<le> brk s" by fastforce+
qed

lemma vars_heap:
  assumes "vars_ok s"
  shows "heap_lo s = unat (mem_start_brk s) + 16" "brk s - heap_lo s < 2 ^ 31" "unat (mem_heapsize s) = brk s - unat (mem_start_brk s)"
  using assms
  by (auto simp: vars_ok_def memlib_inv_def heap_lo_def brk_def mem_heapsize_def unat_sub word_le_nat_alt)

lemma metered_mono:
  assumes M: "metered ids t u Z h" and g: "grows c (u_mm u) s" and T: "tracks ids t' s Z'"
    and sz: "length (block_sizes t') = ids" "\<forall>i n. Z' i = Some n \<longrightarrow> block_sizes t' ! i = w32 n"
    and tot: "tot = w32 (bytes Z')"
  shows "metered ids t' (raise_hwm (u\<lparr>u_mm := s, total := tot\<rparr>)) Z' (max h (bytes Z'))"
proof -
  have h: "h \<le> brk s - heap_lo s" "hwm u = w32 h"
    using M g by (auto simp: metered_def grows_def heap_lo_def)
  have b: "bytes Z' \<le> brk s - heap_lo s" by (rule tracks_bytes(2) [OF T])
  note lt = vars_heap(2) [OF tracks_vars(1) [OF T]]
  have "(if sint tot > sint (hwm u) then tot else hwm u) = w32 (max h (bytes Z'))"
    using h b lt by (simp add: tot sint_w32)
  then have "raise_hwm (u\<lparr>u_mm := s, total := tot\<rparr>) = u\<lparr>u_mm := s, total := tot, hwm := w32 (max h (bytes Z'))\<rparr>"
    by (auto simp: raise_hwm_def split: if_splits)
  then show ?thesis
    using T sz tot h(1) b by (simp add: metered_def)
qed

lemma metered_sizes:
  assumes "metered ids t u Z h" "i < ids"
  shows "\<forall>j m. (Z(i \<mapsto> n)) j = Some m \<longrightarrow> (block_sizes t)[i := w32 n] ! j = w32 m"
proof (intro allI impI)
  fix j m
  assume "(Z(i \<mapsto> n)) j = Some m"
  with assms show "(block_sizes t)[i := w32 n] ! j = w32 m"
    by (cases "j = i") (auto simp: metered_def)
qed

text \<open>One operation of the loop, when the heap has room for it.\<close>

lemma util_alloc_ok:
  assumes M: "metered ids t u Z h" and ty: "op_type op = ALLOC" and i: "op_index op = w32 i" "i < ids" "Z i = None"
    and n: "op_size op = w32 n" "0 < n" "fits_word (u_mm u) n" "demand (u_mm u) n \<le> spare (u_mm u)"
  shows "\<exists>t' u'. util_op op (t, u) = returns (t', u') \<and> metered ids t' u' (Z(i \<mapsto> n)) (max h (bytes (Z(i \<mapsto> n)))) \<and>
    grows (demand (u_mm u) n) (u_mm u) (u_mm u')"
proof -
  from M have T: "tracks ids t (u_mm u) Z" and len: "length (block_sizes t) = ids" and tot: "total u = w32 (bytes Z)"
    by (simp_all add: metered_def)
  from T have ids: "ids < 2 ^ 31" "length (blocks t) = ids" by (simp_all add: tracks_def)
  from tracks_malloc [OF T i(2,3) n(2-4)] obtain p s' where run: "mm_malloc (w32 n) (u_mm u) = Some (p, s')" "p \<noteq> NULL"
    "tracks ids (t\<lparr>blocks := (blocks t)[i := p]\<rparr>) s' (Z(i \<mapsto> n))" "grows (demand (u_mm u) n) (u_mm u) s'"
    by blast
  let ?t = "t\<lparr>blocks := (blocks t)[i := p], block_sizes := (block_sizes t)[i := w32 n]\<rparr>"
  let ?u = "raise_hwm (u\<lparr>u_mm := s', total := total u + w32 n\<rparr>)"
  have "bytes (Z(i \<mapsto> n)) = bytes Z + n"
    using bytes_upd [OF tracks_bytes(1) [OF T], of i n] i(3) by (simp add: fun_upd_idem)
  then have "metered ids ?t ?u (Z(i \<mapsto> n)) (max h (bytes (Z(i \<mapsto> n))))"
    using metered_sizes [OF M i(2), of n] run(3) len
    by (intro metered_mono [OF M run(4)]) (simp_all add: tracks_def tot w32_add)
  moreover have "util_op op (t, u) = returns (?t, ?u)"
    using run(1,2) ty i n ids len by (simp add: util_op_def array_set_ok Let_def)
  moreover have "grows (demand (u_mm u) n) (u_mm u) (u_mm ?u)" using run(4) by (simp add: raise_hwm_def)
  ultimately show ?thesis by blast
qed

lemma util_realloc_ok:
  assumes M: "metered ids t u Z h" and ty: "op_type op = REALLOC" and i: "op_index op = w32 i" "Z i = Some m"
    and n: "op_size op = w32 n" "0 < n" "fits_word (u_mm u) n" "demand (u_mm u) n \<le> spare (u_mm u)"
  shows "\<exists>t' u'. util_op op (t, u) = returns (t', u') \<and> metered ids t' u' (Z(i \<mapsto> n)) (max h (bytes (Z(i \<mapsto> n)))) \<and>
    grows (demand (u_mm u) n) (u_mm u) (u_mm u')"
proof -
  from M have T: "tracks ids t (u_mm u) Z" and len: "length (block_sizes t) = ids" and tot: "total u = w32 (bytes Z)"
    and old: "block_sizes t ! i = w32 m" using i(2) by (simp_all add: metered_def)
  from T have ids: "ids < 2 ^ 31" "length (blocks t) = ids" by (simp_all add: tracks_def)
  have il: "i < ids" using T i(2) ids(2) by (elim tracksD) (auto dest: placedD(3))
  from tracks_realloc [OF T i(2) n(2-4)] obtain p s' where
    run: "mm_realloc (blocks t ! i) (w32 n) (u_mm u) = Some (p, s')" "p \<noteq> NULL"
    "tracks ids (t\<lparr>blocks := (blocks t)[i := p]\<rparr>) s' (Z(i \<mapsto> n))" "grows (demand (u_mm u) n) (u_mm u) s'"
    by blast
  let ?t = "t\<lparr>blocks := (blocks t)[i := p], block_sizes := (block_sizes t)[i := w32 n]\<rparr>"
  let ?u = "raise_hwm (u\<lparr>u_mm := s', total := total u + (w32 n - w32 m)\<rparr>)"
  note fin = tracks_bytes(1) [OF T]
  have "bytes (Z(i \<mapsto> n)) + m = bytes Z + n"
    using bytes_upd [OF fin, of i n] bytes_del [OF fin i(2)] by linarith
  then have "w32 (bytes (Z(i \<mapsto> n))) + w32 m = w32 (bytes Z) + w32 n" by (simp only: w32_add)
  then have "total u + (w32 n - w32 m) = w32 (bytes (Z(i \<mapsto> n)))" by (simp add: tot algebra_simps)
  then have "metered ids ?t ?u (Z(i \<mapsto> n)) (max h (bytes (Z(i \<mapsto> n))))"
    using metered_sizes [OF M il, of n] run(3) len
    by (intro metered_mono [OF M run(4)]) (simp_all add: tracks_def)
  moreover have "util_op op (t, u) = returns (?t, ?u)"
    using run(1,2) ty i n ids len il old by (simp add: util_op_def array_set_ok array_get_ok Let_def)
  moreover have "grows (demand (u_mm u) n) (u_mm u) (u_mm ?u)" using run(4) by (simp add: raise_hwm_def)
  ultimately show ?thesis by blast
qed

lemma util_free_ok:
  assumes M: "metered ids t u Z h" and ty: "op_type op = FREE" and i: "op_index op = w32 i" "Z i = Some m"
  shows "\<exists>t' u'. util_op op (t, u) = returns (t', u') \<and> metered ids t' u' (Z(i := None)) (max h (bytes (Z(i := None)))) \<and>
    grows 0 (u_mm u) (u_mm u')"
proof -
  from M have T: "tracks ids t (u_mm u) Z" and len: "length (block_sizes t) = ids" and tot: "total u = w32 (bytes Z)"
    and old: "block_sizes t ! i = w32 m" and h: "bytes Z \<le> h" using i(2) by (simp_all add: metered_def)
  from T have ids: "ids < 2 ^ 31" "length (blocks t) = ids" by (simp_all add: tracks_def)
  have il: "i < ids" using T i(2) ids(2) by (elim tracksD) (auto dest: placedD(3))
  from tracks_free [OF T i(2)] obtain s' where run: "mm_free (blocks t ! i) (u_mm u) = Some s'"
    "tracks ids t s' (Z(i := None))" "grows 0 (u_mm u) s'"
    by blast
  note del = bytes_del [OF tracks_bytes(1) [OF T] i(2)]
  then have "max h (bytes (Z(i := None))) = h" using h by linarith
  moreover have "w32 (bytes (Z(i := None))) + w32 m = w32 (bytes Z)" by (simp only: w32_add del)
  then have "total u - w32 m = w32 (bytes (Z(i := None)))" by (simp add: tot algebra_simps)
  ultimately have "metered ids t (u\<lparr>u_mm := s', total := total u - w32 m\<rparr>) (Z(i := None)) (max h (bytes (Z(i := None))))"
    using M run(2,3) del by (auto simp: metered_def grows_def heap_lo_def)
  moreover have "util_op op (t, u) = returns (t, u\<lparr>u_mm := s', total := total u - w32 m\<rparr>)"
    using run(1) ty i ids len il old by (simp add: util_op_def array_get_ok Let_def)
  moreover have "grows 0 (u_mm u) (u_mm (u\<lparr>u_mm := s', total := total u - w32 m\<rparr>))" using run(3) by simp
  ultimately show ?thesis by blast
qed

lemma util_loop_ok:
  assumes "metered ids t u Z h" "ops_ok (fits_word (u_mm u)) ids (dom Z) xs"
    "total_cost (demand (u_mm u)) xs \<le> spare (u_mm u)"
  shows "\<exists>t' u' Z'. util_loop xs (t, u) = returns (t', u') \<and> metered ids t' u' Z' (peak h Z xs) \<and>
    mem_start_brk (u_mm u') = mem_start_brk (u_mm u)"
  using assms
proof (induction xs arbitrary: t u Z h)
  case Nil
  then show ?case by auto
next
  case (Cons op rest)
  define i n where "i = unat (op_index op)" and "n = unat (op_size op)"
  then have w: "op_index op = w32 i" "op_size op = w32 n" by simp_all
  let ?c = "if op_type op = FREE then 0 else demand (u_mm u) n" and ?Z = "sizes_after op Z"
  have room: "?c + total_cost (demand (u_mm u)) rest \<le> spare (u_mm u)"
    using Cons.prems(3) by (simp only: total_cost_simps n_def)
  have i: "i < ids" using Cons.prems(2) by (simp add: Let_def i_def)
  have "\<exists>t' u'. util_op op (t, u) = returns (t', u') \<and> metered ids t' u' ?Z (max h (bytes ?Z)) \<and> grows ?c (u_mm u) (u_mm u') \<and>
    ops_ok (fits_word (u_mm u)) ids (dom ?Z) rest"
  proof (cases "op_type op")
    case ALLOC
    with Cons.prems(2) have "i \<notin> dom Z" "0 < n" "fits_word (u_mm u) n" "ops_ok (fits_word (u_mm u)) ids (insert i (dom Z)) rest"
      by (auto simp: Let_def i_def n_def simp del: domIff)
    with util_alloc_ok [OF Cons.prems(1) ALLOC w(1) i _ w(2)] room ALLOC show ?thesis
      by (simp add: sizes_after_def domIff flip: i_def n_def)
  next
    case REALLOC
    with Cons.prems(2) have *: "i \<in> dom Z" "0 < n" "fits_word (u_mm u) n" "ops_ok (fits_word (u_mm u)) ids (dom Z) rest"
      by (auto simp: Let_def i_def n_def)
    then obtain m where "Z i = Some m" by blast
    with util_realloc_ok [OF Cons.prems(1) REALLOC w(1) this w(2)] room REALLOC * show ?thesis
      by (simp add: sizes_after_def insert_absorb flip: i_def n_def)
  next
    case FREE
    with Cons.prems(2) have *: "i \<in> dom Z" "ops_ok (fits_word (u_mm u)) ids (dom Z - {i}) rest"
      by (auto simp: Let_def i_def)
    then obtain m where "Z i = Some m" by blast
    with util_free_ok [OF Cons.prems(1) FREE w(1) this] FREE * show ?thesis
      by (simp add: sizes_after_def flip: i_def n_def)
  qed
  then obtain t' u' where run: "util_op op (t, u) = returns (t', u')" "metered ids t' u' ?Z (max h (bytes ?Z))"
    and g: "grows ?c (u_mm u) (u_mm u')" and ok: "ops_ok (fits_word (u_mm u)) ids (dom ?Z) rest"
    by blast
  from run(2) have "vars_ok (u_mm u')" using tracks_vars by (auto simp: metered_def)
  from grows_evolves [OF g this] have E: "fits_word (u_mm u') = fits_word (u_mm u)" "demand (u_mm u') = demand (u_mm u)"
    "spare (u_mm u) \<le> spare (u_mm u') + ?c"
    by (simp_all add: evolves_def)
  have "mem_start_brk (u_mm u') = mem_start_brk (u_mm u)" using g by (simp add: grows_def)
  with Cons.IH [OF run(2)] ok E room run(1) show ?case by simp
qed

lemma init_package_run:
  "init_package libc_malloc pg d = returns (v, d') \<Longrightarrow> mm_init libc_malloc pg (mm d) = Some (Inr (v, mm d'))"
  by (auto simp: init_package_def andthen_def call_def returns_def halts_def split: option.splits sum.splits prod.splits)

lemma ratio_Fin: "p + 16 \<le> h \<Longrightarrow> Fin (real p) / Fin (real h) = Fin (real p / real h)"
  by (rule Fin_divide_nz) simp

text \<open>The whole of \<open>eval_mm_util\<close>: it returns, and the quotient is at most 1.\<close>

lemma eval_mm_util_ok:
  assumes ok: "init_ok libc_malloc pg" and t: "trace_ok (unat (libc_malloc MAX_HEAP) + unat MAX_HEAP) t"
  defines "n \<equiv> adjusted (2 * unat pg)"
  assumes room: "16 + n + total_cost (\<lambda>k. max (adjusted k) n) (trace_ops t) \<le> unat MAX_HEAP"
  shows "\<exists>t' d'. eval_mm_util libc_malloc pg t d =
      returns (Fin (real (peak 0 Map.empty (trace_ops t)) / real (unat (mem_heapsize (mm d')))), t', d') \<and>
    peak 0 Map.empty (trace_ops t) + 16 \<le> unat (mem_heapsize (mm d')) \<and> unat (mem_heapsize (mm d')) \<le> unat MAX_HEAP"
proof -
  let ?d = "d\<lparr>mm := mem_reset_brk (mm d)\<rparr>"
  obtain s' where s': "init_package libc_malloc pg ?d = returns (0, ?d\<lparr>mm := s'\<rparr>)"
    "mm.holds pattern s' Map.empty"
    "fits_word s' = (\<lambda>k. unat (libc_malloc MAX_HEAP) + unat MAX_HEAP + k + 15 < 2 ^ 32)"
    "demand s' = (\<lambda>k. max (adjusted k) n)" "spare s' + 16 + n = unat MAX_HEAP"
    by (rule init_package_ok [OF ok, of ?d pattern, folded n_def])
  let ?u = "\<lparr>u_mm = s', total = 0, hwm = 0\<rparr>"
  have "covers s' Map.empty" using covers_init [OF ok init_package_run [OF s'(1)]] by simp
  then have T: "tracks (unat (num_ids t)) t s' Map.empty"
    using t by (auto simp: tracks_def trace_ok_def placed_def)
  then have "metered (unat (num_ids t)) t ?u Map.empty 0"
    using t by (simp add: metered_def trace_ok_def bytes_def)
  from util_loop_ok [OF this, of "trace_ops t"] t room s'(3-5) obtain t' u' Z' where
    run: "util_loop (trace_ops t) (t, ?u) = returns (t', u')" and
    M: "metered (unat (num_ids t)) t' u' Z' (peak 0 Map.empty (trace_ops t))"
    by (auto simp: trace_ok_def)
  from M have V: "vars_ok (u_mm u')" and h: "hwm u' = w32 (peak 0 Map.empty (trace_ops t))"
    "peak 0 Map.empty (trace_ops t) \<le> brk (u_mm u') - heap_lo (u_mm u')"
    using tracks_vars by (auto simp: metered_def)
  have "heap_lo (u_mm u') \<le> brk (u_mm u')" using M tracks_vars(2) by (auto simp: metered_def)
  with h vars_heap [OF V] have "sint (hwm u') = int (peak 0 Map.empty (trace_ops t))"
    "peak 0 Map.empty (trace_ops t) + 16 \<le> unat (mem_heapsize (u_mm u'))"
    by (simp_all add: sint_w32)
  moreover have "unat (mem_heapsize (u_mm u')) \<le> unat MAX_HEAP"
    using V vars_heap(3) [OF V] unfolding vars_ok_def memlib_inv_def brk_def by linarith
  moreover note ratio_Fin [OF calculation(2)]
  ultimately show ?thesis
    using run s'(1)
    by (intro exI [of _ t'] exI [of _ "?d\<lparr>mm := u_mm u'\<rparr>"])
      (simp add: eval_mm_util_def del: of_int_sint)
qed

end
