(* ===== verification/Mdriver_Replay.thy ===== *)
theory Mdriver_Replay
  imports Mdriver_Util
begin

text \<open>
  The runs that only replay a trace: \<open>eval_mm_speed\<close>, \<open>eval_libc_valid\<close> and
  \<open>eval_libc_speed\<close> of src/mdriver.c. They share the loop \<open>eval_loop\<close> over \<open>eval_op\<close>, and need
  of the allocator only that it serves requests and takes back the pointers it gave: the
  locale \<open>replay_heap\<close>. The package src/mm.c is an interpretation; for libc's allocator,
  which the driver can be told to measure, the locale's laws are the hypothesis.
\<close>

section \<open>The interface\<close>

text \<open>
  \<open>rep s A\<close>: the pointers that were given out and not taken back are \<open>A\<close>. A request for
  \<open>n\<close> bytes that is small enough (\<open>ok\<close>) succeeds when the \<open>room\<close> covers its \<open>cost\<close>.
\<close>

locale replay_heap =
  fixes rep :: "'s \<Rightarrow> addr set \<Rightarrow> bool"
    and malloc :: "size_t \<Rightarrow> 's \<Rightarrow> (addr \<times> 's) run"
    and realloc :: "addr \<Rightarrow> size_t \<Rightarrow> 's \<Rightarrow> (addr \<times> 's) run"
    and free :: "addr \<Rightarrow> 's \<Rightarrow> 's run"
    and ok :: "'s \<Rightarrow> nat \<Rightarrow> bool"
    and cost :: "'s \<Rightarrow> nat \<Rightarrow> nat"
    and room :: "'s \<Rightarrow> nat"
  assumes malloc_serves: "rep s A \<Longrightarrow> 0 < n \<Longrightarrow> ok s n \<Longrightarrow> cost s n \<le> room s \<Longrightarrow>
      \<exists>p s'. malloc (w32 n) s = returns (p, s') \<and> p \<noteq> NULL \<and> p \<notin> A \<and> rep s' (insert p A) \<and>
        evolves ok cost room (cost s n) s s'"
    and realloc_serves: "rep s A \<Longrightarrow> a \<in> A \<Longrightarrow> 0 < n \<Longrightarrow> ok s n \<Longrightarrow> cost s n \<le> room s \<Longrightarrow>
      \<exists>p s'. realloc a (w32 n) s = returns (p, s') \<and> p \<noteq> NULL \<and> p \<notin> A - {a} \<and> rep s' (insert p (A - {a})) \<and>
        evolves ok cost room (cost s n) s s'"
    and free_takes: "rep s A \<Longrightarrow> a \<in> A \<Longrightarrow> \<exists>s'. free a s = returns s' \<and> rep s' (A - {a}) \<and> evolves ok cost room 0 s s'"
begin

text \<open>The driver's array holds a pointer of its own for each block that is \<open>alive\<close>.\<close>

definition points :: "nat \<Rightarrow> trace_t \<Rightarrow> addr set \<Rightarrow> nat set \<Rightarrow> bool" where
  "points ids t A alive \<longleftrightarrow> ids < 2 ^ 31 \<and> length (blocks t) = ids \<and> alive \<subseteq> {..<ids} \<and>
     (\<forall>i \<in> alive. blocks t ! i \<in> A) \<and> inj_on ((!) (blocks t)) alive"

lemma points_empty: "ids < 2 ^ 31 \<Longrightarrow> length (blocks t) = ids \<Longrightarrow> points ids t A {}"
  by (simp add: points_def)

lemma points_set:
  assumes "points ids t A alive" "i < ids" "p \<notin> A - B" "\<And>j. j \<in> alive - {i} \<Longrightarrow> blocks t ! j \<notin> B"
  shows "points ids (t\<lparr>blocks := (blocks t)[i := p]\<rparr>) (insert p (A - B)) (insert i alive)"
proof -
  have old: "(blocks t)[i := p] ! j = blocks t ! j" "blocks t ! j \<in> A - B" if "j \<in> alive - {i}" for j
    using assms(1,4) that by (auto simp: points_def)
  have new: "(blocks t)[i := p] ! i = p" using assms(1,2) by (simp add: points_def)
  have "inj_on ((!) ((blocks t)[i := p])) (insert i (alive - {i}))"
  proof (subst inj_on_insert, intro conjI)
    have "inj_on ((!) (blocks t)) (alive - {i})" using assms(1) by (auto simp: points_def intro: inj_on_subset)
    then show "inj_on ((!) ((blocks t)[i := p])) (alive - {i})" using old(1) by (simp add: inj_on_def)
    show "(blocks t)[i := p] ! i \<notin> (!) ((blocks t)[i := p]) ` (alive - {i} - {i})"
      using new old assms(3) by auto
  qed
  moreover have "insert i (alive - {i}) = insert i alive" by auto
  moreover have "(blocks t)[i := p] ! j \<in> insert p (A - B)" if "j \<in> insert i alive" for j
    using that new old by (cases "j = i") auto
  ultimately show ?thesis using assms(1,2) unfolding points_def by simp
qed

lemma points_drop:
  assumes "points ids t A alive" "i \<in> alive"
  shows "points ids t (A - {blocks t ! i}) (alive - {i})"
  using assms unfolding points_def inj_on_def by blast

definition alive_after :: "traceop_t \<Rightarrow> nat set \<Rightarrow> nat set" where
  "alive_after op alive = (if op_type op = FREE then alive - {unat (op_index op)} else insert (unat (op_index op)) alive)"

lemma replay_op:
  assumes s: "rep s A" and P: "points ids t A alive" and ops: "ops_ok (ok s) ids alive (op # rest)"
    and room: "op_type op \<noteq> FREE \<Longrightarrow> cost s (unat (op_size op)) \<le> room s"
  shows "\<exists>t' s' A'. eval_op malloc realloc free op (t, s) = returns (t', s') \<and> rep s' A' \<and>
    points ids t' A' (alive_after op alive) \<and> ops_ok (ok s) ids (alive_after op alive) rest \<and>
    evolves ok cost room (if op_type op = FREE then 0 else cost s (unat (op_size op))) s s'"
proof -
  define i n where "i = unat (op_index op)" and "n = unat (op_size op)"
  then have w: "op_index op = w32 i" "op_size op = w32 n" "unat (w32 i) = i" "unat (w32 n) = n" by simp_all
  have i: "i < ids" using ops by (simp add: Let_def i_def)
  have ids: "i < 2 ^ 31" "i < length (blocks t)" using i P by (simp_all add: points_def)
  have mine: "blocks t ! i \<in> A" "\<And>j. j \<in> alive - {i} \<Longrightarrow> blocks t ! j \<notin> {blocks t ! i}" if "i \<in> alive"
    using P that by (auto simp: points_def dest: inj_onD)
  show ?thesis
  proof (cases "op_type op")
    case ALLOC
    with ops have *: "0 < n" "ok s n" "ops_ok (ok s) ids (insert i alive) rest"
      by (auto simp: Let_def i_def n_def)
    from malloc_serves [OF s *(1,2)] room ALLOC obtain p s' where
      p: "malloc (w32 n) s = returns (p, s')" "p \<noteq> NULL" "p \<notin> A" "rep s' (insert p A)" "evolves ok cost room (cost s n) s s'"
      by (auto simp: n_def)
    have "eval_op malloc realloc free op (t, s) = returns (t\<lparr>blocks := (blocks t)[i := p]\<rparr>, s')"
      using p(1,2) ids ALLOC by (simp add: eval_op_def w array_set_ok)
    moreover have "points ids (t\<lparr>blocks := (blocks t)[i := p]\<rparr>) (insert p A) (insert i alive)"
      using points_set [OF P i, of p "{}"] p(3) by simp
    ultimately show ?thesis using p(4,5) *(3) ALLOC by (auto simp: alive_after_def i_def n_def)
  next
    case REALLOC
    with ops have *: "0 < n" "ok s n" "ops_ok (ok s) ids alive rest" "i \<in> alive"
      by (auto simp: Let_def i_def n_def)
    from realloc_serves [OF s mine(1) [OF *(4)] *(1,2)] room REALLOC obtain p s' where
      p: "realloc (blocks t ! i) (w32 n) s = returns (p, s')" "p \<noteq> NULL" "p \<notin> A - {blocks t ! i}"
      "rep s' (insert p (A - {blocks t ! i}))" "evolves ok cost room (cost s n) s s'"
      by (auto simp: n_def)
    have "eval_op malloc realloc free op (t, s) = returns (t\<lparr>blocks := (blocks t)[i := p]\<rparr>, s')"
      using p(1,2) ids REALLOC by (simp add: eval_op_def w array_set_ok array_get_ok)
    moreover have "points ids (t\<lparr>blocks := (blocks t)[i := p]\<rparr>) (insert p (A - {blocks t ! i})) (insert i alive)"
      by (rule points_set [OF P i p(3) mine(2) [OF *(4)]])
    moreover have "insert i alive = alive" using *(4) by auto
    ultimately show ?thesis using p(4,5) *(3) REALLOC by (auto simp: alive_after_def i_def n_def)
  next
    case FREE
    with ops have *: "i \<in> alive" "ops_ok (ok s) ids (alive - {i}) rest" by (auto simp: Let_def i_def)
    from free_takes [OF s mine(1) [OF *(1)]] obtain s' where
      "free (blocks t ! i) s = returns s'" "rep s' (A - {blocks t ! i})" "evolves ok cost room 0 s s'" by blast
    moreover have "eval_op malloc realloc free op (t, s) = returns (t, s')"
      using calculation(1) ids FREE by (simp add: eval_op_def w array_get_ok)
    ultimately show ?thesis using points_drop [OF P *(1)] *(2) FREE by (auto simp: alive_after_def i_def)
  qed
qed

lemma replay_loop:
  assumes "rep s A" "points ids t A alive" "ops_ok (ok s) ids alive xs" "total_cost (cost s) xs \<le> room s"
  shows "\<exists>t' s' A'. eval_loop (eval_op malloc realloc free) xs (t, s) = returns (t', s') \<and> rep s' A' \<and>
    evolves ok cost room (total_cost (cost s) xs) s s'"
  using assms
proof (induction xs arbitrary: t s A alive)
  case Nil
  then show ?case by (auto simp: evolves_def)
next
  case (Cons op rest)
  let ?c = "if op_type op = FREE then 0 else cost s (unat (op_size op))"
  have "op_type op \<noteq> FREE \<Longrightarrow> cost s (unat (op_size op)) \<le> room s" using Cons.prems(4) by simp
  from replay_op [OF Cons.prems(1-3) this] obtain t1 s1 A1 where
    run: "eval_op malloc realloc free op (t, s) = returns (t1, s1)" "rep s1 A1" "points ids t1 A1 (alive_after op alive)"
    "ops_ok (ok s) ids (alive_after op alive) rest" and E: "evolves ok cost room ?c s s1"
    by blast
  from E Cons.prems(4) have same: "ok s1 = ok s" "cost s1 = cost s" "total_cost (cost s) rest \<le> room s1"
    unfolding evolves_def total_cost_simps by linarith+
  with Cons.IH [OF run(2,3)] run(4) obtain t' s' A' where
    "eval_loop (eval_op malloc realloc free) rest (t1, s1) = returns (t', s')" "rep s' A'"
    "evolves ok cost room (total_cost (cost s) rest) s1 s'"
    by auto
  with run(1) evolves_trans [OF E this(3)] show ?case by auto
qed

end

section \<open>The package\<close>

definition held :: "mm_state \<Rightarrow> addr set \<Rightarrow> bool" where
  "held s A \<longleftrightarrow> (\<exists>L. covers s L \<and> A = w32 ` dom L)"

lemma held_w32:
  assumes "covers s L" "a \<in> dom L" "b < 2 ^ 32"
  shows "w32 a = w32 b \<longleftrightarrow> a = b"
proof -
  obtain n where "L a = Some n" using assms(2) by blast
  from covers_payload(5) [OF assms(1) this] assms(3) show ?thesis by (simp add: w32_eq_iff)
qed

lemma held_fresh:
  assumes "covers s L" "L p = None" "p < 2 ^ 32"
  shows "w32 p \<notin> w32 ` dom L"
proof
  assume "w32 p \<in> w32 ` dom L"
  then obtain x where x: "w32 p = w32 x" "x \<in> dom L" by (elim imageE)
  with held_w32 [OF assms(1) x(2) assms(3)] have "x = p" by simp
  with x(2) assms(2) show False by auto
qed

lemma held_drop:
  assumes "covers s L" "L a = Some n"
  shows "w32 ` dom (L(a := None)) = w32 ` dom L - {w32 a}"
proof -
  have "a < 2 ^ 32" using covers_payload(5) [OF assms] by simp
  with held_w32 [OF assms(1)] show ?thesis by auto
qed

interpretation mm_replay: replay_heap held "\<lambda>n s. call (mm_malloc n s)" "\<lambda>p n s. call (mm_realloc p n s)"
  "\<lambda>p s. call (mm_free p s)" fits_word demand spare
proof
  fix s A and n :: nat
  assume A: "held s A" and n: "0 < n" "fits_word s n" "demand s n \<le> spare s"
  from A obtain L where L: "covers s L" "A = w32 ` dom L" by (auto simp: held_def)
  from covers_malloc_spec [OF L(1) n(1,2)] n(3) obtain p s' where
    p: "mm_malloc (w32 n) s = Some (w32 p, s')" "L p = None" "covers s' (L(p \<mapsto> n))" "w32 p \<noteq> NULL"
    "evolves fits_word demand spare (demand s n) s s'"
    by auto
  have "p < 2 ^ 32" using covers_payload(5) [OF p(3), of p n] by simp
  then have "w32 p \<notin> A" using held_fresh [OF L(1) p(2)] L(2) by simp
  moreover have "held s' (insert (w32 p) A)" unfolding held_def using p(3) L(2) by (intro exI [of _ "L(p \<mapsto> n)"]) auto
  ultimately show "\<exists>p s'. call (mm_malloc (w32 n) s) = returns (p, s') \<and> p \<noteq> NULL \<and> p \<notin> A \<and> held s' (insert p A) \<and>
      evolves fits_word demand spare (demand s n) s s'"
    using p by (auto simp: call_def returns_def)
next
  fix s A a and n :: nat
  assume A: "held s A" "a \<in> A" and n: "0 < n" "fits_word s n" "demand s n \<le> spare s"
  from A obtain L b m where L: "covers s L" "A = w32 ` dom L" "a = w32 b" "L b = Some m" by (auto simp: held_def)
  from covers_realloc_spec [OF L(1,4) n(1,2)] n(3) obtain p s' where
    p: "mm_realloc (w32 b) (w32 n) s = Some (w32 p, s')" "L p = None" "covers s' (L(b := None, p \<mapsto> n))" "w32 p \<noteq> NULL"
    "evolves fits_word demand spare (demand s n) s s'"
    by auto
  have "p < 2 ^ 32" using covers_payload(5) [OF p(3), of p n] by simp
  then have "w32 p \<notin> A" using held_fresh [OF L(1) p(2)] L(2) by simp
  moreover have "held s' (insert (w32 p) (A - {a}))"
    unfolding held_def using p(3) L(2,3) held_drop [OF L(1,4)]
    by (intro exI [of _ "L(b := None, p \<mapsto> n)"]) (auto simp del: fun_upd_apply)
  ultimately show "\<exists>p s'. call (mm_realloc a (w32 n) s) = returns (p, s') \<and> p \<noteq> NULL \<and> p \<notin> A - {a} \<and>
      held s' (insert p (A - {a})) \<and> evolves fits_word demand spare (demand s n) s s'"
    using p L(3) by (auto simp: call_def returns_def)
next
  fix s A a
  assume A: "held s A" "a \<in> A"
  then obtain L b m where L: "covers s L" "A = w32 ` dom L" "a = w32 b" "L b = Some m" by (auto simp: held_def)
  from covers_free_spec [OF L(1,4)] obtain s' where
    f: "mm_free (w32 b) s = Some s'" "covers s' (L(b := None))" "evolves fits_word demand spare 0 s s'" by blast
  have "held s' (A - {a})"
    unfolding held_def using f(2) L(2,3) held_drop [OF L(1,4)] by (intro exI [of _ "L(b := None)"]) (simp only: simp_thms)
  with f(1,3) L(3) show "\<exists>s'. call (mm_free a s) = returns s' \<and> held s' (A - {a}) \<and> evolves fits_word demand spare 0 s s'"
    by (auto simp: call_def returns_def)
qed

text \<open>\<open>eval_mm_speed\<close> replays the trace without a failure, so it is fit for being timed.\<close>

lemma eval_mm_speed_ok:
  assumes ok: "init_ok libc_malloc pg" and t: "trace_ok (unat (libc_malloc MAX_HEAP) + unat MAX_HEAP) t"
  defines "n \<equiv> adjusted (2 * unat pg)"
  assumes room: "16 + n + total_cost (\<lambda>k. max (adjusted k) n) (trace_ops t) \<le> unat MAX_HEAP"
  shows "\<exists>t' d'. eval_mm_speed libc_malloc pg t d = returns (t', d')"
proof -
  let ?d = "d\<lparr>mm := mem_reset_brk (mm d)\<rparr>"
  obtain s' where s': "init_package libc_malloc pg ?d = returns (0, ?d\<lparr>mm := s'\<rparr>)"
    "mm.holds pattern s' Map.empty"
    "fits_word s' = (\<lambda>k. unat (libc_malloc MAX_HEAP) + unat MAX_HEAP + k + 15 < 2 ^ 32)"
    "demand s' = (\<lambda>k. max (adjusted k) n)" "spare s' + 16 + n = unat MAX_HEAP"
    by (rule init_package_ok [OF ok, of ?d pattern, folded n_def])
  have "covers s' Map.empty" using covers_init [OF ok init_package_run [OF s'(1)]] by simp
  then have "held s' {}" unfolding held_def by (intro exI [of _ Map.empty]) simp
  moreover have "mm_replay.points (unat (num_ids t)) t {} {}"
    using t by (intro mm_replay.points_empty) (simp_all add: trace_ok_def)
  ultimately obtain t' u' where "eval_loop (eval_op (\<lambda>n s. call (mm_malloc n s)) (\<lambda>p n s. call (mm_realloc p n s))
      (\<lambda>p s. call (mm_free p s))) (trace_ops t) (t, s') = returns (t', u')"
    using mm_replay.replay_loop [of s' "{}" "unat (num_ids t)" t "{}" "trace_ops t"] t room s'(3-5) by (auto simp: trace_ok_def)
  then show ?thesis using s'(1) by (simp add: eval_mm_speed_def)
qed

section \<open>The allocator of libc\<close>

text \<open>
  What the C standard promises of \<^verbatim>\<open>malloc\<close>, \<^verbatim>\<open>realloc\<close> and \<^verbatim>\<open>free\<close>, as far as the driver relies on
  it, while memory lasts: they return, a pointer that is given out is not null and not among
  those in use, and what was given out can be resized and released. \<open>room\<close> is the memory that
  is left, of which a request for \<open>n\<close> bytes uses up at most \<open>cost n\<close>.
\<close>

definition libc_serves ::
  "('s \<Rightarrow> addr set \<Rightarrow> bool) \<Rightarrow> (size_t \<Rightarrow> 's \<Rightarrow> (addr \<times> 's) run) \<Rightarrow> (addr \<Rightarrow> size_t \<Rightarrow> 's \<Rightarrow> (addr \<times> 's) run) \<Rightarrow>
    (addr \<Rightarrow> 's \<Rightarrow> 's run) \<Rightarrow> (nat \<Rightarrow> nat) \<Rightarrow> ('s \<Rightarrow> nat) \<Rightarrow> bool" where
  "libc_serves rep malloc realloc free cost room \<longleftrightarrow>
     replay_heap rep malloc realloc free (\<lambda>_ _. True) (\<lambda>_. cost) room"

lemma libc_replay:
  assumes L: "libc_serves rep malloc realloc free cost room" and s: "rep s A" and t: "trace_ok hi t"
    and room: "total_cost cost (trace_ops t) \<le> room s"
  shows "\<exists>t' s' A'. eval_loop (eval_op malloc realloc free) (trace_ops t) (t, s) = returns (t', s') \<and> rep s' A' \<and>
    room s \<le> room s' + total_cost cost (trace_ops t)"
proof -
  note R = L [unfolded libc_serves_def]
  have mono: "ops_ok ok ids alive xs \<Longrightarrow> ops_ok (\<lambda>_. True) ids alive xs" for ok ids alive xs
    by (induction xs arbitrary: alive) (auto simp: Let_def split: optype.splits)
  have "unat (num_ids t) < 2 ^ 31" "length (blocks t) = unat (num_ids t)"
    "ops_ok (\<lambda>_. True) (unat (num_ids t)) {} (trace_ops t)"
    using t mono by (auto simp: trace_ok_def)
  with replay_heap.replay_loop [OF R s replay_heap.points_empty [OF R], of "unat (num_ids t)" t "trace_ops t"] room
  show ?thesis by (auto simp: evolves_def)
qed

end
