(* ===== verification/Clock.thy ===== *)
theory Clock
  imports Doubles Mm_Prelude
begin

text \<open>
  The cycle counter of src/clock.c, in its x86 and its Alpha version, and the calibration
  and compensation built on the first. What the machine delivers is a
  parameter: \<open>access_counter\<close> reads the 64-bit time stamp as two 32-bit halves, and
  \<^verbatim>\<open>times\<close> the number of clock ticks of the process. A \<^verbatim>\<open>double\<close> that is never the result
  of a division by zero is a \<open>real\<close>, which agrees with it for the integers below \<open>2 ^ 53\<close> that
  occur here.

  The main fact is that the borrow of the two-word subtraction is right: \<open>get_counter\<close> is
  the difference of the two time stamps modulo \<open>2 ^ 64\<close>.
\<close>

section \<open>The counter\<close>

type_synonym stamp = "32 word \<times> 32 word"

record clock =
  cyc_hi :: "32 word"
  cyc_lo :: "32 word"
  cyc_per_tick :: real
  start_tick :: int

definition start_counter :: "stamp \<Rightarrow> clock \<Rightarrow> clock" where
  "start_counter access_counter c = c\<lparr>cyc_hi := fst access_counter, cyc_lo := snd access_counter\<rparr>"

text \<open>The result, and whether the complaint about a negative value is printed.\<close>

definition get_counter :: "stamp \<Rightarrow> clock \<Rightarrow> real \<times> bool" where
  "get_counter access_counter c =
     (let (ncyc_hi, ncyc_lo) = access_counter;
          lo = ncyc_lo - cyc_lo c;
          borrow = (if lo > ncyc_lo then 1 else 0);
          hi = ncyc_hi - cyc_hi c - borrow;
          result = real (unat hi) * real_of_int (sint (push_bit 30 1 :: 32 word)) * 4 + real (unat lo)
      in (result, result < 0))"

text \<open>
  The Alpha version has a 32-bit counter \<open>counter\<close> only; the high words are zero.
\<close>

definition start_counter_alpha :: "32 word \<Rightarrow> clock \<Rightarrow> clock" where
  "start_counter_alpha counter c = c\<lparr>cyc_hi := 0, cyc_lo := counter\<rparr>"

definition get_counter_alpha :: "32 word \<Rightarrow> clock \<Rightarrow> real \<times> bool" where
  "get_counter_alpha counter c =
     (let ncyc_lo = counter;
          ncyc_hi = 0;
          lo = ncyc_lo - cyc_lo c;
          borrow = (if lo > ncyc_lo then 1 else 0);
          hi = ncyc_hi - cyc_hi c - borrow;
          result = real (unat hi) * real_of_int (sint (push_bit 30 1 :: 32 word)) * 4 + real (unat lo)
      in (result, result < 0))"

text \<open>\<open>readings\<close> are the time stamps of the calls, in their order.\<close>

fun ovhd_loop :: "(stamp \<times> stamp) list \<Rightarrow> real \<Rightarrow> clock \<Rightarrow> real \<times> clock" where
  "ovhd_loop [] result c = (result, c)"
| "ovhd_loop ((r1, r2) # readings) result c =
     (let c = start_counter r1 c in ovhd_loop readings (fst (get_counter r2 c)) c)"

definition ovhd :: "stamp \<times> stamp \<Rightarrow> stamp \<times> stamp \<Rightarrow> clock \<Rightarrow> real \<times> clock" where
  "ovhd first second c = ovhd_loop [first, second] 0 c"

definition mhz_full :: "stamp \<Rightarrow> stamp \<Rightarrow> int \<Rightarrow> clock \<Rightarrow> double \<times> clock" where
  "mhz_full before after sleeptime c =
     (let c = start_counter before c in (Fin (fst (get_counter after c)) / Fin (1000000 * real_of_int sleeptime), c))"

definition mhz :: "stamp \<Rightarrow> stamp \<Rightarrow> clock \<Rightarrow> double \<times> clock" where
  "mhz before after c = mhz_full before after 2 c"

section \<open>Compensation for timer interrupts\<close>

definition NEVENT :: nat where
  "NEVENT = 100"

definition THRESHOLD :: real where
  "THRESHOLD = 1000"

definition RECORDTHRESH :: real where
  "RECORDTHRESH = 3000"

text \<open>
  One round of the loop of \<open>callibrate\<close> looks at the time stamp and, when enough cycles have
  passed, at the tick count that \<^verbatim>\<open>times\<close> delivers then. The loop runs until it has seen
  \<open>NEVENT\<close> ticks; \<open>None\<close> means that it is still running after all the \<open>looks\<close>.
\<close>

type_synonym look = "stamp \<times> int"

fun callibrate_loop :: "look list \<Rightarrow> nat \<Rightarrow> real \<Rightarrow> int \<Rightarrow> clock \<Rightarrow> clock option" where
  "callibrate_loop looks e oldt oldc c =
     (if \<not> e < NEVENT then Some c
      else case looks of
        [] \<Rightarrow> None
      | (r, newc) # rest \<Rightarrow>
          let newt = fst (get_counter r c) in
          if newt - oldt \<ge> THRESHOLD then
            if newc > oldc then
              let cpt = (newt - oldt) / real_of_int (newc - oldc);
                  c = (if (cyc_per_tick c = 0 \<or> cyc_per_tick c > cpt) \<and> cpt > RECORDTHRESH
                       then c\<lparr>cyc_per_tick := cpt\<rparr> else c)
              in callibrate_loop rest (e + 1) newt newc c
            else callibrate_loop rest e newt oldc c
          else callibrate_loop rest e oldt oldc c)"

declare callibrate_loop.simps [simp del]

text \<open>
  What the machine delivers to a calibration: the tick count and the two time stamps before
  the loop, and the looks.
\<close>

type_synonym calibration = "int \<times> stamp \<times> stamp \<times> look list"

definition callibrate :: "calibration \<Rightarrow> clock \<Rightarrow> clock option" where
  "callibrate = (\<lambda>(oldc, r1, r2, looks) c.
     let c = start_counter r1 c; oldt = fst (get_counter r2 c) in callibrate_loop looks 0 oldt oldc c)"

definition start_comp_counter :: "calibration \<Rightarrow> int \<Rightarrow> stamp \<Rightarrow> clock \<Rightarrow> clock option" where
  "start_comp_counter calib utime r c =
     map_option (\<lambda>c. start_counter r (c\<lparr>start_tick := utime\<rparr>))
       (if cyc_per_tick c = 0 then callibrate calib c else Some c)"

definition get_comp_counter :: "stamp \<Rightarrow> int \<Rightarrow> clock \<Rightarrow> real" where
  "get_comp_counter r utime c =
     (let time = fst (get_counter r c); ticks = utime - start_tick c
      in time - real_of_int ticks * cyc_per_tick c)"

section \<open>The two-word subtraction\<close>

definition stamp_nat :: "stamp \<Rightarrow> nat" where
  "stamp_nat = (\<lambda>(hi, lo). unat hi * 2 ^ 32 + unat lo)"

lemma stamp_lt: "stamp_nat r < 2 ^ 64"
proof -
  obtain hi lo where r: "r = (hi, lo)" by (cases r)
  have "unat hi < 2 ^ 32" "unat lo < 2 ^ 32" by (rule unat_lt2p_32)+
  then show ?thesis by (simp add: stamp_nat_def r)
qed

lemma unat_diff_32: "unat (a - b :: 32 word) = (if unat b \<le> unat a then unat a - unat b else unat a + 2 ^ 32 - unat b)"
  by (simp add: unat_sub_if')

text \<open>Subtraction with borrow: the two halves of the difference modulo \<open>2 ^ 64\<close>.\<close>

lemma borrow_sub:
  fixes nhi nlo ohi olo :: "32 word"
  defines "lo \<equiv> nlo - olo"
  defines "hi \<equiv> nhi - ohi - (if lo > nlo then 1 else 0)"
  shows "int (stamp_nat (hi, lo)) = (int (stamp_nat (nhi, nlo)) - int (stamp_nat (ohi, olo))) mod 2 ^ 64"
proof -
  have lo: "unat lo = (if unat olo \<le> unat nlo then unat nlo - unat olo else unat nlo + 2 ^ 32 - unat olo)"
    unfolding lo_def by (rule unat_diff_32)
  have b: "lo > nlo \<longleftrightarrow> unat olo > unat nlo"
    using lo unat_lt2p_32 [of olo] unat_lt2p_32 [of nlo] by (auto simp: word_less_nat_alt split: if_splits)
  have hi: "int (unat hi) = (int (unat nhi) - int (unat ohi) - (if unat olo > unat nlo then 1 else 0)) mod 2 ^ 32"
    unfolding hi_def b by (simp add: uint_word_ariths flip: uint_nat) (simp add: mod_simps)
  define k where "k = int (unat nhi) - int (unat ohi) - (if unat olo > unat nlo then 1 else 0)"
  define v where "v = int (unat hi) * 2 ^ 32 + int (unat lo)"
  have h: "int (unat hi) = k mod 2 ^ 32" using hi by (simp add: k_def)
  define q where "q = k div 2 ^ 32"
  define r where "r = k mod 2 ^ 32"
  have "k = q * 2 ^ 32 + r" unfolding q_def r_def by (rule div_mult_mod_eq [symmetric])
  then have "k * 2 ^ 32 = q * 2 ^ 64 + r * 2 ^ 32" by simp
  moreover have "int (stamp_nat (nhi, nlo)) - int (stamp_nat (ohi, olo)) = k * 2 ^ 32 + int (unat lo)"
    using lo unat_lt2p_32 [of olo] unat_lt2p_32 [of nlo] by (auto simp: stamp_nat_def k_def split: if_splits)
  ultimately have D: "int (stamp_nat (nhi, nlo)) - int (stamp_nat (ohi, olo)) = v + q * 2 ^ 64"
    unfolding v_def h r_def [symmetric] by simp
  have v: "v = int (stamp_nat (hi, lo))" by (simp add: v_def stamp_nat_def)
  have "v mod 2 ^ 64 = v" using stamp_lt [of "(hi, lo)"] unfolding v by (simp add: mod_pos_pos_trivial)
  then show ?thesis unfolding D v [symmetric] by (simp only: mod_mult_self1)
qed

text \<open>The number of cycles between two readings, for less than \<open>2 ^ 64\<close> cycles; never negative.\<close>

lemma get_counter_diff:
  "fst (get_counter now (start_counter before c)) = real_of_int ((int (stamp_nat now) - int (stamp_nat before)) mod 2 ^ 64)"
proof -
  obtain nhi nlo ohi olo where r: "now = (nhi, nlo)" "before = (ohi, olo)" by (cases now; cases before)
  have one: "sint (push_bit 30 1 :: 32 word) = 2 ^ 30"
    by (simp add: push_bit_eq_mult sint_uint signed_take_bit_int_eq_self uint_word_ariths)
  show ?thesis
    using borrow_sub [of nhi ohi nlo olo, symmetric]
    by (simp add: r get_counter_def start_counter_def Let_def one stamp_nat_def)
qed

lemma get_counter_nonneg: "0 \<le> fst (get_counter r c)" "\<not> snd (get_counter r c)"
proof -
  have "c = start_counter (cyc_hi c, cyc_lo c) c" by (simp add: start_counter_def)
  then obtain b where c: "c = start_counter b c" by blast
  have "fst (get_counter r (start_counter b c)) \<ge> 0" unfolding get_counter_diff by simp
  then show "0 \<le> fst (get_counter r c)" using c by simp
  moreover have "snd (get_counter r c) = (fst (get_counter r c) < 0)"
    by (cases r) (simp only: get_counter_def Let_def prod.case fst_conv snd_conv)
  ultimately show "\<not> snd (get_counter r c)" by simp
qed

text \<open>
  On the Alpha the borrow is wrong: when the 32-bit counter wraps around between the two
  readings, the result is close to \<open>2 ^ 64\<close> instead of the number of cycles.
\<close>

lemma get_counter_alpha_diff:
  "fst (get_counter_alpha now (start_counter_alpha before c)) =
    real_of_int ((int (unat now) - int (unat before)) mod 2 ^ 64)"
proof -
  have "get_counter_alpha now (start_counter_alpha before c) = get_counter (0, now) (start_counter (0, before) c)"
    by (simp add: get_counter_alpha_def get_counter_def start_counter_alpha_def start_counter_def Let_def)
  then show ?thesis using get_counter_diff [of "(0, now)" "(0, before)" c] by (simp add: stamp_nat_def)
qed

lemma get_counter_alpha_wraps:
  assumes "unat now < unat before"
  shows "fst (get_counter_alpha now (start_counter_alpha before c)) = 2 ^ 64 - real (unat before - unat now)"
proof -
  define x where "x = int (unat now) - int (unat before)"
  have "unat before < 4294967296" using unat_lt2p_32 [of before] by simp
  then have "- 4294967296 < x" "x < 0" unfolding x_def using assms by linarith+
  then have x: "0 \<le> x + 2 ^ 64" "x + 2 ^ 64 < 2 ^ 64" by simp_all
  have "x mod 2 ^ 64 = (x + 2 ^ 64) mod 2 ^ 64" by (simp only: mod_add_self2)
  also have "\<dots> = x + 2 ^ 64" using x by (rule mod_pos_pos_trivial)
  also have "\<dots> = 2 ^ 64 - int (unat before - unat now)" unfolding x_def using assms by linarith
  finally have "(int (unat now) - int (unat before)) mod 2 ^ 64 = 2 ^ 64 - int (unat before - unat now)"
    unfolding x_def .
  then show ?thesis unfolding get_counter_alpha_diff by simp
qed

section \<open>The calibration\<close>

text \<open>Only the estimate changes; whatever is measured, it is none or more than \<open>RECORDTHRESH\<close> cycles per tick.\<close>

lemma callibrate_loop_range:
  assumes "callibrate_loop looks e oldt oldc c = Some c'" "cyc_per_tick c = 0 \<or> RECORDTHRESH < cyc_per_tick c"
  shows "c' = c\<lparr>cyc_per_tick := cyc_per_tick c'\<rparr> \<and> (cyc_per_tick c' = 0 \<or> RECORDTHRESH < cyc_per_tick c')"
  using assms
proof (induction looks arbitrary: e oldt oldc c)
  case Nil
  then show ?case by (subst (asm) callibrate_loop.simps) (simp split: if_splits)
next
  case (Cons x rest)
  obtain r newc where x: "x = (r, newc)" by (cases x)
  show ?case
  proof (cases "e < NEVENT")
    case False
    with Cons.prems show ?thesis by (subst (asm) callibrate_loop.simps) simp
  next
    case True
    from Cons.prems(1) obtain e1 oldt1 oldc1 c1 where
      run: "callibrate_loop rest e1 oldt1 oldc1 c1 = Some c'" and
      c1: "c1 = c \<or> c1 = c\<lparr>cyc_per_tick := cyc_per_tick c1\<rparr> \<and> RECORDTHRESH < cyc_per_tick c1"
      unfolding callibrate_loop.simps [of "x # rest"] using True
      by (simp add: x Let_def split: if_splits)
    have "c1\<lparr>cyc_per_tick := v\<rparr> = c\<lparr>cyc_per_tick := v\<rparr>" for v
      using c1 by (cases c; cases c1) auto
    with Cons.IH [OF run] c1 Cons.prems(2) show ?thesis by metis
  qed
qed

text \<open>
  It ends as soon as it has seen \<open>NEVENT\<close> ticks a threshold apart. The counter that the looks
  are read with is the one the calibration started.
\<close>

definition steady :: "clock \<Rightarrow> calibration \<Rightarrow> bool" where
  "steady c = (\<lambda>(utime, r1, r2, looks). NEVENT \<le> length looks \<and>
     sorted_wrt (\<lambda>x y. fst (get_counter (fst x) (start_counter r1 c)) + THRESHOLD \<le> fst (get_counter (fst y) (start_counter r1 c)) \<and>
       snd x < snd y) ((r2, utime) # looks))"

lemma get_counter_cong: "cyc_hi c = cyc_hi d \<Longrightarrow> cyc_lo c = cyc_lo d \<Longrightarrow> get_counter r c = get_counter r d"
  by (simp add: get_counter_def)

lemma callibrate_loop_ends:
  assumes "NEVENT \<le> length looks + e"
    "sorted_wrt (\<lambda>x y. fst (get_counter (fst x) d) + THRESHOLD \<le> fst (get_counter (fst y) d) \<and> snd x < snd y) ((r, oldc) # looks)"
    "cyc_hi c = cyc_hi d" "cyc_lo c = cyc_lo d"
  shows "\<exists>c'. callibrate_loop looks e (fst (get_counter r d)) oldc c = Some c'"
  using assms
proof (induction looks arbitrary: e r oldc c)
  case Nil
  then show ?case by (subst callibrate_loop.simps) simp
next
  case (Cons x rest)
  obtain r' newc where x: "x = (r', newc)" by (cases x)
  have get: "get_counter r' c = get_counter r' d" using Cons.prems(3,4) by (rule get_counter_cong)
  from Cons.prems(2) have "fst (get_counter r' d) - fst (get_counter r d) \<ge> THRESHOLD" "newc > oldc"
    "sorted_wrt (\<lambda>x y. fst (get_counter (fst x) d) + THRESHOLD \<le> fst (get_counter (fst y) d) \<and> snd x < snd y) ((r', newc) # rest)"
    by (auto simp: x)
  with Cons.IH [of "e + 1" r' newc] Cons.prems(1,3,4) show ?case
    by (subst callibrate_loop.simps) (simp add: x get Let_def)
qed

lemma callibrate_ok:
  assumes "steady c calib" "cyc_per_tick c = 0"
  shows "\<exists>c'. callibrate calib c = Some c' \<and> c' = (start_counter (fst (snd calib)) c)\<lparr>cyc_per_tick := cyc_per_tick c'\<rparr> \<and>
    (cyc_per_tick c' = 0 \<or> RECORDTHRESH < cyc_per_tick c')"
proof -
  obtain utime r1 r2 looks where calib: "calib = (utime, r1, r2, looks)" by (cases calib)
  let ?c = "start_counter r1 c"
  have "\<exists>c'. callibrate_loop looks 0 (fst (get_counter r2 ?c)) utime ?c = Some c'"
    using assms(1) by (intro callibrate_loop_ends) (simp_all add: steady_def calib)
  moreover have "cyc_per_tick ?c = 0" using assms(2) by (simp add: start_counter_def)
  ultimately show ?thesis using callibrate_loop_range by (fastforce simp: callibrate_def calib)
qed

text \<open>The estimate does not depend on the clock before.\<close>

lemma callibrate_loop_cong:
  assumes "cyc_hi c = cyc_hi d" "cyc_lo c = cyc_lo d" "cyc_per_tick c = cyc_per_tick d"
  shows "map_option cyc_per_tick (callibrate_loop looks e oldt oldc c) =
    map_option cyc_per_tick (callibrate_loop looks e oldt oldc d)"
  using assms
proof (induction looks arbitrary: e oldt oldc c d)
  case Nil
  then show ?case by (subst (1 2) callibrate_loop.simps) simp
next
  case (Cons x rest)
  obtain r newc where x: "x = (r, newc)" by (cases x)
  have get: "get_counter r c = get_counter r d" using Cons.prems(1,2) by (rule get_counter_cong)
  show ?case
    using Cons.prems(3)
    by (simp only: x get callibrate_loop.simps [of "(r, newc) # rest"] list.case prod.case Let_def)
      (auto intro!: Cons.IH simp: Cons.prems)
qed

lemma get_counter_start: "get_counter r (start_counter b c) = get_counter r (start_counter b d)"
  by (rule get_counter_cong) (simp_all add: start_counter_def)

lemma callibrate_cong:
  assumes "cyc_per_tick c = cyc_per_tick d"
  shows "map_option cyc_per_tick (callibrate calib c) = map_option cyc_per_tick (callibrate calib d)"
proof -
  obtain utime r1 r2 looks where calib: "calib = (utime, r1, r2, looks)" by (cases calib)
  have "map_option cyc_per_tick (callibrate_loop looks 0 t utime (start_counter r1 c)) =
      map_option cyc_per_tick (callibrate_loop looks 0 t utime (start_counter r1 d))" for t
    using assms by (intro callibrate_loop_cong) (simp_all add: start_counter_def)
  with get_counter_start [of r2 r1 c d] show ?thesis by (simp add: calib callibrate_def Let_def)
qed

lemma steady_cong: "steady c calib \<Longrightarrow> steady d calib"
  by (cases calib) (simp add: steady_def get_counter_start [of _ _ c d])

end
