(* ===== verification/Fcyc.thy ===== *)
theory Fcyc
  imports Mdriver Clock "HOL-Library.Multiset"
begin

text \<open>
  The k-best timer of src/fcyc.c: the sampler that keeps the \<open>kbest\<close> smallest
  measurements in order, the test for convergence, the code that clears the cache, and the
  measuring loop of \<open>fcyc\<close>.

  The sampler's contract is the locale \<open>k_best\<close>: what a sequence of samples leaves in it.
  \<open>fcyc\<close> is verified against that contract: it ends after at most \<open>maxsamples\<close> rounds and
  returns the smallest measurement it took.
\<close>

section \<open>Platforms without a cycle counter\<close>

text \<open>The versions of src/clock.c for every other platform print an error and leave the program.\<close>

definition start_counter_other :: "clock run" where
  "start_counter_other = halts (Stop (Exit 1))"

definition get_counter_other :: "real run" where
  "get_counter_other = halts (Stop (Exit 1))"

section \<open>The state\<close>

text \<open>
  The static variables. \<open>vals\<close> is the array \<^verbatim>\<open>values\<close>; \<open>cache_buf\<close> says whether the
  buffer exists. The sample count stays below \<open>maxsamples\<close>, so \<^verbatim>\<open>int\<close> never overflows.
\<close>

record fcyc_state =
  kbest :: int
  maxsamples :: int
  epsilon :: real
  compensate :: int
  clear_cache :: int
  cache_bytes :: "32 word"
  cache_block :: "32 word"
  cache_buf :: bool
  vals :: "real list"
  samplecount :: int
  sink :: "32 word"

definition fcyc_default :: fcyc_state where
  "fcyc_default = \<lparr>kbest = 3, maxsamples = 20, epsilon = 1 / 100, compensate = 0, clear_cache = 0,
     cache_bytes = push_bit 19 1, cache_block = 32, cache_buf = False, vals = [], samplecount = 0, sink = 0\<rparr>"

text \<open>Reading and writing \<^verbatim>\<open>values\<close> at an \<^verbatim>\<open>int\<close> position.\<close>

definition val_get :: "real list \<Rightarrow> int \<Rightarrow> real run" where
  "val_get vs i = (if 0 \<le> i \<and> nat i < length vs then returns (vs ! nat i) else halts Undefined)"

definition val_set :: "real list \<Rightarrow> int \<Rightarrow> real \<Rightarrow> real list run" where
  "val_set vs i x = (if 0 \<le> i \<and> nat i < length vs then returns (vs[nat i := x]) else halts Undefined)"

section \<open>The sampler\<close>

text \<open>\<open>calloc_ok\<close>: whether \<^verbatim>\<open>calloc\<close> delivers the array; a missing array is empty here.\<close>

definition init_sampler :: "bool \<Rightarrow> fcyc_state \<Rightarrow> fcyc_state" where
  "init_sampler calloc_ok st =
     st\<lparr>vals := (if calloc_ok then replicate (nat (kbest st)) 0 else []), samplecount := 0\<rparr>"

text \<open>\<^verbatim>\<open>while (pos > 0 && values[pos-1] > values[pos])\<close>: swap and go down.\<close>

fun sift :: "nat \<Rightarrow> real list \<Rightarrow> real list" where
  "sift 0 vs = vs"
| "sift (Suc p) vs = (if vs ! p > vs ! Suc p then sift p (vs[p := vs ! Suc p, Suc p := vs ! p]) else vs)"

definition add_sample :: "real \<Rightarrow> fcyc_state \<Rightarrow> fcyc_state run" where
  "add_sample val st =
     andthen
       (if samplecount st < kbest st then
          andthen (val_set (vals st) (samplecount st) val) (\<lambda>vs. returns (samplecount st, vs))
        else
          andthen (val_get (vals st) (kbest st - 1)) (\<lambda>last.
            if val < last then andthen (val_set (vals st) (kbest st - 1) val) (\<lambda>vs. returns (kbest st - 1, vs))
            else returns (0, vals st)))
       (\<lambda>(pos, vs). returns (st\<lparr>vals := sift (nat pos) vs, samplecount := samplecount st + 1\<rparr>))"

definition has_converged :: "fcyc_state \<Rightarrow> bool run" where
  "has_converged st =
     (if samplecount st \<ge> kbest st then
        andthen (val_get (vals st) 0) (\<lambda>lo.
        andthen (val_get (vals st) (kbest st - 1)) (\<lambda>hi. returns ((1 + epsilon st) * lo \<ge> hi)))
      else returns False)"

section \<open>Clearing the cache\<close>

text \<open>
  \<open>buf\<close> is the contents of the buffer, which \<^verbatim>\<open>malloc\<close> leaves undetermined. The pointers
  are counted in \<^verbatim>\<open>int\<close>s from the start of the buffer.
\<close>

partial_function (option) clear_loop :: "(nat \<Rightarrow> 32 word) \<Rightarrow> nat \<Rightarrow> nat \<Rightarrow> nat \<Rightarrow> 32 word \<Rightarrow> 32 word option" where
  "clear_loop buf incr cptr cend x =
     (if cptr < cend then clear_loop buf incr (cptr + incr) cend (x + buf cptr) else Some x)"

definition clear :: "bool \<Rightarrow> (nat \<Rightarrow> 32 word) \<Rightarrow> fcyc_state \<Rightarrow> fcyc_state run" where
  "clear malloc_ok buf st =
     (let x = sink st; incr = unat (cache_block st) div 4 in
      if \<not> cache_buf st \<and> \<not> malloc_ok then halts (Stop (Exit 1))
      else
        andthen (call (clear_loop buf incr 0 (unat (cache_bytes st) div 4) x)) (\<lambda>x.
          returns (st\<lparr>cache_buf := True, sink := x\<rparr>)))"

section \<open>fcyc\<close>

text \<open>
  What the machine delivers: whether the two allocations succeed, the contents of the cache
  buffer, and for each round the time stamps and tick counts before and after \<open>f\<close>, and what
  a calibration by \<open>start_comp_counter\<close> in that round would see.
\<close>

record readings =
  rd_calloc :: bool
  rd_malloc :: bool
  rd_buf :: "nat \<Rightarrow> 32 word"
  rd_stamps :: "nat \<Rightarrow> stamp \<times> stamp"
  rd_utimes :: "nat \<Rightarrow> int \<times> int"
  rd_callibrate :: "nat \<Rightarrow> calibration"

text \<open>One measurement: \<^verbatim>\<open>clear\<close>, start the counter, run \<open>f\<close>, read the counter.\<close>

definition fcyc_measure ::
  "readings \<Rightarrow> ('s \<Rightarrow> 's run) \<Rightarrow> nat \<Rightarrow> fcyc_state \<times> clock \<times> 's \<Rightarrow> (real \<times> fcyc_state \<times> clock \<times> 's) run" where
  "fcyc_measure rd f i = (\<lambda>(st, c, s).
     andthen (if clear_cache st \<noteq> 0 then clear (rd_malloc rd) (rd_buf rd) st else returns st) (\<lambda>st.
     let (r1, r2) = rd_stamps rd i; (u1, u2) = rd_utimes rd i in
     if compensate st \<noteq> 0 then
       andthen (call (start_comp_counter (rd_callibrate rd i) u1 r1 c)) (\<lambda>c.
       andthen (f s) (\<lambda>s. returns (get_comp_counter r2 u2 c, st, c, s)))
     else
       let c = start_counter r1 c in
       andthen (f s) (\<lambda>s. returns (fst (get_counter r2 c), st, c, s))))"

text \<open>
  The loop \<^verbatim>\<open>do { ... } while (!has_converged() && samplecount < maxsamples)\<close>, from round
  \<open>i\<close> on. The first argument bounds the number of rounds; \<open>fcyc_terminates\<close> below shows
  that the bound that \<open>fcyc\<close> passes is never reached.
\<close>

fun fcyc_loop ::
  "nat \<Rightarrow> readings \<Rightarrow> ('s \<Rightarrow> 's run) \<Rightarrow> nat \<Rightarrow> fcyc_state \<times> clock \<times> 's \<Rightarrow> (fcyc_state \<times> clock \<times> 's) run" where
  "fcyc_loop 0 rd f i x = None"
| "fcyc_loop (Suc fuel) rd f i x =
     andthen (fcyc_measure rd f i x) (\<lambda>(cyc, st, c, s).
     andthen (add_sample cyc st) (\<lambda>st.
     andthen (has_converged st) (\<lambda>done.
       if \<not> done \<and> samplecount st < maxsamples st then fcyc_loop fuel rd f (i + 1) (st, c, s)
       else returns (st, c, s))))"

definition fcyc :: "readings \<Rightarrow> ('s \<Rightarrow> 's run) \<Rightarrow> fcyc_state \<times> clock \<times> 's \<Rightarrow> (real \<times> fcyc_state \<times> clock \<times> 's) run" where
  "fcyc rd f = (\<lambda>(st, c, s).
     andthen (fcyc_loop (Suc (nat (maxsamples st))) rd f 0 (init_sampler (rd_calloc rd) st, c, s)) (\<lambda>(st, c, s).
     andthen (val_get (vals st) 0) (\<lambda>result.
       returns (result, st\<lparr>vals := []\<rparr>, c, s))))"

section \<open>The parameters\<close>

definition set_fcyc_clear_cache :: "int \<Rightarrow> fcyc_state \<Rightarrow> fcyc_state" where
  "set_fcyc_clear_cache b st = st\<lparr>clear_cache := b\<rparr>"

definition set_fcyc_cache_size :: "32 word \<Rightarrow> fcyc_state \<Rightarrow> fcyc_state" where
  "set_fcyc_cache_size bytes st =
     (if bytes \<noteq> cache_bytes st then st\<lparr>cache_bytes := bytes, cache_buf := False\<rparr> else st)"

definition set_fcyc_cache_block :: "32 word \<Rightarrow> fcyc_state \<Rightarrow> fcyc_state" where
  "set_fcyc_cache_block bytes st = st\<lparr>cache_block := bytes\<rparr>"

definition set_fcyc_compensate :: "int \<Rightarrow> fcyc_state \<Rightarrow> fcyc_state" where
  "set_fcyc_compensate b st = st\<lparr>compensate := b\<rparr>"

definition set_fcyc_k :: "int \<Rightarrow> fcyc_state \<Rightarrow> fcyc_state" where
  "set_fcyc_k k st = st\<lparr>kbest := k\<rparr>"

definition set_fcyc_maxsamples :: "int \<Rightarrow> fcyc_state \<Rightarrow> fcyc_state" where
  "set_fcyc_maxsamples n st = st\<lparr>maxsamples := n\<rparr>"

definition set_fcyc_epsilon :: "real \<Rightarrow> fcyc_state \<Rightarrow> fcyc_state" where
  "set_fcyc_epsilon e st = st\<lparr>epsilon := e\<rparr>"

section \<open>The sampler keeps the smallest samples\<close>

lemma sort_snoc: "sort (xs @ [x]) = insort x (sort xs)" for xs :: "real list"
  by (rule properties_for_sort) (simp_all add: sorted_insort)

lemma insort_before: "x < y \<Longrightarrow> insort x (ys @ y # zs) = insort x ys @ y # zs" for x :: real
  by (induction ys) (simp_all add: less_imp_le)

lemma insort_after:
  fixes x :: real
  assumes "sorted (ys @ zs)" "\<And>y. y \<in> set ys \<Longrightarrow> y \<le> x"
  shows "insort x (ys @ zs) = ys @ insort x zs"
proof -
  have "sorted (ys @ insort x zs)" using assms by (auto simp: sorted_append sorted_insort set_insort_key)
  then have "sort (x # ys @ zs) = ys @ insort x zs" by (intro properties_for_sort) simp_all
  moreover have "sort (x # ys @ zs) = insort x (ys @ zs)"
    using assms(1) by (intro properties_for_sort) (simp_all add: sorted_insort)
  ultimately show ?thesis by simp
qed

text \<open>The inner loop is one step of insertion sort, from the right.\<close>

lemma sift_insort: "sorted ys \<Longrightarrow> sift (length ys) (ys @ x # zs) = insort x ys @ zs"
proof (induction ys arbitrary: zs rule: rev_induct)
  case Nil
  then show ?case by simp
next
  case (snoc y ys)
  have swap: "(ys @ y # x # zs)[length ys := x, Suc (length ys) := y] = ys @ x # y # zs"
    by (simp add: list_update_append)
  show ?case
  proof (cases "y > x")
    case True
    then have "sift (length (ys @ [y])) ((ys @ [y]) @ x # zs) = sift (length ys) (ys @ x # y # zs)"
      using swap by (simp add: nth_append)
    with snoc True show ?thesis by (simp add: sorted_append insort_before)
  next
    case False
    have "insort x (ys @ [y]) = ys @ [y, x]"
      using insort_after [of "ys @ [y]" "[]" x] snoc.prems False by (force simp: sorted_append)
    with False show ?thesis by (simp add: nth_append)
  qed
qed

text \<open>
  \<open>sampled xs st\<close>: the array holds the \<open>kbest\<close> smallest of the samples \<open>xs\<close> in order, with
  zeros behind them while there are fewer.
\<close>

definition sampled :: "real list \<Rightarrow> fcyc_state \<Rightarrow> bool" where
  "sampled xs st \<longleftrightarrow> 0 < kbest st \<and> samplecount st = int (length xs) \<and>
     vals st = take (nat (kbest st)) (sort xs) @ replicate (nat (kbest st) - length xs) 0"

lemma sampled_init: "0 < kbest st \<Longrightarrow> sampled [] (init_sampler True st)"
  by (simp add: sampled_def init_sampler_def)

lemma sampled_length: "sampled xs st \<Longrightarrow> length (vals st) = nat (kbest st)"
  by (simp add: sampled_def)

lemma take_insort_less:
  fixes x :: real
  assumes "sorted S" "k < length S" "x < S ! k"
  shows "take (Suc k) (insort x S) = insort x (take k S)"
proof -
  have "S = take k S @ S ! k # drop (Suc k) S" using assms(2) by (rule id_take_nth_drop)
  then have "insort x S = insort x (take k S) @ S ! k # drop (Suc k) S"
    using insort_before [OF assms(3)] by metis
  then show ?thesis using assms(2) by simp
qed

lemma take_insort_ge:
  fixes x :: real
  assumes "sorted S" "k < length S" "S ! k \<le> x"
  shows "take (Suc k) (insort x S) = take (Suc k) S"
proof -
  have "y \<le> x" if "y \<in> set (take (Suc k) S)" for y
  proof -
    from that obtain i where "i < Suc k" "i < length S" "y = S ! i" by (auto simp: in_set_conv_nth)
    with assms sorted_nth_mono [OF assms(1), of i k] show ?thesis by simp
  qed
  then have "insort x (take (Suc k) S @ drop (Suc k) S) = take (Suc k) S @ insort x (drop (Suc k) S)"
    using assms(1) by (intro insort_after) simp_all
  then show ?thesis using assms(2) by (simp add: min_def)
qed

lemma sampled_snoc:
  assumes S: "sampled xs st" and run: "add_sample x st = returns (st\<lparr>vals := vs, samplecount := samplecount st + 1\<rparr>)"
    and vs: "vs = take (nat (kbest st)) (insort x (sort xs)) @ replicate (nat (kbest st) - Suc (length xs)) 0"
  shows "\<exists>st'. add_sample x st = returns st' \<and> sampled (xs @ [x]) st' \<and>
    st' = st\<lparr>vals := vals st', samplecount := samplecount st + 1\<rparr>"
  using assms by (intro exI [of _ "st\<lparr>vals := vs, samplecount := samplecount st + 1\<rparr>"])
    (simp add: sampled_def sort_snoc)

text \<open>While the array has room the sample is inserted; later it replaces a larger one or is dropped.\<close>

lemma add_sample_room:
  assumes S: "sampled xs st" and room: "length xs < nat (kbest st)"
  shows "\<exists>st'. add_sample x st = returns st' \<and> sampled (xs @ [x]) st' \<and>
    st' = st\<lparr>vals := vals st', samplecount := samplecount st + 1\<rparr>"
proof -
  obtain r where r: "nat (kbest st) = Suc (length xs + r)" using room by (metis add_Suc_right less_iff_Suc_add)
  have k: "kbest st = int (Suc (length xs + r))" "samplecount st = int (length xs)" using S r by (auto simp: sampled_def)
  have v: "vals st = sort xs @ replicate (Suc r) 0"
    using S by (simp add: sampled_def r Suc_diff_le del: replicate.simps)
  have "(vals st)[length xs := x] = sort xs @ x # replicate r 0"
    by (simp add: v list_update_append)
  then have "sift (length xs) ((vals st)[length xs := x]) = insort x (sort xs) @ replicate r 0"
    using sift_insort [of "sort xs" x] by simp
  moreover have "length xs < length (vals st)" by (simp add: v)
  ultimately show ?thesis
    using k r by (intro sampled_snoc [OF S, where vs = "insort x (sort xs) @ replicate r 0"])
      (simp_all add: add_sample_def val_set_def andthen_def returns_def)
qed

lemma add_sample_full:
  assumes S: "sampled xs st" and full: "nat (kbest st) \<le> length xs"
  shows "\<exists>st'. add_sample x st = returns st' \<and> sampled (xs @ [x]) st' \<and>
    st' = st\<lparr>vals := vals st', samplecount := samplecount st + 1\<rparr>"
proof -
  obtain j where j: "nat (kbest st) = Suc j" "j < length (sort xs)"
    using S full by (cases "nat (kbest st)") (simp_all add: sampled_def)
  have k: "kbest st = int (Suc j)" "samplecount st = int (length xs)" using S j(1) by (auto simp: sampled_def)
  have v: "vals st = take (Suc j) (sort xs)" using S full by (simp add: sampled_def j(1))
  have len: "length (vals st) = Suc j" "vals st ! j = sort xs ! j" using j(2) by (simp_all add: v)
  show ?thesis
  proof (cases "x < sort xs ! j")
    case True
    have "(vals st)[j := x] = take j (sort xs) @ [x]"
      using j by (simp add: v take_Suc_conv_app_nth list_update_append)
    then have "sift j ((vals st)[j := x]) = insort x (take j (sort xs))"
      using sift_insort [of "take j (sort xs)" x "[]"] j(2) by simp
    then show ?thesis
      using True full k j len take_insort_less [OF sorted_sort j(2) True]
      by (intro sampled_snoc [OF S, where vs = "insort x (take j (sort xs))"])
        (simp_all add: add_sample_def val_set_def val_get_def andthen_def returns_def)
  next
    case False
    then show ?thesis
      using full k j len v take_insort_ge [OF sorted_sort j(2), of x]
      by (intro sampled_snoc [OF S, where vs = "vals st"])
        (simp_all add: add_sample_def val_set_def val_get_def andthen_def returns_def)
  qed
qed

lemma add_sample_ok:
  assumes S: "sampled xs st"
  shows "\<exists>st'. add_sample x st = returns st' \<and> sampled (xs @ [x]) st' \<and>
    st' = st\<lparr>vals := vals st', samplecount := samplecount st + 1\<rparr>"
  using add_sample_room [OF S] add_sample_full [OF S] by (cases "length xs < nat (kbest st)") simp_all

section \<open>The contract of a sampler\<close>

text \<open>
  \<open>rep xs q\<close>: the sampler \<open>q\<close> has seen the samples \<open>xs\<close>. What a client may rely on: adding
  never fails, the count is right, and after the first sample the best one is the minimum.
\<close>

locale k_best =
  fixes rep :: "real list \<Rightarrow> 'q \<Rightarrow> bool"
    and add :: "real \<Rightarrow> 'q \<Rightarrow> 'q run"
    and best :: "'q \<Rightarrow> real run"
    and count :: "'q \<Rightarrow> int"
  assumes add_law: "rep xs q \<Longrightarrow> \<exists>q'. add x q = returns q' \<and> rep (xs @ [x]) q'"
    and best_law: "rep xs q \<Longrightarrow> xs \<noteq> [] \<Longrightarrow> best q = returns (Min (set xs))"
    and count_law: "rep xs q \<Longrightarrow> count q = int (length xs)"
begin

text \<open>A whole sequence of samples.\<close>

lemma feed_rep: "rep ys q \<Longrightarrow> \<exists>q'. eval_loop add xs q = returns q' \<and> rep (ys @ xs) q'"
proof (induction xs arbitrary: ys q)
  case Nil
  then show ?case by auto
next
  case (Cons x xs)
  from add_law [OF Cons.prems] obtain q' where q': "add x q = returns q'" "rep (ys @ [x]) q'" by blast
  from Cons.IH [OF q'(2)] q'(1) show ?case by simp
qed

lemma feed_best:
  assumes "rep [] q" "xs \<noteq> []"
  shows "\<exists>q'. eval_loop add xs q = returns q' \<and> rep xs q' \<and> best q' = returns (Min (set xs)) \<and> count q' = int (length xs)"
  using feed_rep [OF assms(1), of xs] best_law [OF _ assms(2)] count_law by auto

text \<open>A better sample only improves the result.\<close>

lemma best_improves:
  assumes "rep xs q" "xs \<noteq> []" "add x q = returns q'"
  shows "\<exists>b. best q = returns b \<and> best q' = returns (min b x)"
proof -
  from add_law [OF assms(1), of x] assms(3) have "rep (xs @ [x]) q'" by (auto simp: returns_def)
  from best_law [OF this] best_law [OF assms(1,2)] assms(2) show ?thesis
    by (simp add: min.commute)
qed

end

lemma sampled_head:
  assumes "sampled xs st" "xs \<noteq> []"
  shows "vals st ! 0 = Min (set xs)"
proof -
  obtain y ys where y: "sort xs = y # ys" using assms(2) length_sort [of "\<lambda>x. x" xs] by (cases "sort xs") auto
  then have "set xs = insert y (set ys)" "\<forall>z \<in> set ys. y \<le> z"
    using set_sort [of "\<lambda>x. x" xs] sorted_sort [of xs] by auto
  then have "Min (set xs) = y" by (intro Min_eqI) auto
  then show ?thesis using assms y by (simp add: sampled_def take_Cons' nth_append)
qed

interpretation kb: k_best sampled add_sample "\<lambda>st. val_get (vals st) 0" samplecount
proof
  fix xs x and q :: fcyc_state
  assume S: "sampled xs q"
  show "\<exists>q'. add_sample x q = returns q' \<and> sampled (xs @ [x]) q'" using add_sample_ok [OF S] by blast
  show "samplecount q = int (length xs)" using S by (simp add: sampled_def)
  show "val_get (vals q) 0 = returns (Min (set xs))" if "xs \<noteq> []"
    using sampled_head [OF S that] sampled_length [OF S] S by (simp add: val_get_def sampled_def)
qed

text \<open>The number of kept samples is a constant of the run.\<close>

lemma add_sample_kbest: "add_sample x st = returns st' \<Longrightarrow> kbest st' = kbest st"
  by (auto simp: add_sample_def andthen_def val_set_def val_get_def returns_def halts_def split: if_splits)

lemma feed_kbest: "eval_loop add_sample xs st = returns st' \<Longrightarrow> kbest st' = kbest st"
proof (induction xs arbitrary: st)
  case Nil
  then show ?case by simp
next
  case (Cons x xs)
  then show ?case
    by (auto simp: andthen_def returns_def split: option.splits sum.splits dest!: add_sample_kbest [unfolded returns_def])
qed

section \<open>The measuring loop\<close>

text \<open>The cache is cleared in finitely many steps when a cache block holds an \<^verbatim>\<open>int\<close>.\<close>

lemma clear_loop_ends: "0 < incr \<Longrightarrow> \<exists>y. clear_loop buf incr cptr cend x = Some y"
proof (induction "cend - cptr" arbitrary: cptr x rule: less_induct)
  case less
  show ?case
  proof (cases "cptr < cend")
    case True
    with less show ?thesis by (subst clear_loop.simps) simp
  next
    case False
    then show ?thesis by (subst clear_loop.simps) simp
  qed
qed

text \<open>With a smaller block size the pointer does not move.\<close>

lemma clear_loop_stuck:
  assumes "cptr < cend"
  shows "clear_loop buf 0 cptr cend x = None"
proof (rule ccontr)
  assume "clear_loop buf 0 cptr cend x \<noteq> None"
  then obtain y where ret: "clear_loop buf 0 cptr cend x = Some y" by blast
  let ?P = "\<lambda>(buf :: nat \<Rightarrow> 32 word) incr cptr cend (x :: 32 word) (y :: 32 word). (0 :: nat) < incr \<or> \<not> cptr < (cend :: nat)"
  have "?P buf 0 cptr cend x y"
  proof (rule clear_loop.raw_induct [where P = ?P and xa = "((((buf, 0), cptr), cend), x)" and y = y, unfolded prod.case, OF _ ret])
    fix f buf incr cptr cend x y
    assume IH: "\<And>buf incr cptr cend x y. f buf incr cptr cend x = Some y \<Longrightarrow> ?P buf incr cptr cend x y"
      and "(if cptr < cend then f buf incr (cptr + incr) cend (x + buf cptr) else Some x) = Some y"
    then show "?P buf incr cptr cend x y" using IH [of buf 0 cptr cend "x + buf cptr" y] by (cases "incr = 0") (auto split: if_splits)
  qed
  with assms show False by simp
qed

text \<open>
  The measurements. With compensation the elapsed cycles are reduced by the estimate for
  each clock tick; the estimate comes from the last round that had to calibrate, because
  none was known before.
\<close>

definition elapsed_cycles :: "readings \<Rightarrow> nat \<Rightarrow> real" where
  "elapsed_cycles rd i = real_of_int ((int (stamp_nat (snd (rd_stamps rd i))) - int (stamp_nat (fst (rd_stamps rd i)))) mod 2 ^ 64)"

definition stopped :: clock where
  "stopped = \<lparr>cyc_hi = 0, cyc_lo = 0, cyc_per_tick = 0, start_tick = 0\<rparr>"

definition estimate :: "calibration \<Rightarrow> real" where
  "estimate calib = (case callibrate calib stopped of Some c \<Rightarrow> cyc_per_tick c | None \<Rightarrow> 0)"

primrec per_tick :: "readings \<Rightarrow> real \<Rightarrow> nat \<Rightarrow> real" where
  "per_tick rd q 0 = q"
| "per_tick rd q (Suc i) = (if per_tick rd q i = 0 then estimate (rd_callibrate rd i) else per_tick rd q i)"

definition cycles :: "readings \<Rightarrow> bool \<Rightarrow> real \<Rightarrow> nat \<Rightarrow> real" where
  "cycles rd b q i =
     (if b then elapsed_cycles rd i - real_of_int (snd (rd_utimes rd i) - fst (rd_utimes rd i)) * per_tick rd q (Suc i)
      else elapsed_cycles rd i)"

text \<open>
  The cache can be cleared, and a calibration sees the clock advance.
\<close>

definition measurable :: "readings \<Rightarrow> fcyc_state \<Rightarrow> bool" where
  "measurable rd st \<longleftrightarrow> (clear_cache st = 0 \<or> 4 \<le> unat (cache_block st) \<and> (cache_buf st \<or> rd_malloc rd)) \<and>
     (compensate st = 0 \<or> (\<forall>i. steady stopped (rd_callibrate rd i)))"

text \<open>What stays the same about the state of the sampler in a measurement.\<close>

definition same_sampler :: "fcyc_state \<Rightarrow> fcyc_state \<Rightarrow> bool" where
  "same_sampler st st' \<longleftrightarrow> kbest st' = kbest st \<and> maxsamples st' = maxsamples st \<and> epsilon st' = epsilon st \<and>
     compensate st' = compensate st"

lemma start_comp_counter_ok:
  assumes "steady stopped calib"
  shows "\<exists>c'. start_comp_counter calib u r c = Some (start_counter r c') \<and> start_tick c' = u \<and>
    cyc_per_tick c' = (if cyc_per_tick c = 0 then estimate calib else cyc_per_tick c)"
proof (cases "cyc_per_tick c = 0")
  case True
  from callibrate_ok [OF steady_cong [OF assms] True] obtain c' where c': "callibrate calib c = Some c'" by blast
  have "cyc_per_tick c = cyc_per_tick stopped" using True by (simp add: stopped_def)
  from callibrate_cong [OF this, of calib] c' have "estimate calib = cyc_per_tick c'"
    by (auto simp: estimate_def split: option.split)
  with c' True show ?thesis by (intro exI [of _ "c'\<lparr>start_tick := u\<rparr>"]) (simp add: start_comp_counter_def)
next
  case False
  then show ?thesis by (intro exI [of _ "c\<lparr>start_tick := u\<rparr>"]) (simp add: start_comp_counter_def)
qed

lemma fcyc_clear_ok:
  assumes m: "measurable rd st" and S: "sampled xs st"
  shows "\<exists>st'. (if clear_cache st \<noteq> 0 then clear (rd_malloc rd) (rd_buf rd) st else returns st) = returns st' \<and>
      measurable rd st' \<and> sampled xs st' \<and> same_sampler st st'"
proof (cases "clear_cache st = 0")
  case True
  then show ?thesis using m S by (simp add: same_sampler_def)
next
  case False
  with m have ok: "0 < unat (cache_block st) div 4" "cache_buf st \<or> rd_malloc rd"
    by (auto simp: measurable_def)
  obtain y where "clear_loop (rd_buf rd) (unat (cache_block st) div 4) 0 (unat (cache_bytes st) div 4) (sink st) = Some y"
    using clear_loop_ends [OF ok(1)] by blast
  moreover have "(\<not> cache_buf st \<and> \<not> rd_malloc rd) = False" using ok(2) by blast
  ultimately show ?thesis
    using False m S by (intro exI [of _ "st\<lparr>cache_buf := True, sink := y\<rparr>"])
      (simp add: clear_def Let_def measurable_def sampled_def same_sampler_def)
qed

lemma fcyc_measure_ok:
  assumes m: "measurable rd st" and f: "f s = returns s'" and S: "sampled xs st"
    and q: "compensate st \<noteq> 0 \<Longrightarrow> cyc_per_tick c = per_tick rd q i"
  shows "\<exists>st' c'. fcyc_measure rd f i (st, c, s) = returns (cycles rd (compensate st \<noteq> 0) q i, st', c', s') \<and>
    measurable rd st' \<and> sampled xs st' \<and> same_sampler st st' \<and>
    (compensate st \<noteq> 0 \<longrightarrow> cyc_per_tick c' = per_tick rd q (Suc i))"
proof -
  obtain r1 r2 u1 u2 where r: "rd_stamps rd i = (r1, r2)" "rd_utimes rd i = (u1, u2)"
    by (cases "rd_stamps rd i"; cases "rd_utimes rd i")
  obtain st' where st': "(if clear_cache st \<noteq> 0 then clear (rd_malloc rd) (rd_buf rd) st else returns st) = returns st'"
    "measurable rd st'" "sampled xs st'" "same_sampler st st'" using fcyc_clear_ok [OF m S] by blast
  have same: "compensate st' = compensate st" using st'(4) by (simp add: same_sampler_def)
  show ?thesis
  proof (cases "compensate st = 0")
    case True
    then have "fcyc_measure rd f i (st, c, s) = returns (cycles rd (compensate st \<noteq> 0) q i, st', start_counter r1 c, s')"
      using f get_counter_diff [of r2 r1 c]
      by (simp add: fcyc_measure_def st'(1) r same andthen_def returns_def cycles_def elapsed_cycles_def Let_def)
    with st'(2-4) True show ?thesis by blast
  next
    case False
    with m have "steady stopped (rd_callibrate rd i)" by (simp add: measurable_def)
    from start_comp_counter_ok [OF this, of u1 r1 c] q [OF False] obtain c' where
      c': "start_comp_counter (rd_callibrate rd i) u1 r1 c = Some (start_counter r1 c')" "start_tick c' = u1"
      "cyc_per_tick c' = per_tick rd q (Suc i)" by auto
    have "get_comp_counter r2 u2 (start_counter r1 c') = cycles rd (compensate st \<noteq> 0) q i"
      using get_counter_diff [of r2 r1 c'] False c'(2,3) r
      by (simp add: get_comp_counter_def cycles_def elapsed_cycles_def Let_def start_counter_def del: per_tick.simps)
    then have "fcyc_measure rd f i (st, c, s) = returns (cycles rd (compensate st \<noteq> 0) q i, st', start_counter r1 c', s')"
      using f c'(1) False
      by (simp add: fcyc_measure_def st'(1) r same call_def andthen_def returns_def Let_def)
    moreover have "cyc_per_tick (start_counter r1 c') = per_tick rd q (Suc i)"
      using c'(3) by (simp add: start_counter_def)
    ultimately show ?thesis using st'(2-4) by blast
  qed
qed

text \<open>
  The loop from round \<open>i\<close> on. \<open>g\<close> is what \<open>f\<close> does to the state; after \<open>m\<close> rounds in all the
  sampler has seen the first \<open>m\<close> measurements, and unless these are \<open>maxsamples\<close> many, the
  \<open>kbest\<close> smallest agree up to \<open>epsilon\<close>.
\<close>

definition settled :: "fcyc_state \<Rightarrow> real list \<Rightarrow> bool" where
  "settled st xs \<longleftrightarrow> kbest st \<le> int (length xs) \<and>
     sort xs ! nat (kbest st - 1) \<le> (1 + epsilon st) * Min (set xs)"

lemma has_converged_ok:
  assumes "sampled xs st" "xs \<noteq> []"
  shows "has_converged st = returns (settled st xs)"
proof (cases "samplecount st \<ge> kbest st")
  case True
  then have "vals st ! nat (kbest st - 1) = sort xs ! nat (kbest st - 1)"
    using assms(1) by (auto simp: sampled_def nth_append)
  moreover have "val_get (vals st) 0 = returns (Min (set xs))" by (rule kb.best_law [OF assms])
  moreover have "val_get (vals st) (kbest st - 1) = returns (vals st ! nat (kbest st - 1))"
    using sampled_length [OF assms(1)] assms(1) by (simp add: val_get_def sampled_def)
  ultimately show ?thesis
    using True assms(1) by (simp add: has_converged_def settled_def sampled_def)
next
  case False
  then show ?thesis using assms(1) by (simp add: has_converged_def settled_def sampled_def)
qed

lemma settled_same: "same_sampler st st' \<Longrightarrow> settled st' = settled st"
  by (simp add: settled_def same_sampler_def fun_eq_iff)

text \<open>One round: a measurement is taken and added, and the loop goes on unless it has settled or taken enough.\<close>

lemma fcyc_round:
  assumes M: "measurable rd st" and S: "sampled (map (cycles rd b q) [0..<i]) st" and f: "f s = returns s'"
    and b: "b \<longleftrightarrow> compensate st \<noteq> 0" "b \<Longrightarrow> cyc_per_tick c = per_tick rd q i"
  defines "xs \<equiv> map (cycles rd b q) [0..<Suc i]"
  obtains st2 c1 where
    "fcyc_loop (Suc fuel) rd f i (st, c, s) =
      (if \<not> settled st xs \<and> int (Suc i) < maxsamples st then fcyc_loop fuel rd f (Suc i) (st2, c1, s')
       else returns (st2, c1, s'))"
    "measurable rd st2" "sampled xs st2" "same_sampler st st2" "b \<Longrightarrow> cyc_per_tick c1 = per_tick rd q (Suc i)"
proof -
  from fcyc_measure_ok [of rd st f s s', OF M f S, of c q i] obtain st1 c1 where
    1: "fcyc_measure rd f i (st, c, s) = returns (cycles rd b q i, st1, c1, s')" "measurable rd st1"
    "sampled (map (cycles rd b q) [0..<i]) st1" "same_sampler st st1"
    and q1: "b \<Longrightarrow> cyc_per_tick c1 = per_tick rd q (Suc i)"
    unfolding b(1) [symmetric] using b(2) by blast
  from add_sample_ok [OF 1(3), of "cycles rd b q i"] obtain st2 where
    2: "add_sample (cycles rd b q i) st1 = returns st2" "sampled xs st2"
    and eq: "st2 = st1\<lparr>vals := vals st2, samplecount := samplecount st1 + 1\<rparr>"
    by (auto simp: xs_def)
  have same: "same_sampler st st2" using 1(4) by (subst eq) (simp add: same_sampler_def)
  have "samplecount st2 = int (Suc i)" using kb.count_law [OF 2(2)] by (simp add: xs_def)
  moreover have "has_converged st2 = returns (settled st xs)"
    using has_converged_ok [OF 2(2)] settled_same [OF same] by (simp add: xs_def)
  ultimately have "fcyc_loop (Suc fuel) rd f i (st, c, s) =
      (if \<not> settled st xs \<and> int (Suc i) < maxsamples st then fcyc_loop fuel rd f (Suc i) (st2, c1, s')
       else returns (st2, c1, s'))"
    using same by (simp add: 1(1) 2(1) same_sampler_def)
  moreover have "measurable rd st2" using 1(2) by (subst eq) (simp add: measurable_def)
  ultimately show thesis using 2(2) same q1 by (rule that)
qed

lemma fcyc_loop_ok:
  assumes "measurable rd st" "sampled (map (cycles rd b q) [0..<i]) st" "\<And>s. f s = returns (g s)"
    "nat (maxsamples st) \<le> fuel + i" "0 < fuel" "b \<longleftrightarrow> compensate st \<noteq> 0" "b \<Longrightarrow> cyc_per_tick c = per_tick rd q i"
  shows "\<exists>m st' c'. fcyc_loop fuel rd f i (st, c, s) = returns (st', c', (g ^^ (m - i)) s) \<and> i < m \<and>
    sampled (map (cycles rd b q) [0..<m]) st' \<and> same_sampler st st' \<and> int m \<le> max (int i + 1) (maxsamples st) \<and>
    (settled st (map (cycles rd b q) [0..<m]) \<or> maxsamples st \<le> int m)"
  using assms
proof (induction fuel arbitrary: i st c s)
  case 0
  then show ?case by simp
next
  case (Suc fuel)
  let ?xs = "map (cycles rd b q) [0..<Suc i]"
  obtain st2 c1 where step: "fcyc_loop (Suc fuel) rd f i (st, c, s) =
      (if \<not> settled st ?xs \<and> int (Suc i) < maxsamples st then fcyc_loop fuel rd f (Suc i) (st2, c1, g s)
       else returns (st2, c1, g s))"
    and m2: "measurable rd st2" "sampled ?xs st2" and same: "same_sampler st st2"
    and q1: "b \<Longrightarrow> cyc_per_tick c1 = per_tick rd q (Suc i)"
    using fcyc_round [where f = f and s = s and fuel = fuel, OF Suc.prems(1,2) Suc.prems(3) Suc.prems(6,7)] by blast
  show ?case
  proof (cases "\<not> settled st ?xs \<and> int (Suc i) < maxsamples st")
    case True
    then have more: "nat (maxsamples st2) \<le> fuel + Suc i" "0 < fuel" "b \<longleftrightarrow> compensate st2 \<noteq> 0"
      using Suc.prems(4,6) same by (auto simp: same_sampler_def)
    from Suc.IH [OF m2 Suc.prems(3) more q1, of "g s"] obtain m st' c' where
      *: "fcyc_loop fuel rd f (Suc i) (st2, c1, g s) = returns (st', c', (g ^^ (m - Suc i)) (g s))" "Suc i < m"
      "sampled (map (cycles rd b q) [0..<m]) st'" "same_sampler st2 st'" "int m \<le> max (int (Suc i) + 1) (maxsamples st2)"
      "settled st2 (map (cycles rd b q) [0..<m]) \<or> maxsamples st2 \<le> int m"
      by blast
    have "(g ^^ (m - Suc i)) (g s) = (g ^^ (m - i)) s"
      using *(2) by (metis Suc_diff_Suc Suc_lessD funpow_swap1 funpow.simps(2) o_apply)
    moreover have "same_sampler st st'" "maxsamples st2 = maxsamples st"
      using same *(4) by (simp_all add: same_sampler_def)
    ultimately show ?thesis
      using * True settled_same [OF same] by (intro exI [of _ m] exI [of _ st'] exI [of _ c']) (simp add: step del: fcyc_loop.simps)
  next
    case False
    then have "settled st ?xs \<or> maxsamples st \<le> int (Suc i)" "int (Suc i) \<le> max (int i + 1) (maxsamples st)"
      by auto
    moreover have "fcyc_loop (Suc fuel) rd f i (st, c, s) = returns (st2, c1, g s)"
      unfolding step using False by (rule if_not_P)
    ultimately show ?thesis
      using m2(2) same by (intro exI [of _ "Suc i"] exI [of _ st2] exI [of _ c1]) (simp del: fcyc_loop.simps)
  qed
qed

lemma fcyc_ok:
  assumes "measurable rd st" "0 < kbest st" "rd_calloc rd" "\<And>s. f s = returns (g s)"
  shows "\<exists>m st' c'. 0 < m \<and> int m \<le> max 1 (maxsamples st) \<and>
    fcyc rd f (st, c, s) = returns (Min (cycles rd (compensate st \<noteq> 0) (cyc_per_tick c) ` {0..<m}), st', c', (g ^^ m) s) \<and>
    (settled st (map (cycles rd (compensate st \<noteq> 0) (cyc_per_tick c)) [0..<m]) \<or> maxsamples st \<le> int m)"
proof -
  let ?st = "init_sampler True st"
  have "sampled (map (cycles rd (compensate st \<noteq> 0) (cyc_per_tick c)) [0..<0]) ?st" using sampled_init [OF assms(2)] by simp
  moreover have "measurable rd ?st" using assms(1) by (simp add: measurable_def init_sampler_def)
  moreover have "nat (maxsamples ?st) \<le> Suc (nat (maxsamples st)) + 0" by (simp add: init_sampler_def)
  moreover have "compensate st \<noteq> 0 \<longleftrightarrow> compensate ?st \<noteq> 0" by (simp add: init_sampler_def)
  ultimately obtain m st' c' where
    *: "fcyc_loop (Suc (nat (maxsamples st))) rd f 0 (?st, c, s) = returns (st', c', (g ^^ (m - 0)) s)" "0 < m"
    "sampled (map (cycles rd (compensate st \<noteq> 0) (cyc_per_tick c)) [0..<m]) st'" "int m \<le> max (int 0 + 1) (maxsamples ?st)"
    "settled ?st (map (cycles rd (compensate st \<noteq> 0) (cyc_per_tick c)) [0..<m]) \<or> maxsamples ?st \<le> int m"
    using fcyc_loop_ok [of rd ?st "compensate st \<noteq> 0" "cyc_per_tick c" 0 f g "Suc (nat (maxsamples st))" c s,
        OF _ _ assms(4) _ _ _ per_tick.simps(1) [symmetric]]
    by blast
  have "val_get (vals st') 0 = returns (Min (cycles rd (compensate st \<noteq> 0) (cyc_per_tick c) ` {0..<m}))"
    using kb.best_law [OF *(3)] *(2) by simp
  moreover have "settled ?st = settled st" by (simp add: settled_def init_sampler_def fun_eq_iff)
  ultimately show ?thesis
    using * assms(3) by (intro exI [of _ m] exI [of _ "st'\<lparr>vals := []\<rparr>"] exI [of _ c'])
      (simp add: fcyc_def init_sampler_def del: fcyc_loop.simps)
qed

end
