(* ===== verification/Fsecs.thy ===== *)
theory Fsecs
  imports Fcyc
begin

text \<open>
  The function timers of src/ftimer.c (interval timer and \<^verbatim>\<open>gettimeofday\<close>) and the
  wrapper src/fsecs.c, which picks one of the three timers by the constants of
  src/config.h. The readings of the clocks are parameters. A timed function \<open>f\<close> works on
  a state \<open>'s\<close> and may end the process, so it is a \<open>run\<close>.
\<close>

section \<open>src/ftimer.c\<close>

record timeval =
  tv_sec :: int
  tv_usec :: int

record itimerval =
  it_interval :: timeval
  it_value :: timeval

record etime =
  first_u :: itimerval
  first_r :: itimerval
  first_p :: itimerval

definition MAX_ETIME :: int where
  "MAX_ETIME = 86400"

definition start_value :: itimerval where
  "start_value = \<lparr>it_interval = \<lparr>tv_sec = 0, tv_usec = 0\<rparr>, it_value = \<lparr>tv_sec = MAX_ETIME, tv_usec = 0\<rparr>\<rparr>"

text \<open>The three timers are started with the same value.\<close>

definition init_etime :: "etime \<Rightarrow> etime" where
  "init_etime e = e\<lparr>first_u := start_value, first_r := start_value, first_p := start_value\<rparr>"

text \<open>\<open>r_curr\<close> is what \<^verbatim>\<open>getitimer(ITIMER_REAL)\<close> delivers; the other two readings are not used.\<close>

definition get_etime :: "itimerval \<Rightarrow> etime \<Rightarrow> real" where
  "get_etime r_curr e =
     real_of_int (tv_sec (it_value (first_p e)) - tv_sec (it_value r_curr)) +
     real_of_int (tv_usec (it_value (first_p e)) - tv_usec (it_value r_curr)) / 1000000"

text \<open>\<^verbatim>\<open>for (i = 0; i < n; i++) f(argp);\<close>\<close>

fun run_times :: "nat \<Rightarrow> ('s \<Rightarrow> 's run) \<Rightarrow> 's \<Rightarrow> 's run" where
  "run_times 0 f s = returns s"
| "run_times (Suc n) f s = andthen (f s) (run_times n f)"

definition ftimer_itimer ::
  "itimerval \<Rightarrow> itimerval \<Rightarrow> ('s \<Rightarrow> 's run) \<Rightarrow> int \<Rightarrow> etime \<times> 's \<Rightarrow> (double \<times> etime \<times> 's) run" where
  "ftimer_itimer r1 r2 f n = (\<lambda>(e, s).
     let e = init_etime e; start = get_etime r1 e in
     andthen (run_times (nat n) f s) (\<lambda>s.
       let tmeas = get_etime r2 e - start
       in returns (Fin tmeas / Fin (real_of_int n), e, s)))"

definition ftimer_gettod ::
  "timeval \<Rightarrow> timeval \<Rightarrow> ('s \<Rightarrow> 's run) \<Rightarrow> int \<Rightarrow> 's \<Rightarrow> (double \<times> 's) run" where
  "ftimer_gettod stv etv f n s =
     andthen (run_times (nat n) f s) (\<lambda>s.
       let diff = Fin (1000 * real_of_int (tv_sec etv - tv_sec stv) + (1 / 1000) * real_of_int (tv_usec etv - tv_usec stv));
           diff = diff / Fin (real_of_int n)
       in returns (Fin (1 / 1000) * diff, s))"

section \<open>src/fsecs.c\<close>

definition USE_FCYC :: int where
  "USE_FCYC = 0"

definition USE_ITIMER :: int where
  "USE_ITIMER = 0"

definition USE_GETTOD :: int where
  "USE_GETTOD = 1"

record timing =
  t_fcyc :: fcyc_state
  t_clock :: clock
  t_etime :: etime
  Mhz :: double

text \<open>\<open>before\<close> and \<open>after\<close> are the time stamps around the two seconds of sleep in \<^verbatim>\<open>mhz\<close>.\<close>

definition init_fsecs :: "stamp \<Rightarrow> stamp \<Rightarrow> timing \<Rightarrow> timing" where
  "init_fsecs before after tm =
     (let tm = tm\<lparr>Mhz := 0\<rparr> in
      if USE_FCYC \<noteq> 0 then
        let st = set_fcyc_k 3 (set_fcyc_epsilon (1 / 100) (set_fcyc_compensate 1
                  (set_fcyc_clear_cache 1 (set_fcyc_maxsamples 20 (t_fcyc tm)))));
            (m, c) = mhz before after (t_clock tm)
        in tm\<lparr>t_fcyc := st, t_clock := c, Mhz := m\<rparr>
      else tm)"

text \<open>The readings of all the clocks during one measurement.\<close>

record meter =
  m_cycles :: readings
  m_itimer :: "itimerval \<times> itimerval"
  m_tod :: "timeval \<times> timeval"

definition fsecs :: "meter \<Rightarrow> ('s \<Rightarrow> 's run) \<Rightarrow> timing \<times> 's \<Rightarrow> (double \<times> timing \<times> 's) run" where
  "fsecs mt f = (\<lambda>(tm, s).
     if USE_FCYC \<noteq> 0 then
       andthen (fcyc (m_cycles mt) f (t_fcyc tm, t_clock tm, s)) (\<lambda>(cycles, st, c, s).
         returns (Fin cycles / (Mhz tm * Fin 1000000), tm\<lparr>t_fcyc := st, t_clock := c\<rparr>, s))
     else if USE_ITIMER \<noteq> 0 then
       andthen (ftimer_itimer (fst (m_itimer mt)) (snd (m_itimer mt)) f 10 (t_etime tm, s)) (\<lambda>(r, e, s).
         returns (r, tm\<lparr>t_etime := e\<rparr>, s))
     else if USE_GETTOD \<noteq> 0 then
       andthen (ftimer_gettod (fst (m_tod mt)) (snd (m_tod mt)) f 10 s) (\<lambda>(r, s). returns (r, tm, s))
     else halts Undefined)"

section \<open>What the timers return\<close>

definition usecs :: "timeval \<Rightarrow> int" where
  "usecs tv = tv_sec tv * 1000000 + tv_usec tv"

lemma run_times_pure: "(\<And>s. f s = returns (g s)) \<Longrightarrow> run_times n f s = returns ((g ^^ n) s)"
  by (induction n arbitrary: s) (simp_all add: funpow_swap1)

text \<open>A run that ends the process ends the measurement.\<close>

lemma run_times_halts: "f s = halts e \<Longrightarrow> run_times (Suc n) f s = halts e"
  by simp

text \<open>\<open>I k\<close> holds when \<open>k\<close> runs are still to come.\<close>

lemma run_times_count:
  assumes "\<And>k s. I (Suc k) s \<Longrightarrow> \<exists>s'. f s = returns s' \<and> I k s'" "I n s"
  shows "\<exists>s'. run_times n f s = returns s' \<and> I 0 s'"
  using assms(2)
proof (induction n arbitrary: s)
  case 0
  then show ?case by simp
next
  case (Suc n)
  from assms(1) [OF Suc.prems] obtain s' where "f s = returns s'" "I n s'" by blast
  with Suc.IH [of s'] show ?case by simp
qed

lemma run_times_inv:
  assumes "\<And>s. I s \<Longrightarrow> \<exists>s'. f s = returns s' \<and> I s'" "I s"
  shows "\<exists>s'. run_times n f s = returns s' \<and> I s'"
  by (rule run_times_count [where I = "\<lambda>_. I", OF assms])

text \<open>The average time of a run in seconds, by either clock.\<close>

lemma ftimer_gettod_ok:
  assumes "run_times (nat n) f s = returns s'" "0 < n"
  shows "ftimer_gettod stv etv f n s = returns (Fin (real_of_int (usecs etv - usecs stv) / 1000000 / real_of_int n), s')"
  using assms by (simp add: ftimer_gettod_def usecs_def Let_def Fin_divide field_simps)

lemma ftimer_itimer_ok:
  assumes "run_times (nat n) f s = returns s'" "0 < n"
  shows "ftimer_itimer r1 r2 f n (e, s) =
    returns (Fin (real_of_int (usecs (it_value r1) - usecs (it_value r2)) / 1000000 / real_of_int n), init_etime e, s')"
  using assms by (simp add: ftimer_itimer_def get_etime_def usecs_def Let_def Fin_divide field_simps)

lemma fsecs_ok:
  assumes "run_times 10 f s = returns s'"
  shows "fsecs mt f (tm, s) =
    returns (Fin (real_of_int (usecs (snd (m_tod mt)) - usecs (fst (m_tod mt))) / 10000000), tm, s')"
  using ftimer_gettod_ok [of 10 f s s' "fst (m_tod mt)" "snd (m_tod mt)"] assms
  by (simp add: fsecs_def USE_FCYC_def USE_ITIMER_def USE_GETTOD_def)

end
