(* ===== verification/Mdriver_Main.thy ===== *)
theory Mdriver_Main
  imports Mdriver_Trace Mdriver_Replay Fsecs
begin

text \<open>
  The main program of src/mdriver.c: the command line, the check of the team record, the
  loops that read and evaluate the traces, the statistics (\<open>printresults\<close>, \<open>sumresults\<close>)
  and the performance index.

  What the program gets from outside is the record \<open>env\<close>: the results of libc's allocation
  functions, the contents of the trace files, the page size, the clock readings, and libc's
  own allocator, which the option \<^verbatim>\<open>-l\<close> evaluates. The allocations are numbered, because
  \<open>mm_init\<close> asks for a new heap area every time it is called.
\<close>

section \<open>Statistics\<close>

record stats_t =
  s_ops :: double
  s_valid :: "32 word"
  s_secs :: double
  s_util :: double

text \<open>An element of the arrays that \<^verbatim>\<open>calloc\<close> delivers.\<close>

definition stats_zero :: stats_t where
  "stats_zero = \<lparr>s_ops = 0, s_valid = 0, s_secs = 0, s_util = 0\<rparr>"

text \<open>The lines that \<open>printresults\<close> prints, with the printed values.\<close>

datatype line =
  Row nat double double double double
| Row_invalid nat
| Total double double double double
| Total_invalid

fun print_rows ::
  "nat \<Rightarrow> stats_t list \<Rightarrow> double \<times> double \<times> double \<times> bool \<Rightarrow> line list \<times> double \<times> double \<times> double \<times> bool" where
  "print_rows i [] acc = ([], acc)"
| "print_rows i (st # rest) (secs, nops, util, got_error) =
     (if s_valid st \<noteq> 0 then
        let (ls, acc) = print_rows (i + 1) rest (secs + s_secs st, nops + s_ops st, util + s_util st, got_error)
        in (Row i (s_util st * Fin 100) (s_ops st) (s_secs st) ((s_ops st / Fin 1000) / s_secs st) # ls, acc)
      else
        let (ls, acc) = print_rows (i + 1) rest (secs, nops, util, True)
        in (Row_invalid i # ls, acc))"

definition printresults :: "stats_t list \<Rightarrow> line list" where
  "printresults stats =
     (let (ls, secs, nops, util, got_error) = print_rows 0 stats (0, 0, 0, False) in
      if \<not> got_error then
        ls @ [Total ((util / Fin (real (length stats))) * Fin 100) nops secs ((nops / Fin 1000) / secs)]
      else ls @ [Total_invalid])"

fun sum_loop :: "stats_t list \<Rightarrow> double \<times> double \<times> double \<times> nat \<Rightarrow> double \<times> double \<times> double \<times> nat" where
  "sum_loop [] acc = acc"
| "sum_loop (st # rest) (secs, nops, util, correct) =
     sum_loop rest (secs + s_secs st, nops + s_ops st, util + s_util st,
       if s_valid st \<noteq> 0 then correct + 1 else correct)"

text \<open>
  The three result parameters are pointers that may be null: \<open>want_correct\<close> and
  \<open>want_util\<close> say whether the first two are given, \<open>tput\<close> is the contents of the third
  before the call. It is only written when every trace is valid (or nobody counts them).
\<close>

definition sumresults ::
  "stats_t list \<Rightarrow> bool \<Rightarrow> bool \<Rightarrow> double option \<Rightarrow> (nat option \<times> double option \<times> double option) run" where
  "sumresults stats want_correct want_util tput =
     (let (secs, nops, util, correct) = sum_loop stats (0, 0, 0, 0);
          num_correct = (if want_correct then Some correct else None);
          avg_util = (if want_util then Some (util / Fin (real (length stats))) else None);
          avg_tput = (if \<not> want_correct \<or> correct = length stats then map_option (\<lambda>_. nops / secs) tput else tput)
      in if (case avg_tput of None \<Rightarrow> True | Some x \<Rightarrow> x > 0) then returns (num_correct, avg_util, avg_tput)
         else halts Assert)"

section \<open>The performance index\<close>

definition UTIL_WEIGHT :: real where
  "UTIL_WEIGHT = 60 / 100"

definition AVG_LIBC_THRUPUT :: real where
  "AVG_LIBC_THRUPUT = 1000000"

definition perf_index :: "32 word \<Rightarrow> double \<Rightarrow> double \<Rightarrow> double" where
  "perf_index errs avg_util avg_tput =
     (if errs = 0 then
        let p1 = Fin UTIL_WEIGHT * avg_util;
            p2 = (if avg_tput > Fin AVG_LIBC_THRUPUT then Fin (1 - UTIL_WEIGHT)
                  else Fin (1 - UTIL_WEIGHT) * (avg_tput / Fin AVG_LIBC_THRUPUT))
        in (p1 + p2) * Fin 100
      else 0)"

section \<open>The team\<close>

record team_t =
  teamname :: string
  name1 :: string
  id1 :: string
  name2 :: string
  id2 :: string

definition team :: team_t where
  "team = \<lparr>teamname = ''Anything-But-Java'', name1 = ''Michael Bartnett'', id1 = ''mrb402'',
     name2 = ''Nabil Hassein'', id2 = ''nah285''\<rparr>"

definition check_team :: "team_t \<Rightarrow> unit run" where
  "check_team t =
     (if teamname t = '''' then halts (Stop (Exit 1))
      else if name1 t = '''' \<or> id1 t = '''' then halts (Stop (Exit 1))
      else if name2 t \<noteq> '''' \<and> id2 t = '''' \<or> name2 t = '''' \<and> id2 t \<noteq> '''' then halts (Stop (Exit 1))
      else returns ())"

section \<open>The command line\<close>

definition TRACEDIR :: string where
  "TRACEDIR = ''traces/''"

definition DEFAULT_TRACEFILES :: "string list" where
  "DEFAULT_TRACEFILES = [''amptjp-bal.rep'', ''cccp-bal.rep'', ''cp-decl-bal.rep'', ''expr-bal.rep'',
     ''coalescing-bal.rep'', ''random-bal.rep'', ''random2-bal.rep'', ''binary-bal.rep'', ''binary2-bal.rep'',
     ''realloc-bal.rep'', ''realloc2-bal.rep'']"

text \<open>A file name that \<^verbatim>\<open>strdup\<close> failed to copy is \<open>None\<close>.\<close>

record options =
  o_tracefiles :: "string option list option"
  o_num_tracefiles :: nat
  o_tracedir :: string
  o_team_check :: bool
  o_run_libc :: bool
  o_autograder :: bool
  o_verbose :: nat

definition options_init :: options where
  "options_init = \<lparr>o_tracefiles = None, o_num_tracefiles = 0, o_tracedir = TRACEDIR, o_team_check = True,
     o_run_libc = False, o_autograder = False, o_verbose = 0\<rparr>"

text \<open>\<^verbatim>\<open>strcpy(tracedir, optarg)\<close> and the slash at the end; the buffer has \<^verbatim>\<open>MAXLINE\<close> bytes.\<close>

definition set_tracedir :: "string \<Rightarrow> string run" where
  "set_tracedir optarg =
     (if MAXLINE \<le> length optarg \<or> optarg = '''' then halts Undefined
      else if last optarg \<noteq> CHR ''/'' then
        if MAXLINE \<le> length optarg + 1 then halts Undefined else returns (optarg @ ''/'')
      else returns optarg)"

definition read_option :: "bool \<Rightarrow> (string \<Rightarrow> string option) \<Rightarrow> char \<times> string \<Rightarrow> options \<Rightarrow> options run" where
  "read_option realloc_ok strdup = (\<lambda>(c, optarg) opt.
     if c = CHR ''g'' then returns (opt\<lparr>o_autograder := True\<rparr>)
     else if c = CHR ''f'' then
       if \<not> realloc_ok then unix_error
       else returns (opt\<lparr>o_num_tracefiles := 1, o_tracedir := ''./'', o_tracefiles := Some [strdup optarg]\<rparr>)
     else if c = CHR ''t'' then
       if o_num_tracefiles opt = 1 then returns opt
       else andthen (set_tracedir optarg) (\<lambda>dir. returns (opt\<lparr>o_tracedir := dir\<rparr>))
     else if c = CHR ''a'' then returns (opt\<lparr>o_team_check := False\<rparr>)
     else if c = CHR ''l'' then returns (opt\<lparr>o_run_libc := True\<rparr>)
     else if c = CHR ''v'' then returns (opt\<lparr>o_verbose := 1\<rparr>)
     else if c = CHR ''V'' then returns (opt\<lparr>o_verbose := 2\<rparr>)
     else if c = CHR ''h'' then halts (Stop (Exit 0))
     else halts (Stop (Exit 1)))"

text \<open>\<open>args\<close> are the results of \<^verbatim>\<open>getopt\<close> with their arguments.\<close>

fun read_options :: "bool \<Rightarrow> (string \<Rightarrow> string option) \<Rightarrow> (char \<times> string) list \<Rightarrow> options \<Rightarrow> options run" where
  "read_options realloc_ok strdup [] opt = returns opt"
| "read_options realloc_ok strdup (a # args) opt =
     andthen (read_option realloc_ok strdup a opt) (read_options realloc_ok strdup args)"

section \<open>The traces\<close>

text \<open>
  The environment. \<open>e_reads i k\<close>: whether the \<open>k\<close>-th allocation for trace \<open>i\<close> succeeds when
  the trace is read for the package, \<open>e_libc_reads i k\<close> when it is read for libc;
  \<open>e_area i k\<close>: libc's \<^verbatim>\<open>malloc\<close> in the \<open>k\<close>-th call of \<open>mm_init\<close> for trace \<open>i\<close>;
  \<open>e_tput\<close>: what the uninitialised variables for the throughput contain.
\<close>

record 'l env =
  e_realloc :: bool
  e_strdup :: "string \<Rightarrow> string option"
  e_calloc :: "nat \<Rightarrow> bool"
  e_files :: "string \<Rightarrow> string option"
  e_libc_reads :: "nat \<Rightarrow> nat \<Rightarrow> bool"
  e_libc_uninit :: "nat \<Rightarrow> nat \<Rightarrow> 32 word"
  e_reads :: "nat \<Rightarrow> nat \<Rightarrow> bool"
  e_uninit :: "nat \<Rightarrow> nat \<Rightarrow> 32 word"
  e_page :: "32 word"
  e_area :: "nat \<Rightarrow> nat \<Rightarrow> size_t \<Rightarrow> addr"
  e_main_area :: "size_t \<Rightarrow> addr"
  e_records :: "nat \<Rightarrow> nat \<Rightarrow> bool"
  e_stamps :: "stamp \<times> stamp"
  e_meter :: "nat \<Rightarrow> meter"
  e_libc_meter :: "nat \<Rightarrow> meter"
  e_tput :: double
  e_libc_tput :: double
  e_malloc :: "size_t \<Rightarrow> 'l \<Rightarrow> (addr \<times> 'l) run"
  e_refit :: "addr \<Rightarrow> size_t \<Rightarrow> 'l \<Rightarrow> (addr \<times> 'l) run"
  e_free :: "addr \<Rightarrow> 'l \<Rightarrow> 'l run"

text \<open>\<open>read_trace\<close> with the path that it composes in a buffer of \<^verbatim>\<open>MAXLINE\<close> bytes.\<close>

definition load_trace ::
  "(string \<Rightarrow> string option) \<Rightarrow> (nat \<Rightarrow> bool) \<Rightarrow> (nat \<Rightarrow> 32 word) \<Rightarrow> string \<Rightarrow> string option \<Rightarrow> trace_t run" where
  "load_trace files alloc_ok uninit dir file =
     (if \<not> alloc_ok 1 then unix_error
      else case file of
        None \<Rightarrow> halts Undefined
      | Some name \<Rightarrow>
          if MAXLINE \<le> length dir + length name then halts Undefined
          else Some (read_trace alloc_ok uninit (files (dir @ name))))"

text \<open>\<open>eval_mm_speed\<close> as it is timed; the counter numbers the calls of \<open>mm_init\<close>.\<close>

definition speed_run :: "'l env \<Rightarrow> nat \<Rightarrow> trace_t \<times> driver \<times> nat \<Rightarrow> (trace_t \<times> driver \<times> nat) run" where
  "speed_run env i = (\<lambda>(t, d, k).
     andthen (eval_mm_speed (e_area env i k) (e_page env) t d) (\<lambda>(t, d). returns (t, d, k + 1)))"

definition eval_trace ::
  "'l env \<Rightarrow> nat \<Rightarrow> string \<Rightarrow> string option \<Rightarrow> driver \<times> timing \<Rightarrow> (stats_t \<times> driver \<times> timing) run" where
  "eval_trace env i dir file = (\<lambda>(d, tm).
     let d = d\<lparr>current_trace_name := file\<rparr> in
     andthen (load_trace (e_files env) (e_reads env i) (e_uninit env i) dir file) (\<lambda>t.
     let st = stats_zero\<lparr>s_ops := Fin (real_of_int (sint (num_ops t)))\<rparr> in
     andthen (eval_mm_valid (e_area env i 0) (e_page env) (e_records env i) t (of_nat i) d) (\<lambda>(v, t, d).
     let st = st\<lparr>s_valid := v\<rparr> in
     if s_valid st \<noteq> 0 then
       andthen (eval_mm_util (e_area env i 1) (e_page env) t d) (\<lambda>(u, t, d).
       andthen (fsecs (e_meter env i) (speed_run env i) (tm, t, d, 2)) (\<lambda>(secs, tm, t, d, k).
         returns (st\<lparr>s_util := u, s_secs := secs\<rparr>, d, tm)))
     else returns (st, d, tm))))"

fun eval_traces ::
  "'l env \<Rightarrow> nat \<Rightarrow> string \<Rightarrow> string option list \<Rightarrow> driver \<times> timing \<Rightarrow> (stats_t list \<times> driver \<times> timing) run" where
  "eval_traces env i dir [] dt = returns ([], dt)"
| "eval_traces env i dir (file # files) dt =
     andthen (eval_trace env i dir file dt) (\<lambda>(st, dt).
     andthen (eval_traces env (i + 1) dir files dt) (\<lambda>(sts, dt). returns (st # sts, dt)))"

text \<open>The same for libc's allocator.\<close>

definition eval_libc_trace ::
  "'l env \<Rightarrow> nat \<Rightarrow> string \<Rightarrow> string option \<Rightarrow> 'l \<times> timing \<Rightarrow> (stats_t \<times> 'l \<times> timing) run" where
  "eval_libc_trace env i dir file = (\<lambda>(l, tm).
     andthen (load_trace (e_files env) (e_libc_reads env i) (e_libc_uninit env i) dir file) (\<lambda>t.
     let st = stats_zero\<lparr>s_ops := Fin (real_of_int (sint (num_ops t)))\<rparr> in
     andthen (eval_libc_valid (e_malloc env) (e_refit env) (e_free env) t l) (\<lambda>(v, t, l).
     let st = st\<lparr>s_valid := v\<rparr> in
     if s_valid st \<noteq> 0 then
       andthen (fsecs (e_libc_meter env i)
           (\<lambda>(t, l). eval_libc_speed (e_malloc env) (e_refit env) (e_free env) t l) (tm, t, l)) (\<lambda>(secs, tm, t, l).
         returns (st\<lparr>s_secs := secs\<rparr>, l, tm))
     else returns (st, l, tm))))"

fun eval_libc_traces ::
  "'l env \<Rightarrow> nat \<Rightarrow> string \<Rightarrow> string option list \<Rightarrow> 'l \<times> timing \<Rightarrow> (stats_t list \<times> 'l \<times> timing) run" where
  "eval_libc_traces env i dir [] lt = returns ([], lt)"
| "eval_libc_traces env i dir (file # files) lt =
     andthen (eval_libc_trace env i dir file lt) (\<lambda>(st, lt).
     andthen (eval_libc_traces env (i + 1) dir files lt) (\<lambda>(sts, lt). returns (st # sts, lt)))"

section \<open>main\<close>

text \<open>What the program has printed when it reaches \<^verbatim>\<open>exit(0)\<close>.\<close>

record report =
  r_libc :: "line list"
  r_table :: "line list"
  r_errors :: "32 word"
  r_perfindex :: double
  r_autograder :: "(nat \<times> double) option"

text \<open>The part for the option \<^verbatim>\<open>-l\<close>.\<close>

definition main_libc ::
  "'l env \<Rightarrow> options \<Rightarrow> string option list \<Rightarrow> 'l \<times> timing \<Rightarrow> (line list \<times> 'l \<times> timing) run" where
  "main_libc env opt files = (\<lambda>(l, tm).
     if o_run_libc opt then
       if \<not> e_calloc env 0 then unix_error
       else
         andthen (eval_libc_traces env 0 (o_tracedir opt) files (l, tm)) (\<lambda>(sts, l, tm).
         andthen (sumresults sts False False (Some (e_libc_tput env))) (\<lambda>_.
           returns (printresults sts, l, tm)))
     else returns ([], l, tm))"

text \<open>The part for the package.\<close>

definition main_mm ::
  "'l env \<Rightarrow> options \<Rightarrow> string option list \<Rightarrow> line list \<Rightarrow> driver \<times> timing \<Rightarrow> report run" where
  "main_mm env opt files libc_lines = (\<lambda>(d, tm).
     if \<not> e_calloc env 1 then unix_error
     else case mem_init (e_main_area env) (mm d) of
       Inl e \<Rightarrow> halts (Stop e)
     | Inr s \<Rightarrow>
         andthen (eval_traces env 0 (o_tracedir opt) files (d\<lparr>mm := s\<rparr>, tm)) (\<lambda>(sts, d, tm).
         let table = (if o_verbose opt \<noteq> 0 then printresults sts else []) in
         andthen (sumresults sts True True (Some (e_tput env))) (\<lambda>(num_correct, avg_util, avg_tput).
         let perfindex = perf_index (errors d) (the avg_util) (the avg_tput) in
         returns \<lparr>r_libc = libc_lines, r_table = table, r_errors = errors d, r_perfindex = perfindex,
           r_autograder = (if o_autograder opt then Some (the num_correct, perfindex) else None)\<rparr>)))"

definition main :: "'l env \<Rightarrow> (char \<times> string) list \<Rightarrow> team_t \<Rightarrow> 'l \<times> driver \<times> timing \<Rightarrow> report run" where
  "main env args tmr = (\<lambda>(l, d, tm).
     andthen (read_options (e_realloc env) (e_strdup env) args options_init) (\<lambda>opt.
     andthen (if o_team_check opt then check_team tmr else returns ()) (\<lambda>_.
     let files = (case o_tracefiles opt of None \<Rightarrow> map Some DEFAULT_TRACEFILES | Some fs \<Rightarrow> fs);
         tm = init_fsecs (fst (e_stamps env)) (snd (e_stamps env)) tm
     in andthen (main_libc env opt files (l, tm)) (\<lambda>(libc_lines, l, tm).
        main_mm env opt files libc_lines (d, tm)))))"

end
