(* ===== verification/Mdriver_Accept.thy ===== *)
theory Mdriver_Accept
  imports Mdriver_Main
begin

text \<open>
  The whole driver on well-formed traces: every trace is found valid, the statistics are
  those of the specification, and the performance index lies between 0 and 100.
\<close>

section \<open>What returns\<close>

named_theorems return_iff

lemma andthen_return_iff [return_iff]: "andthen m f = returns y \<longleftrightarrow> (\<exists>x. m = returns x \<and> f x = returns y)"
  by (auto simp: andthen_def returns_def split: option.splits sum.splits)

lemma call_return_iff [return_iff]: "call m = returns y \<longleftrightarrow> m = Some y"
  by (auto simp: call_def returns_def)

lemma array_set_return_iff [return_iff]:
  "array_set xs i x = returns ys \<longleftrightarrow> 0 \<le> sint i \<and> nat (sint i) < length xs \<and> ys = xs[nat (sint i) := x]"
  by (auto simp: array_set_def)

section \<open>Replaying keeps the shape of a trace\<close>

definition same_shape :: "trace_t \<Rightarrow> trace_t \<Rightarrow> bool" where
  "same_shape t t' \<longleftrightarrow> num_ids t' = num_ids t \<and> num_ops t' = num_ops t \<and> ops t' = ops t \<and>
     length (blocks t') = length (blocks t) \<and> length (block_sizes t') = length (block_sizes t)"

lemma same_shape_refl [simp]: "same_shape t t"
  by (simp add: same_shape_def)

lemma same_shape_trans: "same_shape t t' \<Longrightarrow> same_shape t' t'' \<Longrightarrow> same_shape t t''"
  by (simp add: same_shape_def)

lemma same_shape_set [simp]:
  "same_shape t (t\<lparr>blocks := (blocks t)[i := x]\<rparr>)"
  "same_shape t (t\<lparr>blocks := (blocks t)[i := x], block_sizes := (block_sizes t)[j := y]\<rparr>)"
  by (simp_all add: same_shape_def)

lemma trace_ok_shape: "same_shape t t' \<Longrightarrow> trace_ok m t' = trace_ok m t"
  by (simp add: same_shape_def trace_ok_def trace_ops_def)

lemma trace_ops_shape: "same_shape t t' \<Longrightarrow> trace_ops t' = trace_ops t"
  by (simp add: same_shape_def trace_ops_def)

lemma valid_op_shape:
  assumes "valid_op record_ok tn i op (t, d) = returns (go, t', d')"
  shows "same_shape t t'"
  using assms
  by (cases "op_type op")
    (auto simp: valid_op_def valid_alloc_def valid_realloc_def valid_free_def Let_def return_iff split: if_splits)

lemma valid_loop_shape:
  "valid_loop record_ok tn i xs (t, d) = returns (v, t', d') \<Longrightarrow> same_shape t t'"
proof (induction xs arbitrary: i t d)
  case Nil
  then show ?case by simp
next
  case (Cons op xs)
  then obtain go t1 d1 where 1: "valid_op record_ok tn i op (t, d) = returns (go, t1, d1)"
    "(if go then valid_loop record_ok tn (i + 1) xs (t1, d1) else returns (0, t1, d1)) = returns (v, t', d')"
    by (auto simp: return_iff)
  with Cons.IH [of "i + 1" t1 d1] valid_op_shape [OF 1(1)] same_shape_trans show ?case
    by (auto split: if_splits)
qed

lemma eval_mm_valid_shape:
  assumes "eval_mm_valid libc_malloc pg record_ok t tn d = returns (v, t', d')"
  shows "same_shape t t'"
  using assms by (auto simp: eval_mm_valid_def Let_def return_iff split: if_splits dest: valid_loop_shape)

lemma util_loop_shape: "util_loop xs (t, u) = returns (t', u') \<Longrightarrow> same_shape t t'"
proof (induction xs arbitrary: t u)
  case Nil
  then show ?case by simp
next
  case (Cons op xs)
  then obtain t1 u1 where 1: "util_op op (t, u) = returns (t1, u1)" "util_loop xs (t1, u1) = returns (t', u')"
    by (auto simp: return_iff)
  have "same_shape t t1"
    using 1(1) by (cases "op_type op") (auto simp: util_op_def Let_def return_iff split: if_splits)
  with Cons.IH [OF 1(2)] same_shape_trans show ?case by blast
qed

lemma eval_loop_shape:
  "eval_loop (eval_op m r f) xs (t, s) = returns (t', s') \<Longrightarrow> same_shape t t'"
proof (induction xs arbitrary: t s)
  case Nil
  then show ?case by simp
next
  case (Cons op xs)
  then obtain t1 s1 where 1: "eval_op m r f op (t, s) = returns (t1, s1)"
    "eval_loop (eval_op m r f) xs (t1, s1) = returns (t', s')"
    by (auto simp: return_iff)
  have "same_shape t t1"
    using 1(1) by (cases "op_type op") (auto simp: eval_op_def return_iff split: if_splits)
  with Cons.IH [OF 1(2)] same_shape_trans show ?case by blast
qed

text \<open>The two runs that do not check leave the error count alone.\<close>

lemma init_package_errors:
  assumes "init_package libc_malloc pg d = returns (v, d')"
  shows "errors d' = errors d"
proof -
  from assms obtain x where "(case x of Inl e \<Rightarrow> halts (Stop e) | Inr (v, s) \<Rightarrow> returns (v, d\<lparr>mm := s\<rparr>)) = returns (v, d')"
    by (auto simp: init_package_def return_iff)
  then show ?thesis by (cases x) auto
qed

lemma eval_mm_util_keeps:
  assumes "eval_mm_util libc_malloc pg t d = returns (r, t', d')"
  shows "same_shape t t'" "errors d' = errors d"
  using assms init_package_errors [of libc_malloc pg "d\<lparr>mm := mem_reset_brk (mm d)\<rparr>"]
  by (auto simp: eval_mm_util_def return_iff split: if_splits dest: util_loop_shape)

lemma eval_mm_speed_keeps:
  assumes "eval_mm_speed libc_malloc pg t d = returns (t', d')"
  shows "same_shape t t'" "errors d' = errors d"
  using assms init_package_errors [of libc_malloc pg "d\<lparr>mm := mem_reset_brk (mm d)\<rparr>"]
  by (auto simp: eval_mm_speed_def return_iff split: if_splits dest: eval_loop_shape)

section \<open>Traces that can be played\<close>

text \<open>
  The file's trace has a header that agrees with its requests, the requests are well formed
  for a heap area that ends at \<open>hi\<close>, and the area has room for them when pages have
  \<open>n\<close> bytes.
\<close>

definition playable :: "nat \<Rightarrow> nat \<Rightarrow> trace_t \<Rightarrow> bool" where
  "playable hi n t \<longleftrightarrow> trace_fits t \<and> unat (num_ids t) < 2 ^ 30 \<and>
     ops_ok (\<lambda>k. hi + k + 15 < 2 ^ 32) (unat (num_ids t)) {} (ops t) \<and>
     16 + n + total_cost (\<lambda>k. max (adjusted k) n) (ops t) \<le> unat MAX_HEAP"

lemma reread_simps [simp]:
  "op_type (reread u op) = op_type op" "op_index (reread u op) = op_index op"
  "op_type op \<noteq> FREE \<Longrightarrow> op_size (reread u op) = op_size op"
  by (simp_all add: reread_def)

lemma ops_ok_reread:
  "ops_ok ok ids alive (map (\<lambda>(k, op). reread (u k) op) (zip [i..<i + length xs] xs)) = ops_ok ok ids alive xs"
proof (induction xs arbitrary: i alive)
  case Nil
  then show ?case by simp
next
  case (Cons op xs)
  have "zip [i..<i + length (op # xs)] (op # xs) = (i, op) # zip [Suc i..<Suc i + length xs] xs"
    by (simp add: upt_conv_Cons del: upt_Suc)
  with Cons.IH [where i = "Suc i"] show ?case
    by (cases "op_type op") (simp_all add: Let_def del: upt_Suc)
qed

lemma total_cost_reread:
  "total_cost c (map (\<lambda>(k, op). reread (u k) op) (zip [i..<i + length xs] xs)) = total_cost c xs"
proof (induction xs arbitrary: i)
  case Nil
  then show ?case by simp
next
  case (Cons op xs)
  have "zip [i..<i + length (op # xs)] (op # xs) = (i, op) # zip [Suc i..<Suc i + length xs] xs"
    by (simp add: upt_conv_Cons del: upt_Suc)
  with Cons.IH [of "Suc i"] show ?case by (simp del: upt_Suc)
qed

lemma trace_ops_fresh:
  assumes "trace_fits t"
  shows "trace_ops (fresh_trace u t) = map (\<lambda>(k, op). reread (u k) op) (zip [0..<length (ops t)] (ops t))"
    "real_of_int (sint (num_ops (fresh_trace u t))) = real (length (ops t))"
proof -
  have "length (ops t) < 2 ^ 31" "num_ops t = w32 (length (ops t))"
    using assms by (simp_all add: trace_fits_def w32_def)
  then have n: "sint (num_ops t) = int (length (ops t))" by (simp add: sint_w32)
  then show "trace_ops (fresh_trace u t) = map (\<lambda>(k, op). reread (u k) op) (zip [0..<length (ops t)] (ops t))"
    by (simp add: trace_ops_def fresh_trace_def)
  show "real_of_int (sint (num_ops (fresh_trace u t))) = real (length (ops t))"
    using n by (simp add: fresh_trace_def del: of_int_sint)
qed

lemma playable_ok:
  assumes "playable hi n t"
  shows "trace_ok hi (fresh_trace u t)"
    "16 + n + total_cost (\<lambda>k. max (adjusted k) n) (trace_ops (fresh_trace u t)) \<le> unat MAX_HEAP"
proof -
  have P: "trace_fits t" "unat (num_ids t) < 2 ^ 30"
    "ops_ok (\<lambda>k. hi + k + 15 < 2 ^ 32) (unat (num_ids t)) {} (ops t)"
    "16 + n + total_cost (\<lambda>k. max (adjusted k) n) (ops t) \<le> unat MAX_HEAP"
    using assms by (simp_all add: playable_def)
  note array_len_4 [OF P(2)]
  then show "trace_ok hi (fresh_trace u t)"
    using P(2,3) ops_ok_reread [of _ _ _ u 0 "ops t"] unfolding trace_ok_def trace_ops_fresh(1) [OF P(1)]
    by (simp add: fresh_trace_def)
  show "16 + n + total_cost (\<lambda>k. max (adjusted k) n) (trace_ops (fresh_trace u t)) \<le> unat MAX_HEAP"
    using P(4) total_cost_reread [of _ u 0 "ops t"] by (simp add: trace_ops_fresh(1) [OF P(1)])
qed

text \<open>One trace file of the environment is in order.\<close>

definition good_trace :: "'l env \<Rightarrow> string \<Rightarrow> nat \<Rightarrow> string \<Rightarrow> trace_t \<Rightarrow> bool" where
  "good_trace env dir i name t \<longleftrightarrow> length dir + length name < MAXLINE \<and>
     e_files env (dir @ name) = Some (show_trace t) \<and> (\<forall>k. e_reads env i k \<and> e_records env i k) \<and>
     (\<forall>k. init_ok (e_area env i k) (e_page env) \<and>
        playable (unat (e_area env i k MAX_HEAP) + unat MAX_HEAP) (adjusted (2 * unat (e_page env))) t) \<and>
     usecs (fst (m_tod (e_meter env i))) < usecs (snd (m_tod (e_meter env i)))"

definition elapsed :: "meter \<Rightarrow> real" where
  "elapsed mt = real_of_int (usecs (snd (m_tod mt)) - usecs (fst (m_tod mt))) / 10000000"

lemma speed_run_ok:
  assumes G: "good_trace env dir i name t0" and t: "same_shape (fresh_trace u t0) t"
  shows "\<exists>t' d' k'. speed_run env i (t, d, k) = returns (t', d', k') \<and> same_shape (fresh_trace u t0) t' \<and> errors d' = errors d"
proof -
  from G have "init_ok (e_area env i k) (e_page env)"
    and P: "playable (unat (e_area env i k MAX_HEAP) + unat MAX_HEAP) (adjusted (2 * unat (e_page env))) t0"
    by (simp_all add: good_trace_def)
  with eval_mm_speed_ok [OF this(1), of t d] playable_ok [OF P, of u] trace_ok_shape [OF t] trace_ops_shape [OF t]
  obtain t' d' where run: "eval_mm_speed (e_area env i k) (e_page env) t d = returns (t', d')" by auto
  from eval_mm_speed_keeps [OF this] same_shape_trans [OF t] run show ?thesis
    by (auto simp: speed_run_def)
qed

text \<open>
  A good trace is found valid; its utilisation is at least 0 and below 1, its time is the
  measured one, and no error is counted.
\<close>

definition good_stats :: "'l env \<Rightarrow> nat \<Rightarrow> trace_t \<Rightarrow> stats_t \<Rightarrow> bool" where
  "good_stats env i t st \<longleftrightarrow> s_valid st = 1 \<and> s_ops st = Fin (real (length (ops t))) \<and>
     s_secs st = Fin (elapsed (e_meter env i)) \<and> (\<exists>u. s_util st = Fin u \<and> 0 \<le> u \<and> u < 1)"

lemma quotient_lt: "p + 16 \<le> h \<Longrightarrow> 0 \<le> real p / real h \<and> real p / real h < 1"
  by simp

lemma eval_trace_ok:
  assumes G: "good_trace env dir i name t0"
  shows "\<exists>st d' tm'. eval_trace env i dir (Some name) (d, tm) = returns (st, d', tm') \<and>
    good_stats env i t0 st \<and> errors d' = errors d"
proof -
  let ?t = "fresh_trace (e_uninit env i) t0" and ?n = "adjusted (2 * unat (e_page env))"
    and ?d = "d\<lparr>current_trace_name := Some name\<rparr>"
  from G have I: "init_ok (e_area env i k) (e_page env)"
    and P: "playable (unat (e_area env i k MAX_HEAP) + unat MAX_HEAP) ?n t0" for k
    by (simp_all add: good_trace_def)
  have T: "trace_ok (unat (e_area env i k MAX_HEAP) + unat MAX_HEAP) ?t"
    "16 + ?n + total_cost (\<lambda>k. max (adjusted k) ?n) (trace_ops ?t) \<le> unat MAX_HEAP" for k
    using playable_ok [OF P] by blast+
  have fits: "trace_fits t0" using P [of 0] by (simp add: playable_def)
  have load: "load_trace (e_files env) (e_reads env i) (e_uninit env i) dir (Some name) = returns ?t"
    using G read_trace_show [OF fits, of "e_reads env i" "e_uninit env i"]
    by (simp add: load_trace_def good_trace_def returns_def)
  have "verdict (of_nat i) (16 + ?n + total_cost (\<lambda>k. max (adjusted k) ?n) (trace_ops ?t)) (unat MAX_HEAP) ?d
      (eval_mm_valid (e_area env i 0) (e_page env) (e_records env i) ?t (of_nat i) ?d)"
    by (rule eval_mm_valid_verdict [OF I T(1)]) (use G in \<open>simp add: good_trace_def\<close>)
  with T(2) obtain t1 d1 where 1: "eval_mm_valid (e_area env i 0) (e_page env) (e_records env i) ?t (of_nat i) ?d = returns (1, t1, d1)"
    "errors d1 = errors ?d"
    unfolding verdict_def by (meson leD)
  note S1 = eval_mm_valid_shape [OF 1(1)]
  from eval_mm_util_ok [OF I [of 1], of t1 d1] T(1) [of 1] T(2) trace_ok_shape [OF S1] trace_ops_shape [OF S1] obtain t2 d2 where
    2: "eval_mm_util (e_area env i 1) (e_page env) t1 d1 =
      returns (Fin (real (peak 0 Map.empty (trace_ops ?t)) / real (unat (mem_heapsize (mm d2)))), t2, d2)"
    "peak 0 Map.empty (trace_ops ?t) + 16 \<le> unat (mem_heapsize (mm d2))"
    by auto
  note K2 = eval_mm_util_keeps [OF 2(1)]
  have S2: "same_shape ?t t2" using same_shape_trans [OF S1 K2(1)] .
  have "\<exists>x. run_times 10 (speed_run env i) (t2, d2, 2) = returns x \<and>
      (case x of (t, d', k) \<Rightarrow> same_shape ?t t \<and> errors d' = errors d)"
  proof (rule run_times_inv)
    fix x :: "trace_t \<times> driver \<times> nat"
    assume "case x of (t, d', k) \<Rightarrow> same_shape ?t t \<and> errors d' = errors d"
    then show "\<exists>x'. speed_run env i x = returns x' \<and> (case x' of (t, d', k) \<Rightarrow> same_shape ?t t \<and> errors d' = errors d)"
      using speed_run_ok [OF G, of "e_uninit env i"] by (cases x) fastforce
  qed (use S2 K2(2) 1(2) in simp)
  then obtain t3 d3 k3 where 3: "run_times 10 (speed_run env i) (t2, d2, 2) = returns (t3, d3, k3)" "errors d3 = errors d"
    by auto
  let ?st = "stats_zero\<lparr>s_ops := Fin (real (length (ops t0))), s_valid := 1,
    s_util := Fin (real (peak 0 Map.empty (trace_ops ?t)) / real (unat (mem_heapsize (mm d2)))), s_secs := Fin (elapsed (e_meter env i))\<rparr>"
  have "eval_trace env i dir (Some name) (d, tm) = returns (?st, d3, tm)"
    using fsecs_ok [OF 3(1), of "e_meter env i" tm] trace_ops_fresh(2) [OF fits, of "e_uninit env i"]
    by (simp add: eval_trace_def load 1(1) 2(1) Let_def elapsed_def stats_zero_def del: of_int_sint One_nat_def)
  moreover have "good_stats env i t0 ?st"
    using quotient_lt [OF 2(2)] by (simp add: good_stats_def)
  ultimately show ?thesis using 3(2) by blast
qed

lemma eval_traces_ok:
  assumes "list_all2 (\<lambda>(i, name) t. good_trace env dir i name t) (zip [i..<i + length names] names) ts"
  shows "\<exists>sts d' tm'. eval_traces env i dir (map Some names) (d, tm) = returns (sts, d', tm') \<and>
    list_all2 (\<lambda>(i, t) st. good_stats env i t st) (zip [i..<i + length names] ts) sts \<and> errors d' = errors d"
  using assms
proof (induction names arbitrary: i ts d tm)
  case Nil
  then show ?case by simp
next
  case (Cons name names)
  have zip: "zip [i..<i + length (name # names)] (x # xs) = (i, x) # zip [Suc i..<Suc i + length names] xs" for x and xs :: "'x list"
    by (simp add: upt_conv_Cons del: upt_Suc)
  from Cons.prems obtain t ts' where ts: "ts = t # ts'" "good_trace env dir i name t"
    "list_all2 (\<lambda>(i, name) t. good_trace env dir i name t) (zip [Suc i..<Suc i + length names] names) ts'"
    unfolding zip by (auto simp: list_all2_Cons1)
  from eval_trace_ok [OF ts(2), of d tm] obtain st d1 tm1 where
    1: "eval_trace env i dir (Some name) (d, tm) = returns (st, d1, tm1)" "good_stats env i t st" "errors d1 = errors d"
    by blast
  from Cons.IH [OF ts(3), of d1 tm1] obtain sts d2 tm2 where
    2: "eval_traces env (Suc i) dir (map Some names) (d1, tm1) = returns (sts, d2, tm2)"
    "list_all2 (\<lambda>(i, t) st. good_stats env i t st) (zip [Suc i..<Suc i + length names] ts') sts" "errors d2 = errors d1"
    by blast
  from 1 2 show ?case unfolding ts(1) zip by simp
qed

section \<open>Statistics\<close>

lemma sum_loop_eq:
  "sum_loop sts (a, b, c, k) = (a + (\<Sum>st \<leftarrow> sts. s_secs st), b + (\<Sum>st \<leftarrow> sts. s_ops st), c + (\<Sum>st \<leftarrow> sts. s_util st),
    k + length (filter (\<lambda>st. s_valid st \<noteq> 0) sts))"
  by (induction sts arbitrary: a b c k) (simp_all add: algebra_simps)

lemma print_rows_eq:
  "snd (print_rows i sts (a, b, c, e)) =
    (a + (\<Sum>st \<leftarrow> filter (\<lambda>st. s_valid st \<noteq> 0) sts. s_secs st), b + (\<Sum>st \<leftarrow> filter (\<lambda>st. s_valid st \<noteq> 0) sts. s_ops st),
     c + (\<Sum>st \<leftarrow> filter (\<lambda>st. s_valid st \<noteq> 0) sts. s_util st), e \<or> (\<exists>st \<in> set sts. s_valid st = 0))"
  by (induction sts arbitrary: i a b c e) (auto simp: Let_def case_prod_beta ac_simps)

text \<open>With every trace valid, both summaries show the same totals.\<close>

lemma summaries_agree:
  assumes "\<forall>st \<in> set sts. s_valid st \<noteq> 0"
  shows "snd (print_rows i sts (0, 0, 0, False)) = (case sum_loop sts (0, 0, 0, 0) of (a, b, c, k) \<Rightarrow> (a, b, c, False))"
  using assms by (simp add: print_rows_eq sum_loop_eq filter_id_conv)

text \<open>All traces valid: the averages are written and the assertion holds.\<close>

lemma sumresults_valid:
  assumes "\<forall>st \<in> set sts. s_valid st \<noteq> 0" "(\<Sum>st \<leftarrow> sts. s_ops st) = Fin n" "0 < n" "(\<Sum>st \<leftarrow> sts. s_secs st) = Fin t" "0 \<le> t"
  shows "sumresults sts wc wu (Some tput) =
    returns (if wc then Some (length sts) else None, if wu then Some ((\<Sum>st \<leftarrow> sts. s_util st) / Fin (real (length sts))) else None,
      Some (Fin n / Fin t))"
proof -
  have "filter (\<lambda>st. s_valid st \<noteq> 0) sts = sts" using assms(1) by (simp add: filter_id_conv)
  then show ?thesis
    using Fin_divide_pos [OF assms(3,5)] assms(2,4) by (simp add: sumresults_def sum_loop_eq Let_def)
qed

text \<open>An invalid trace: the throughput keeps the value it had, which the caller never set.\<close>

lemma sumresults_invalid:
  assumes "\<exists>st \<in> set sts. s_valid st = 0"
  shows "sumresults sts True True (Some tput) =
    (if tput > 0 then returns (Some (length (filter (\<lambda>st. s_valid st \<noteq> 0) sts)),
       Some ((\<Sum>st \<leftarrow> sts. s_util st) / Fin (real (length sts))), Some tput)
     else halts Assert)"
proof -
  have "length (filter (\<lambda>st. s_valid st \<noteq> 0) sts) < length sts"
    using assms by (auto intro: length_filter_less)
  then show ?thesis by (simp add: sumresults_def sum_loop_eq Let_def)
qed

section \<open>The performance index\<close>

lemma perf_index_range:
  assumes "0 \<le> u" "u \<le> 1" "tput > 0"
  shows "\<exists>x. perf_index 0 (Fin u) tput = Fin x \<and> 60 * u < x \<and> x \<le> 60 * u + 40"
  using assms(3)
proof (cases rule: positive_cases)
  case (1 r)
  with assms show ?thesis
    by (cases "r > 1000000")
      (simp_all add: perf_index_def Fin_divide UTIL_WEIGHT_def AVG_LIBC_THRUPUT_def Let_def del: Fin_0)
next
  case 2
  with assms show ?thesis
    by (simp add: perf_index_def UTIL_WEIGHT_def AVG_LIBC_THRUPUT_def Let_def del: Fin_0)
qed

section \<open>main\<close>

text \<open>The traces of the run, each with its number and file name.\<close>

definition good_traces :: "'l env \<Rightarrow> string \<Rightarrow> string list \<Rightarrow> trace_t list \<Rightarrow> bool" where
  "good_traces env dir names ts \<longleftrightarrow>
     list_all2 (\<lambda>(i, name) t. good_trace env dir i name t) (zip [0..<length names] names) ts \<and>
     names \<noteq> [] \<and> (\<exists>t \<in> set ts. ops t \<noteq> [])"

lemma good_stats_each:
  assumes "list_all2 (\<lambda>(i, name) t. good_trace env dir i name t) (zip [i..<i + length names] names) ts"
    "list_all2 (\<lambda>(i, t) st. good_stats env i t st) (zip [i..<i + length names] ts) sts"
  shows "length sts = length names \<and> map s_ops sts = map (\<lambda>t. Fin (real (length (ops t)))) ts \<and>
    (\<forall>st \<in> set sts. s_valid st \<noteq> 0 \<and> (\<exists>t. s_secs st = Fin t \<and> 0 < t) \<and> (\<exists>u. s_util st = Fin u \<and> 0 \<le> u \<and> u < 1))"
  using assms
proof (induction names arbitrary: i ts sts)
  case Nil
  then show ?case by simp
next
  case (Cons name names)
  have zip: "zip [i..<i + length (name # names)] (x # xs) = (i, x) # zip [Suc i..<Suc i + length names] xs" for x and xs :: "'x list"
    by (simp add: upt_conv_Cons del: upt_Suc)
  from Cons.prems(1) obtain t ts' where ts: "ts = t # ts'" "good_trace env dir i name t"
    "list_all2 (\<lambda>(i, name) t. good_trace env dir i name t) (zip [Suc i..<Suc i + length names] names) ts'"
    unfolding zip by (auto simp: list_all2_Cons1)
  from Cons.prems(2) obtain st sts' where st: "sts = st # sts'" "good_stats env i t st"
    "list_all2 (\<lambda>(i, t) st. good_stats env i t st) (zip [Suc i..<Suc i + length names] ts') sts'"
    unfolding zip ts(1) by (auto simp: list_all2_Cons1)
  have "0 < elapsed (e_meter env i)" using ts(2) by (simp add: good_trace_def elapsed_def)
  with Cons.IH [OF ts(3) st(3)] ts(1) st(1,2) show ?case by (simp add: good_stats_def)
qed

text \<open>A sum of finite numbers is the finite number of their sum.\<close>

lemma sum_list_finite:
  assumes "\<forall>x \<in> set xs. \<exists>r. f x = Fin r \<and> P r"
  obtains g where "(\<Sum>x \<leftarrow> xs. f x) = Fin (\<Sum>x \<leftarrow> xs. g x)" "\<forall>x \<in> set xs. P (g x)"
proof -
  from assms obtain g where g: "\<forall>x \<in> set xs. f x = Fin (g x) \<and> P (g x)" by metis
  then have "map f xs = map (\<lambda>x. Fin (g x)) xs" by simp
  then have "(\<Sum>x \<leftarrow> xs. f x) = Fin (\<Sum>x \<leftarrow> xs. g x)" by (simp only: sum_list_Fin)
  with g show thesis by (intro that [of g]) simp_all
qed

lemma sum_list_bounds:
  fixes f :: "'a \<Rightarrow> real"
  assumes "\<forall>x \<in> set xs. 0 \<le> f x \<and> f x < 1" "xs \<noteq> []"
  shows "0 \<le> sum_list (map f xs)" "sum_list (map f xs) < real (length xs)"
proof -
  show "0 \<le> sum_list (map f xs)" using assms(1) by (intro sum_list_nonneg) auto
  show "sum_list (map f xs) < real (length xs)" using assms
  proof (induction xs)
    case (Cons x xs)
    then show ?case by (cases "xs = []") fastforce+
  qed simp
qed

text \<open>The printed table of valid traces.\<close>

lemma print_rows_lines:
  "length (fst (print_rows i sts acc)) = length sts" "Total_invalid \<notin> set (fst (print_rows i sts acc))"
  by (induction i sts acc rule: print_rows.induct) (auto simp: Let_def case_prod_beta)

lemma print_rows_valid:
  "\<forall>st \<in> set sts. s_valid st \<noteq> 0 \<Longrightarrow> Row_invalid k \<notin> set (fst (print_rows i sts acc))"
  by (induction i sts acc rule: print_rows.induct) (auto simp: Let_def case_prod_beta)

definition clean_table :: "nat \<Rightarrow> line list \<Rightarrow> bool" where
  "clean_table n ls \<longleftrightarrow> length ls = Suc n \<and> list_all (\<lambda>l. case l of Row_invalid k \<Rightarrow> False | Total_invalid \<Rightarrow> False | _ \<Rightarrow> True) ls"

lemma printresults_clean:
  assumes "\<forall>st \<in> set sts. s_valid st \<noteq> 0"
  shows "clean_table (length sts) (printresults sts)"
proof -
  have "\<not> snd (snd (snd (snd (print_rows 0 sts (0, 0, 0, False)))))"
    unfolding summaries_agree [OF assms] by (simp add: case_prod_beta)
  then show ?thesis
    using print_rows_lines [of 0 sts "(0, 0, 0, False)"] print_rows_valid [OF assms]
    by (auto simp: printresults_def clean_table_def case_prod_beta list_all_iff split: line.split)
qed

lemma good_traces_ops:
  assumes "map s_ops sts = map (\<lambda>t. Fin (real (length (ops t)))) ts" "\<exists>t \<in> set ts. ops t \<noteq> []"
  obtains n where "(\<Sum>st \<leftarrow> sts. s_ops st) = Fin n" "0 < n"
proof -
  obtain t where t: "t \<in> set ts" "ops t \<noteq> []" using assms(2) by blast
  then have "real (length (ops t)) \<le> (\<Sum>t \<leftarrow> ts. real (length (ops t)))"
    by (intro member_le_sum_list) auto
  moreover have "0 < real (length (ops t))" using t(2) by simp
  ultimately have "0 < (\<Sum>t \<leftarrow> ts. real (length (ops t)))" by linarith
  with that assms(1) sum_list_Fin show thesis by metis
qed

lemma good_traces_summary:
  assumes G: "good_traces env dir names ts"
  shows "\<exists>sts d' tm' u tput. eval_traces env 0 dir (map Some names) (d, tm) = returns (sts, d', tm') \<and> errors d' = errors d \<and>
    clean_table (length names) (printresults sts) \<and>
    sumresults sts True True (Some tp) = returns (Some (length names), Some (Fin u), Some tput) \<and>
    0 \<le> u \<and> u < 1 \<and> 0 < tput"
proof -
  from G have L: "list_all2 (\<lambda>(i, name) t. good_trace env dir i name t) (zip [0..<0 + length names] names) ts"
    and ne: "names \<noteq> []" and some: "\<exists>t \<in> set ts. ops t \<noteq> []"
    by (simp_all add: good_traces_def)
  from eval_traces_ok [OF L, of d tm] obtain sts d' tm' where
    run: "eval_traces env 0 dir (map Some names) (d, tm) = returns (sts, d', tm')" "errors d' = errors d"
    and S: "list_all2 (\<lambda>(i, t) st. good_stats env i t st) (zip [0..<0 + length names] ts) sts"
    by blast
  note E = good_stats_each [OF L S]
  have len: "length sts = length names" "sts \<noteq> []" and valid: "\<forall>st \<in> set sts. s_valid st \<noteq> 0" using E ne by auto
  obtain n where n: "(\<Sum>st \<leftarrow> sts. s_ops st) = Fin n" "0 < n" using good_traces_ops [OF _ some] E by blast
  obtain f where f: "(\<Sum>st \<leftarrow> sts. s_secs st) = Fin (\<Sum>st \<leftarrow> sts. f st)" "\<forall>st \<in> set sts. 0 < f st"
    using E by (auto intro: sum_list_finite [of sts s_secs "\<lambda>t. 0 < t"])
  obtain g where g: "(\<Sum>st \<leftarrow> sts. s_util st) = Fin (\<Sum>st \<leftarrow> sts. g st)" "\<forall>st \<in> set sts. 0 \<le> g st \<and> g st < 1"
    using E by (auto intro: sum_list_finite [of sts s_util "\<lambda>u. 0 \<le> u \<and> u < 1"])
  have secs: "0 \<le> (\<Sum>st \<leftarrow> sts. f st)" using f(2) by (intro sum_list_nonneg) (auto intro: less_imp_le)
  define u where "u = (\<Sum>st \<leftarrow> sts. g st) / real (length sts)"
  have "0 \<le> u" "u < 1"
    using sum_list_bounds [OF g(2) len(2)] len(2) by (simp_all add: u_def divide_less_eq)
  moreover have "sumresults sts True True (Some tp) =
      returns (Some (length names), Some (Fin u), Some (Fin n / Fin (\<Sum>st \<leftarrow> sts. f st)))"
    using sumresults_valid [OF valid n f(1) secs, of True True tp] len ne g(1) by (simp add: u_def Fin_divide_nz)
  moreover have "clean_table (length names) (printresults sts)" using printresults_clean [OF valid] len(1) by simp
  ultimately show ?thesis using run Fin_divide_pos [OF n(2) secs] by blast
qed

section \<open>libc's allocator\<close>

text \<open>
  What the option \<^verbatim>\<open>-l\<close> needs besides good traces: the array for the statistics, an allocator
  that serves and has room for eleven runs of every trace, memory for the traces themselves,
  and a clock that advances while each of them is timed.
\<close>

definition good_libc ::
  "'l env \<Rightarrow> ('l \<Rightarrow> addr set \<Rightarrow> bool) \<Rightarrow> (nat \<Rightarrow> nat) \<Rightarrow> ('l \<Rightarrow> nat) \<Rightarrow> 'l \<Rightarrow> trace_t list \<Rightarrow> bool" where
  "good_libc env rep cost room l ts \<longleftrightarrow> e_calloc env 0 \<and>
     libc_serves rep (e_malloc env) (e_refit env) (e_free env) cost room \<and> Ex (rep l) \<and>
     11 * (\<Sum>t \<leftarrow> ts. total_cost cost (ops t)) \<le> room l \<and>
     (\<forall>i < length ts. (\<forall>k. e_libc_reads env i k) \<and>
        usecs (fst (m_tod (e_libc_meter env i))) < usecs (snd (m_tod (e_libc_meter env i))))"

definition libc_stats :: "'l env \<Rightarrow> nat \<Rightarrow> trace_t \<Rightarrow> stats_t" where
  "libc_stats env i t = stats_zero\<lparr>s_ops := Fin (real (length (ops t))), s_valid := 1, s_secs := Fin (elapsed (e_libc_meter env i))\<rparr>"

text \<open>One trace: it is replayed once for correctness and ten times for its speed.\<close>

lemma eval_libc_trace_ok:
  assumes L: "libc_serves rep (e_malloc env) (e_refit env) (e_free env) cost room" and l: "Ex (rep l)"
    and G: "good_trace env dir i name t0" and R: "\<And>k. e_libc_reads env i k"
    and room: "11 * total_cost cost (ops t0) \<le> room l"
  shows "\<exists>l'. eval_libc_trace env i dir (Some name) (l, tm) = returns (libc_stats env i t0, l', tm) \<and> Ex (rep l') \<and>
    room l \<le> room l' + 11 * total_cost cost (ops t0)"
proof -
  let ?t = "fresh_trace (e_libc_uninit env i) t0" and ?op = "eval_op (e_malloc env) (e_refit env) (e_free env)"
    and ?c = "total_cost cost (ops t0)"
  let ?speed = "\<lambda>(t, l). eval_libc_speed (e_malloc env) (e_refit env) (e_free env) t l"
  from G have P: "playable (unat (e_area env i 0 MAX_HEAP) + unat MAX_HEAP) (adjusted (2 * unat (e_page env))) t0"
    by (simp add: good_trace_def)
  then have fits: "trace_fits t0" by (simp add: playable_def)
  have load: "load_trace (e_files env) (e_libc_reads env i) (e_libc_uninit env i) dir (Some name) = returns ?t"
    using G R read_trace_show [OF fits, of "e_libc_reads env i" "e_libc_uninit env i"]
    by (simp add: load_trace_def good_trace_def returns_def)
  define I where "I k = (\<lambda>(t, l'). same_shape ?t t \<and> Ex (rep l') \<and> k * ?c \<le> room l' \<and> room l \<le> room l' + (11 - k) * ?c)" for k
  have replay: "\<exists>t' l2. eval_loop ?op (trace_ops t) (t, l1) = returns (t', l2) \<and> I k (t', l2)"
    if I: "I (Suc k) (t, l1)" and k: "k < 11" for k t l1
  proof -
    from I have t: "same_shape ?t t" and rl: "Ex (rep l1)" and rm: "Suc k * ?c \<le> room l1" "room l \<le> room l1 + (11 - Suc k) * ?c"
      by (simp_all add: I_def)
    have tok: "trace_ok (unat (e_area env i 0 MAX_HEAP) + unat MAX_HEAP) t"
      using playable_ok(1) [OF P] trace_ok_shape [OF t] by simp
    have c: "total_cost cost (trace_ops t) = ?c"
      unfolding trace_ops_shape [OF t] trace_ops_fresh(1) [OF fits]
      using total_cost_reread [of cost _ 0 "ops t0"] by simp
    obtain A where A: "rep l1 A" using rl by blast
    have "total_cost cost (trace_ops t) \<le> room l1" using rm(1) c by simp
    from libc_replay [OF L A tok this] obtain t' l2 A' where
      *: "eval_loop ?op (trace_ops t) (t, l1) = returns (t', l2)" "rep l2 A'" "room l1 \<le> room l2 + ?c"
      unfolding c by blast
    have "11 - k = Suc (11 - Suc k)" using k by simp
    then have "I k (t', l2)"
      using same_shape_trans [OF t eval_loop_shape [OF *(1)]] *(2,3) rm by (auto simp: I_def)
    with *(1) show ?thesis by blast
  qed
  have "I (Suc 10) (?t, l)" using l room by (simp add: I_def)
  from replay [OF this] obtain t1 l1 where
    1: "eval_loop ?op (trace_ops ?t) (?t, l) = returns (t1, l1)" "I 10 (t1, l1)" by auto
  have "\<exists>x. run_times 10 ?speed (t1, l1) = returns x \<and> (0 :: nat) \<le> 10 \<and> I 0 x"
  proof (rule run_times_count [where I = "\<lambda>k x. k \<le> 10 \<and> I k x"])
    fix k and x :: "trace_t \<times> 'a"
    assume "Suc k \<le> 10 \<and> I (Suc k) x"
    with replay [of k "fst x" "snd x"] show "\<exists>x'. ?speed x = returns x' \<and> k \<le> 10 \<and> I k x'"
      by (cases x) (auto simp: eval_libc_speed_def)
  qed (use 1(2) in simp)
  then obtain t2 l2 where 2: "run_times 10 ?speed (t1, l1) = returns (t2, l2)" "I 0 (t2, l2)" by auto
  have "eval_libc_trace env i dir (Some name) (l, tm) = returns (libc_stats env i t0, l2, tm)"
    using fsecs_ok [OF 2(1), of "e_libc_meter env i" tm] trace_ops_fresh(2) [OF fits, of "e_libc_uninit env i"]
    by (simp add: eval_libc_trace_def eval_libc_valid_def load 1(1) Let_def elapsed_def libc_stats_def stats_zero_def
        del: of_int_sint One_nat_def)
  with 2(2) show ?thesis by (auto simp: I_def)
qed

lemma eval_libc_traces_ok:
  assumes "libc_serves rep (e_malloc env) (e_refit env) (e_free env) cost room" "Ex (rep l)"
    and "list_all2 (\<lambda>(i, name) t. good_trace env dir i name t) (zip [i..<i + length names] names) ts"
    and "\<And>j k. j < i + length names \<Longrightarrow> e_libc_reads env j k"
    and "11 * (\<Sum>t \<leftarrow> ts. total_cost cost (ops t)) \<le> room l"
  shows "\<exists>l'. eval_libc_traces env i dir (map Some names) (l, tm) =
    returns (map (\<lambda>(i, t). libc_stats env i t) (zip [i..<i + length names] ts), l', tm)"
  using assms(2-)
proof (induction names arbitrary: i ts l)
  case Nil
  then show ?case by simp
next
  case (Cons name names)
  have zip: "zip [i..<i + length (name # names)] (x # xs) = (i, x) # zip [Suc i..<Suc i + length names] xs" for x and xs :: "'x list"
    by (simp add: upt_conv_Cons del: upt_Suc)
  from Cons.prems(2) obtain t ts' where ts: "ts = t # ts'" "good_trace env dir i name t"
    "list_all2 (\<lambda>(i, name) t. good_trace env dir i name t) (zip [Suc i..<Suc i + length names] names) ts'"
    unfolding zip by (auto simp: list_all2_Cons1)
  have "e_libc_reads env i k" for k using Cons.prems(3) by simp
  moreover have "11 * total_cost cost (ops t) \<le> room l" using Cons.prems(4) ts(1) by simp
  ultimately obtain l1 where
    1: "eval_libc_trace env i dir (Some name) (l, tm) = returns (libc_stats env i t, l1, tm)" "Ex (rep l1)"
    "room l \<le> room l1 + 11 * total_cost cost (ops t)"
    using eval_libc_trace_ok [OF assms(1) Cons.prems(1) ts(2)] by blast
  have "e_libc_reads env j k" if "j < Suc i + length names" for j k using Cons.prems(3) that by simp
  moreover have "11 * (\<Sum>t \<leftarrow> ts'. total_cost cost (ops t)) \<le> room l1" using Cons.prems(4) 1(3) ts(1) by simp
  ultimately obtain l2 where
    2: "eval_libc_traces env (Suc i) dir (map Some names) (l1, tm) =
      returns (map (\<lambda>(i, t). libc_stats env i t) (zip [Suc i..<Suc i + length names] ts'), l2, tm)"
    using Cons.IH [OF 1(2) ts(3)] by blast
  from 1(1) 2 show ?case unfolding ts(1) zip by simp
qed

lemma main_libc_ok:
  assumes G: "good_traces env (o_tracedir opt) names ts" and L: "o_run_libc opt \<Longrightarrow> good_libc env rep cost room l ts"
  shows "\<exists>ls l'. main_libc env opt (map Some names) (l, tm) = returns (ls, l', tm) \<and>
    (if o_run_libc opt then clean_table (length names) ls else ls = [])"
proof (cases "o_run_libc opt")
  case False
  then show ?thesis by (simp add: main_libc_def)
next
  case True
  let ?sts = "map (\<lambda>(i, t). libc_stats env i t) (zip [0..<length names] ts)"
  from G have A: "list_all2 (\<lambda>(i, name) t. good_trace env (o_tracedir opt) i name t) (zip [0..<0 + length names] names) ts"
    and some: "\<exists>t \<in> set ts. ops t \<noteq> []"
    by (simp_all add: good_traces_def)
  have len: "length ts = length names" using list_all2_lengthD [OF A] by simp
  from L [OF True] len have L: "e_calloc env 0" "libc_serves rep (e_malloc env) (e_refit env) (e_free env) cost room" "Ex (rep l)"
    "11 * (\<Sum>t \<leftarrow> ts. total_cost cost (ops t)) \<le> room l"
    and reads: "\<And>j k. j < length names \<Longrightarrow> e_libc_reads env j k"
    and time: "\<And>i. i < length names \<Longrightarrow> usecs (fst (m_tod (e_libc_meter env i))) < usecs (snd (m_tod (e_libc_meter env i)))"
    unfolding good_libc_def by auto
  obtain l' where run: "eval_libc_traces env 0 (o_tracedir opt) (map Some names) (l, tm) = returns (?sts, l', tm)"
    using eval_libc_traces_ok [of rep env cost room l "o_tracedir opt" 0 names ts tm, OF L(2,3) A _ L(4), unfolded add_0] reads by auto
  have valid: "\<forall>st \<in> set ?sts. s_valid st \<noteq> 0" by (auto simp: libc_stats_def)
  have "map s_ops ?sts = map (\<lambda>t. Fin (real (length (ops t)))) ts"
    using len by (intro nth_equalityI) (simp_all add: libc_stats_def)
  then obtain n where n: "(\<Sum>st \<leftarrow> ?sts. s_ops st) = Fin n" "0 < n" by (rule good_traces_ops [OF _ some])
  have "0 \<le> elapsed (e_libc_meter env i)" if "i < length names" for i
    using time [OF that] by (simp add: elapsed_def)
  then have "\<forall>st \<in> set ?sts. \<exists>t. s_secs st = Fin t \<and> 0 \<le> t"
    by (auto simp: libc_stats_def dest!: set_zip_leftD)
  then obtain f where f: "(\<Sum>st \<leftarrow> ?sts. s_secs st) = Fin (\<Sum>st \<leftarrow> ?sts. f st)" "\<forall>st \<in> set ?sts. 0 \<le> f st"
    by (rule sum_list_finite)
  have "0 \<le> (\<Sum>st \<leftarrow> ?sts. f st)" using f(2) by (intro sum_list_nonneg) auto
  note S = sumresults_valid [OF valid n f(1) this, of False False "e_libc_tput env"]
  have "clean_table (length names) (printresults ?sts)" using printresults_clean [OF valid] len by simp
  moreover have "main_libc env opt (map Some names) (l, tm) = returns (printresults ?sts, l', tm)"
    using run S True L(1) by (simp add: main_libc_def)
  ultimately show ?thesis using True by auto
qed

section \<open>The whole program\<close>

definition trace_names :: "options \<Rightarrow> string option list" where
  "trace_names opt = (case o_tracefiles opt of None \<Rightarrow> map Some DEFAULT_TRACEFILES | Some fs \<Rightarrow> fs)"

lemma check_team_ok: "check_team team = returns ()"
  by (simp add: check_team_def team_def)

lemma main_accepts:
  assumes opt: "read_options (e_realloc env) (e_strdup env) args options_init = returns opt"
    "trace_names opt = map Some names"
    and env: "e_calloc env 1" "e_main_area env MAX_HEAP \<noteq> NULL"
    and G: "good_traces env (o_tracedir opt) names ts" and L: "o_run_libc opt \<Longrightarrow> good_libc env rep cost room l ts"
    and d: "errors d = 0"
  shows "\<exists>r x. main env args team (l, d, tm) = returns r \<and> r_errors r = 0 \<and> r_perfindex r = Fin x \<and> 0 < x \<and> x < 100 \<and>
    r_autograder r = (if o_autograder opt then Some (length names, Fin x) else None) \<and>
    (if o_verbose opt \<noteq> 0 then clean_table (length names) (r_table r) else r_table r = []) \<and>
    (if o_run_libc opt then clean_table (length names) (r_libc r) else r_libc r = [])"
proof -
  let ?tm = "init_fsecs (fst (e_stamps env)) (snd (e_stamps env)) tm"
  obtain s where s: "mem_init (e_main_area env) (mm d) = Inr s"
    using env(2) by (simp add: mem_init_def Let_def)
  from main_libc_ok [OF G L, of ?tm] obtain ls l' where
    libc: "main_libc env opt (map Some names) (l, ?tm) = returns (ls, l', ?tm)"
    "if o_run_libc opt then clean_table (length names) ls else ls = []" by blast
  from good_traces_summary [OF G, of "d\<lparr>mm := s\<rparr>" ?tm "e_tput env"] obtain sts d' tm' u tput where
    run: "eval_traces env 0 (o_tracedir opt) (map Some names) (d\<lparr>mm := s\<rparr>, ?tm) = returns (sts, d', tm')"
    "errors d' = 0" "sumresults sts True True (Some (e_tput env)) = returns (Some (length names), Some (Fin u), Some tput)"
    "0 \<le> u" "u < 1" "0 < tput" "clean_table (length names) (printresults sts)"
    using d by auto
  from perf_index_range [OF run(4) less_imp_le [OF run(5)] run(6)] obtain x where
    x: "perf_index 0 (Fin u) tput = Fin x" "60 * u < x" "x \<le> 60 * u + 40" by blast
  have "0 < x" "x < 100" using x(2,3) run(4,5) by linarith+
  then show ?thesis
    using opt env s run(1-3,7) x(1) check_team_ok libc
    by (simp add: main_def main_mm_def Let_def flip: trace_names_def)
qed

end
