(* ===== verification/Mdriver_Options.thy ===== *)
theory Mdriver_Options
  imports Mdriver_Accept
begin

text \<open>
  What the command line of src/mdriver.c means: the options after the loop over the results
  of \<^verbatim>\<open>getopt\<close>, in terms of all the arguments given.
\<close>

lemma read_options_snoc:
  "read_options realloc_ok strdup (args @ [a]) opt =
    andthen (read_options realloc_ok strdup args opt) (read_option realloc_ok strdup a)"
proof (induction args arbitrary: opt)
  case Nil
  then show ?case
    by (cases "read_option realloc_ok strdup a opt" rule: option.exhaust)
      (auto simp: andthen_def returns_def split: option.split sum.split)
next
  case (Cons b args)
  then show ?case by (auto simp: andthen_def split: option.split sum.split)
qed

text \<open>The argument of the last option of a kind.\<close>

definition last_arg :: "char \<Rightarrow> (char \<times> string) list \<Rightarrow> string option" where
  "last_arg k args = (let xs = filter (\<lambda>(c, _). c = k) args in if xs = [] then None else Some (snd (last xs)))"

lemma last_arg_simps [simp]:
  "last_arg k [] = None"
  "last_arg k (args @ [(c, s)]) = (if c = k then Some s else last_arg k args)"
  by (simp_all add: last_arg_def)

definition with_slash :: "string \<Rightarrow> string" where
  "with_slash d = (if last d = CHR ''/'' then d else d @ ''/'')"

definition given :: "(char \<times> string) list \<Rightarrow> char \<Rightarrow> bool" where
  "given args c \<longleftrightarrow> c \<in> fst ` set args"

lemma given_simps [simp]:
  "\<not> given [] c" "given (args @ [(c', s)]) c \<longleftrightarrow> given args c \<or> c' = c"
  by (auto simp: given_def)

text \<open>
  What the options say: a directory that fits into the buffer and ends with a slash; with
  \<^verbatim>\<open>-f\<close> one trace file, relative to the current directory, whatever \<^verbatim>\<open>-t\<close> says; without, the
  directory of the last \<^verbatim>\<open>-t\<close>; and the switches.
\<close>

definition means :: "(string \<Rightarrow> string option) \<Rightarrow> (char \<times> string) list \<Rightarrow> options \<Rightarrow> bool" where
  "means strdup args opt \<longleftrightarrow>
     o_tracedir opt \<noteq> '''' \<and> last (o_tracedir opt) = CHR ''/'' \<and> length (o_tracedir opt) < MAXLINE \<and>
     (case last_arg (CHR ''f'') args of
        None \<Rightarrow> o_tracefiles opt = None \<and> o_num_tracefiles opt = 0 \<and>
          o_tracedir opt = (case last_arg (CHR ''t'') args of None \<Rightarrow> TRACEDIR | Some d \<Rightarrow> with_slash d)
      | Some f \<Rightarrow> o_tracefiles opt = Some [strdup f] \<and> o_num_tracefiles opt = 1 \<and> o_tracedir opt = ''./'') \<and>
     o_run_libc opt = given args CHR ''l'' \<and> o_autograder opt = given args CHR ''g'' \<and>
     o_team_check opt = (\<not> given args CHR ''a'') \<and>
     (o_verbose opt \<noteq> 0) = (given args CHR ''v'' \<or> given args CHR ''V'') \<and> fst ` set args \<subseteq> set ''ftavVgl''"

lemma set_tracedir_returns:
  assumes "set_tracedir s = returns dir"
  shows "dir \<noteq> '''' \<and> last dir = CHR ''/'' \<and> length dir < MAXLINE \<and> dir = with_slash s"
  using assms by (auto simp: set_tracedir_def with_slash_def split: if_splits)

lemma if_return_iff: "(if b then x else y) = returns z \<longleftrightarrow> b \<and> x = returns z \<or> \<not> b \<and> y = returns z"
  by simp

lemma read_option_means:
  assumes "read_option realloc_ok strdup (c, s) opt = returns opt'" "means strdup args opt"
  shows "means strdup (args @ [(c, s)]) opt'"
proof -
  have M: "length ''./'' < MAXLINE" by (simp add: MAXLINE_def)
  note m = assms(2) [unfolded means_def]
  show ?thesis
  proof (cases "c = CHR ''f''")
    case True
    with assms(1) have "opt' = opt\<lparr>o_num_tracefiles := 1, o_tracedir := ''./'', o_tracefiles := Some [strdup s]\<rparr>"
      by (simp add: read_option_def split: if_splits)
    with True m M show ?thesis by (simp add: means_def)
  next
    case f: False
    show ?thesis
    proof (cases "c = CHR ''t''")
      case True
      show ?thesis
      proof (cases "last_arg (CHR ''f'') args")
        case None
        with True assms(1) m obtain dir where "set_tracedir s = returns dir" "opt' = opt\<lparr>o_tracedir := dir\<rparr>"
          by (auto simp: read_option_def return_iff)
        with True m None set_tracedir_returns show ?thesis by (simp add: means_def)
      next
        case (Some name)
        with True assms(1) m have "opt' = opt" by (simp add: read_option_def)
        with True m M Some show ?thesis by (simp add: means_def)
      qed
    next
      case t: False
      have fields: "o_autograder opt' = (o_autograder opt \<or> c = CHR ''g'')" "o_team_check opt' = (o_team_check opt \<and> c \<noteq> CHR ''a'')"
        "o_run_libc opt' = (o_run_libc opt \<or> c = CHR ''l'')"
        "(o_verbose opt' \<noteq> 0) = (o_verbose opt \<noteq> 0 \<or> c = CHR ''v'' \<or> c = CHR ''V'')"
        "o_tracedir opt' = o_tracedir opt" "o_tracefiles opt' = o_tracefiles opt" "o_num_tracefiles opt' = o_num_tracefiles opt"
        "c \<in> set ''ftavVgl''"
        using assms(1) f t by (auto simp: read_option_def split: if_splits)
      then have new: "fst ` set (args @ [(c, s)]) \<subseteq> set ''ftavVgl''" using m by simp
      have same: "last_arg (CHR ''f'') (args @ [(c, s)]) = last_arg (CHR ''f'') args"
        "last_arg (CHR ''t'') (args @ [(c, s)]) = last_arg (CHR ''t'') args" using f t by simp_all
      have "(o_verbose opt \<noteq> 0 \<or> c = CHR ''v'' \<or> c = CHR ''V'') \<longleftrightarrow>
          given (args @ [(c, s)]) CHR ''v'' \<or> given (args @ [(c, s)]) CHR ''V''"
        using m by auto
      then show ?thesis unfolding means_def fields(1-7) same using m new by simp
    qed
  qed
qed

lemma read_options_means:
  assumes "read_options realloc_ok strdup args options_init = returns opt"
  shows "means strdup args opt"
  using assms
proof (induction args arbitrary: opt rule: rev_induct)
  case Nil
  then show ?case by (auto simp: means_def options_init_def TRACEDIR_def MAXLINE_def)
next
  case (snoc a args)
  from snoc.prems obtain opt1 where
    "read_options realloc_ok strdup args options_init = returns opt1" "read_option realloc_ok strdup a opt1 = returns opt"
    unfolding read_options_snoc return_iff by blast
  with snoc.IH read_option_means show ?case by (cases a) blast
qed

text \<open>
  When the loop does not return: it stops at the first argument that is \<^verbatim>\<open>-h\<close> (exit code 0),
  unknown, or \<^verbatim>\<open>-f\<close> with no memory left (exit code 1), or a \<^verbatim>\<open>-t\<close> that leaves the buffer.
\<close>

lemma read_option_halts:
  assumes "read_option realloc_ok strdup (c, s) opt = halts e"
  shows "c = CHR ''h'' \<and> e = Stop (Exit 0) \<or> c \<notin> set ''ftavVglh'' \<and> e = Stop (Exit 1) \<or>
    c = CHR ''f'' \<and> \<not> realloc_ok \<and> e = Stop (Exit 1) \<or>
    c = CHR ''t'' \<and> (s = '''' \<or> MAXLINE \<le> length s + 1) \<and> e = Undefined"
  using assms
  by (auto simp: read_option_def set_tracedir_def andthen_def returns_def halts_def split: if_splits)

lemma read_option_total: "\<exists>x. read_option realloc_ok strdup a opt = Some x"
  by (cases a) (auto simp: read_option_def set_tracedir_def andthen_def returns_def halts_def)

lemma read_options_halts:
  assumes "read_options realloc_ok strdup args opt = halts e"
  shows "\<exists>(c, s) \<in> set args. c = CHR ''h'' \<and> e = Stop (Exit 0) \<or> c \<notin> set ''ftavVglh'' \<and> e = Stop (Exit 1) \<or>
    c = CHR ''f'' \<and> \<not> realloc_ok \<and> e = Stop (Exit 1) \<or>
    c = CHR ''t'' \<and> (s = '''' \<or> MAXLINE \<le> length s + 1) \<and> e = Undefined"
  using assms
proof (induction args arbitrary: opt)
  case Nil
  then show ?case by simp
next
  case (Cons a args)
  obtain c s where a: "a = (c, s)" by (cases a)
  obtain x where x: "read_option realloc_ok strdup a opt = Some x" using read_option_total by blast
  show ?case
  proof (cases x)
    case (Inl e')
    with x Cons.prems have "read_option realloc_ok strdup (c, s) opt = halts e" by (simp add: a andthen_def halts_def)
    from read_option_halts [OF this] show ?thesis unfolding a by (intro bexI [of _ "(c, s)"]) simp_all
  next
    case (Inr opt1)
    with x Cons.prems have "read_options realloc_ok strdup args opt1 = halts e" by (simp add: andthen_def)
    from Cons.IH [OF this] show ?thesis by auto
  qed
qed

lemma read_options_total: "\<exists>x. read_options realloc_ok strdup args opt = Some x"
proof (induction args arbitrary: opt)
  case (Cons a args)
  obtain x where "read_option realloc_ok strdup a opt = Some x" using read_option_total by blast
  with Cons.IH show ?case by (cases x) (simp_all add: andthen_def)
qed (simp add: returns_def)

end
