(* ===== verification/Mdriver_Alarm.thy ===== *)
theory Mdriver_Alarm
  imports Mdriver_Valid
begin

text \<open>
  Where \<open>eval_mm_valid\<close> of src/mdriver.c condemns a correct package. Its check of a
  reallocated payload compares a signed \<^verbatim>\<open>char\<close> with \<^verbatim>\<open>index & 0xFF\<close>; the first reallocation
  of an identifier with bit 7 set is reported as not preserved, although every byte is in
  its place.
\<close>

section \<open>A prefix of a trace\<close>

text \<open>
  While the area is large enough, the loop gets through a well-formed prefix \<open>xs\<close> and the
  rest is well formed for the blocks it leaves.
\<close>

lemma valid_loop_prefix:
  assumes "replays ids t d C" "ops_ok (fits_word (mm d)) ids (dom C) (xs @ ys)" "\<And>k. record_ok k"
    "total_cost (demand (mm d)) xs \<le> spare (mm d)"
  shows "\<exists>t' d' C'. valid_loop record_ok tn k (xs @ zs) (t, d) = valid_loop record_ok tn (k + length xs) zs (t', d') \<and>
    replays ids t' d' C' \<and> ops_ok (fits_word (mm d')) ids (dom C') ys \<and>
    evolves fits_word demand spare (total_cost (demand (mm d)) xs) (mm d) (mm d') \<and>
    errors d' = errors d \<and> messages d' = messages d"
  using assms
proof (induction xs arbitrary: t d C k)
  case Nil
  then show ?case by (intro exI [of _ t] exI [of _ d] exI [of _ C]) (simp add: evolves_def)
next
  case (Cons op rest)
  let ?c = "if op_type op = FREE then 0 else demand (mm d) (unat (op_size op))"
  have ops: "ops_ok (fits_word (mm d)) ids (dom C) (op # rest @ ys)" using Cons.prems(2) by simp
  from valid_op_ok [OF Cons.prems(1) ops, of record_ok k tn] Cons.prems(3) obtain alive msg where
    ok: "ops_ok (fits_word (mm d)) ids alive (rest @ ys)"
    and res: "op_result ids tn k msg ?c d alive (valid_op record_ok tn k op (t, d))"
    by blast
  have "\<not> spare (mm d) < ?c" using Cons.prems(4) by simp
  with res obtain t1 d1 C1 where r: "valid_op record_ok tn k op (t, d) = returns (True, t1, d1)"
    and P: "replays ids t1 d1 C1" "dom C1 = alive" and E: "evolves fits_word demand spare ?c (mm d) (mm d1)"
    and e: "errors d1 = errors d" "messages d1 = messages d"
    unfolding op_result_def by blast
  have same: "fits_word (mm d1) = fits_word (mm d)" "demand (mm d1) = demand (mm d)" "spare (mm d) \<le> spare (mm d1) + ?c"
    using E by (simp_all add: evolves_def)
  have "ops_ok (fits_word (mm d1)) ids (dom C1) (rest @ ys)" using ok P(2) same(1) by simp
  moreover have "total_cost (demand (mm d1)) rest \<le> spare (mm d1)" using Cons.prems(4) same by simp
  ultimately obtain t' d' C' where
    *: "valid_loop record_ok tn (k + 1) (rest @ zs) (t1, d1) = valid_loop record_ok tn (k + 1 + length rest) zs (t', d')"
    "replays ids t' d' C'" "ops_ok (fits_word (mm d')) ids (dom C') ys"
    "evolves fits_word demand spare (total_cost (demand (mm d)) rest) (mm d1) (mm d')"
    "errors d' = errors d" "messages d' = messages d"
    using Cons.IH [OF P(1) _ Cons.prems(3), of "k + 1"] e same(2) by metis
  have "valid_loop record_ok tn k ((op # rest) @ zs) (t, d) = valid_loop record_ok tn (k + length (op # rest)) zs (t', d')"
    using r *(1) by simp
  moreover have "evolves fits_word demand spare (total_cost (demand (mm d)) (op # rest)) (mm d) (mm d')"
    using evolves_trans [OF E *(4)] by simp
  ultimately show ?case using *(2,3,5,6) by blast
qed

section \<open>The false alarm\<close>

text \<open>A payload that starts with the pattern of an index with bit 7 set is not recognised.\<close>

lemma pattern_lost:
  assumes "mem s (w32 p) = pattern i" "bit (w32 i) 7" "0 < m" "m < 2 ^ 31"
  shows "\<not> pattern_kept (mem s) (w32 p) (w32 i) (w32 m)"
proof
  assume "pattern_kept (mem s) (w32 p) (w32 i) (w32 m)"
  moreover have "0 \<in> set [0..<nat (sint (w32 m))]" using assms(3,4) by (simp add: sint_w32)
  ultimately have "(scast (mem s (w32 p + of_nat 0)) :: 32 word) = w32 i AND 0xFF"
    unfolding pattern_kept_def list_all_iff by blast
  with assms(1) have "(scast (ucast (w32 i AND 0xFF) :: 8 word) :: 32 word) = w32 i AND 0xFF"
    by (simp add: pattern_def)
  then show False using scast_high [OF assms(2)] by blast
qed

text \<open>
  \<open>alarm\<close>: the operation is reported as not preserving a payload, and the driver's newest
  range is a block of the requested size that holds every byte of the old pattern.
\<close>

definition alarm :: "32 word \<Rightarrow> nat \<Rightarrow> 32 word \<Rightarrow> nat \<Rightarrow> driver \<Rightarrow> trace_t \<Rightarrow> driver \<Rightarrow> bool" where
  "alarm tn k index n d t' d' \<longleftrightarrow> errors d' = errors d + 1 \<and>
     messages d' = (tn, LINENUM (of_nat k), Not_preserved) # messages d \<and>
     (\<exists>p rs. ranges d' = \<lparr>r_lo = p, r_hi = p + w32 n - 1\<rparr> # rs \<and>
       (\<forall>j < min n (unat (block_sizes t' ! unat index)). mem (mm d') (p + w32 j) = ucast (index AND 0xFF)))"

lemma valid_realloc_alarm:
  assumes P: "replays ids t d C" and i: "op_index op = w32 i" "C i = Some (a, m)" "bit (w32 i) 7"
    and n: "op_size op = w32 n" "0 < n" "n < 2 ^ 31" "fits_word (mm d) n" and ok: "record_ok k"
    and room: "demand (mm d) n \<le> spare (mm d)"
  shows "\<exists>d'. valid_realloc record_ok tn k op (t, d) = returns (False, t, d') \<and> alarm tn k (w32 i) n d t d'"
proof -
  note D = replaysD [OF P] and I = realloc_entry [OF P i(2)]
  from P i(2) n(2-4) show ?thesis
  proof (cases rule: realloc_recorded [where tn = tn and k = "of_nat k"])
    case fail
    with room show ?thesis by simp
  next
    case (moved p s')
    define d1 where "d1 = d\<lparr>mm := s', ranges := range_of (p, n) # remove_range (ranges d) (w32 a)\<rparr>"
    have least: "(if sint (w32 n) < sint (w32 m) then w32 n else w32 m) = w32 (min n m)"
      using n(3) I(4) by (simp add: sint_w32)
    have lost: "\<not> pattern_kept (mem s') (w32 p) (w32 i) (w32 (min n m))"
    proof (rule pattern_lost [OF _ i(3)])
      have "mem_byte s' (p + 0) = pattern i" using moved(4) n(2) I(3) by blast
      then show "mem s' (w32 p) = pattern i" by (simp add: mem_byte_def)
    qed (use n(2,3) I(3,4) in simp_all)
    have "valid_realloc record_ok tn k op (t, d) = returns (False, t, malloc_error tn (of_nat k) Not_preserved d1)"
      using moved(1-3) ok lost
      by (simp add: valid_realloc_def i(1) n(1) Let_def I(1,2) least d1_def)
    moreover have "unat (w32 i) = i" "unat (w32 m) = m" using I(4,5) D(2) by (simp_all add: unat_w32)
    moreover have "range_of (p, n) = \<lparr>r_lo = w32 p, r_hi = w32 p + w32 n - 1\<rparr>"
      using n(2) by (simp add: range_of_def w32_add w32_diff_1)
    moreover have "mem s' (w32 p + w32 j) = ucast (w32 i AND 0xFF)" if "j < n" "j < m" for j
      using moved(4) that by (simp add: mem_byte_def pattern_def w32_add)
    ultimately show ?thesis using I(6) by (simp add: alarm_def malloc_error_def d1_def)
  qed
qed

text \<open>
  The whole run. Up to the reallocation the trace is well formed; that the reallocation
  names a held block is said by putting a release in its place.
\<close>

lemma eval_mm_valid_alarm:
  assumes ok: "init_ok libc_malloc pg" and r: "\<And>k. record_ok k"
    and t: "unat (num_ids t) < 2 ^ 31" "length (blocks t) = unat (num_ids t)" "length (block_sizes t) = unat (num_ids t)"
    and ops: "trace_ops t = xs @ op # rest"
      "ops_ok (\<lambda>k. unat (libc_malloc MAX_HEAP) + unat MAX_HEAP + k + 15 < 2 ^ 32) (unat (num_ids t)) {} (xs @ [op\<lparr>op_type := FREE\<rparr>])"
    and op: "op_type op = REALLOC" "bit (op_index op) 7" "0 < unat (op_size op)" "unat (op_size op) < 2 ^ 31"
      "unat (libc_malloc MAX_HEAP) + unat MAX_HEAP + unat (op_size op) + 15 < 2 ^ 32"
    and room: "16 + adjusted (2 * unat pg) + total_cost (\<lambda>k. max (adjusted k) (adjusted (2 * unat pg))) (xs @ [op]) \<le> unat MAX_HEAP"
  shows "\<exists>t' d'. eval_mm_valid libc_malloc pg record_ok t tn d = returns (0, t', d') \<and>
    alarm tn (length xs) (op_index op) (unat (op_size op)) d t' d'"
proof -
  let ?d = "clear_ranges (d\<lparr>mm := mem_reset_brk (mm d)\<rparr>)" and ?n = "adjusted (2 * unat pg)"
  define i n where "i = unat (op_index op)" and "n = unat (op_size op)"
  then have w: "op_index op = w32 i" "op_size op = w32 n" by simp_all
  obtain s' where s': "init_package libc_malloc pg ?d = returns (0, ?d\<lparr>mm := s'\<rparr>)"
    "mm.holds pattern s' Map.empty"
    "fits_word s' = (\<lambda>k. unat (libc_malloc MAX_HEAP) + unat MAX_HEAP + k + 15 < 2 ^ 32)"
    "demand s' = (\<lambda>k. max (adjusted k) ?n)" "spare s' + 16 + ?n = unat MAX_HEAP"
    by (rule init_package_ok [OF ok, of ?d pattern])
  have P: "replays (unat (num_ids t)) t (?d\<lparr>mm := s', trace_operations := ops t\<rparr>) Map.empty"
    using t s'(2) by (simp add: replays_def clear_ranges_def)
  have cost: "total_cost (demand s') xs + demand s' n \<le> spare s'"
    using room s'(5) op(1) unfolding s'(4) by (simp add: total_cost_def n_def)
  obtain t1 d1 C1 where run: "valid_loop record_ok tn 0 (xs @ op # rest) (t, ?d\<lparr>mm := s', trace_operations := ops t\<rparr>) =
      valid_loop record_ok tn (length xs) (op # rest) (t1, d1)"
    and P1: "replays (unat (num_ids t)) t1 d1 C1"
    and ok1: "ops_ok (fits_word (mm d1)) (unat (num_ids t)) (dom C1) [op\<lparr>op_type := FREE\<rparr>]"
    and E: "evolves fits_word demand spare (total_cost (demand s') xs) s' (mm d1)"
    and e: "errors d1 = errors d" "messages d1 = messages d"
    using valid_loop_prefix [OF P, of xs "[op\<lparr>op_type := FREE\<rparr>]" record_ok tn 0 "op # rest"] ops(2) r cost
    by (auto simp: s'(3) clear_ranges_def)
  from ok1 have "i \<in> dom C1" by (simp add: i_def Let_def)
  then obtain a m where a: "C1 i = Some (a, m)" by auto
  let ?d1 = "d1\<lparr>traceop_index := of_nat (length xs), traceop_ptr := op_index op\<rparr>"
  have P2: "replays (unat (num_ids t)) t1 ?d1 C1" using P1 by (simp add: replays_def)
  have fits: "fits_word (mm ?d1) n" "demand (mm ?d1) n \<le> spare (mm ?d1)"
    using E s'(3) op(5) cost by (auto simp: evolves_def n_def)
  have "bit (w32 i) 7" "0 < n" "n < 2 ^ 31" using op(2-4) by (simp_all add: i_def n_def)
  from valid_realloc_alarm [where record_ok = record_ok and tn = tn and k = "length xs", OF P2 w(1) a this(1) w(2) this(2,3) fits(1) r fits(2)] obtain d' where
    d': "valid_realloc record_ok tn (length xs) op (t1, ?d1) = returns (False, t1, d')"
    "alarm tn (length xs) (w32 i) n ?d1 t1 d'" by blast
  have "alarm tn (length xs) (op_index op) n d t1 d'" using d'(2) e w(1) by (simp add: alarm_def)
  moreover have "eval_mm_valid libc_malloc pg record_ok t tn d = returns (0, t1, d')"
    using s'(1) run d'(1) op(1) by (simp add: eval_mm_valid_def Let_def ops(1) valid_op_def)
  ultimately show ?thesis by (auto simp: n_def)
qed

end
