(* ===== verification/Mm_Frame.thy ===== *)
theory Mm_Frame
  imports Mm_Reach
begin

text \<open>
  What the package leaves alone. Its calls, and the stores of a client into the blocks it
  holds, write between the header of the first block and the break; the alignment word,
  the prologue, the rest of the heap area and the memory outside the area keep every byte.
  The consistency checker's scan of the unused area, and the check that the driver's own
  data survive, rest on this.
\<close>

definition untouched :: "mm_state \<Rightarrow> mm_state \<Rightarrow> bool" where
  "untouched s s' \<longleftrightarrow> heap_start s' = heap_start s \<and> mem_max_addr s' = mem_max_addr s \<and> brk s \<le> brk s' \<and>
     (\<forall>x < 2 ^ 32. x + 4 < heap_lo s \<or> brk s' \<le> x \<longrightarrow> mem_byte s' x = mem_byte s x)"

lemma untouchedD:
  assumes "untouched s s'" "x < 2 ^ 32" "x + 4 < heap_lo s \<or> brk s' \<le> x"
  shows "mem_byte s' x = mem_byte s x"
  using assms unfolding untouched_def by blast

lemma untouched_vars:
  assumes "untouched s s'"
  shows "heap_start s' = heap_start s" "heap_lo s' = heap_lo s" "mem_max_addr s' = mem_max_addr s" "brk s \<le> brk s'"
  using assms by (simp_all add: untouched_def heap_lo_def)

lemma untouched_refl [simp]: "untouched s s"
  by (simp add: untouched_def)

lemma untouched_trans:
  assumes "untouched s t" "untouched t u"
  shows "untouched s u"
proof -
  note V = untouched_vars [OF assms(1)] untouched_vars [OF assms(2)]
  have "mem_byte u x = mem_byte s x" if "x < 2 ^ 32" "x + 4 < heap_lo s \<or> brk u \<le> x" for x
    using untouchedD [OF assms(1) that(1)] untouchedD [OF assms(2) that(1)] that(2) V by auto
  with V show ?thesis by (simp add: untouched_def)
qed

section \<open>The calls of the package\<close>

text \<open>From words to bytes.\<close>

lemma view_outside_byte:
  assumes out: "\<And>c. c + 4 < lo \<or> hi \<le> c \<Longrightarrow> view m' c = view m c"
    and x: "x < 2 ^ 32" "x + 4 < lo \<or> hi \<le> x" and hi: "4 dvd hi"
  shows "m' (w32 x) = m (w32 x)"
proof -
  define c where "c = x div 4 * 4"
  have c: "x = c + x mod 4" "x mod 4 < 4" "4 dvd c" by (simp_all add: c_def)
  have cell: "wcell c" using c x(1) by (simp add: wcell_def)
  obtain j where "hi = 4 * j" using hi by (elim dvdE)
  moreover obtain l where "c = 4 * l" using c(3) by (elim dvdE)
  moreover have "j \<le> l" if "4 * j \<le> 4 * l + x mod 4" using that c(2) by linarith
  ultimately have "c + 4 < lo \<or> hi \<le> c" using x(2) c(1) by auto
  from out [OF this] have "m (w32 (c + x mod 4)) = m' (w32 (c + x mod 4))"
    using byte_of_view [OF cell c(2), of m] byte_of_view [OF cell c(2), of m'] by (simp only:)
  then show ?thesis using c(1) by (simp only: flip: c(1))
qed

lemma quiet_untouched:
  assumes q: "quiet (heap_lo s) (brk s') B (view (mem s)) (view (mem s'))"
    and g: "grows n s s'" and inv: "heap_inv s' B' S F"
  shows "untouched s s'"
proof -
  have "8 dvd brk s'" using heap_invD(1) [OF inv] by (simp add: vars_ok_def)
  then have "4 dvd brk s'" by (rule dvd_trans [rotated]) simp
  with view_outside_byte [OF quiet_outside [OF q]] g show ?thesis
    by (simp add: untouched_def grows_def mem_byte_def)
qed

lemma mm_malloc_untouched:
  assumes inv: "heap_inv s B (frees B) F" and n: "fits_word s n" and run: "mm_malloc (w32 n) s = Some (p, s')"
  shows "untouched s s'"
proof (cases "n = 0")
  case True
  with run show ?thesis by (simp add: mm_malloc_0)
next
  case False
  with mm_malloc_sim [OF inv _ n] run show ?thesis
    by (auto simp: allocated_def dest: quiet_untouched)
qed

lemma mm_realloc_untouched:
  assumes inv: "heap_inv s B (frees B) F" and a: "allocs B a = Some sz" and n: "fits_word s n"
    and run: "mm_realloc (w32 a) (w32 n) s = Some (p, s')"
  shows "untouched s s'"
proof (cases "n = 0")
  case True
  with run show ?thesis by (simp add: mm_malloc_0 mm_realloc_def)
next
  case False
  with mm_realloc_sim [OF inv a _ n] run show ?thesis
    by (auto simp: reallocated_def dest: quiet_untouched)
qed

lemma mm_free_untouched:
  assumes inv: "heap_inv s B (frees B) F" and a: "allocs B a = Some sz" and run: "mm_free (w32 a) s = Some s'"
  shows "untouched s s'"
proof -
  obtain B' F' where *: "heap_inv s' B' (frees B') F'" "grows 0 s s'"
    "quiet (heap_lo s) (brk s) (B(a := None)) (view (mem s)) (view (mem s'))"
    using mm_free_allocs [OF inv a] run by (metis option.inject)
  have "brk s' = brk s" using *(2) by (simp add: grows_def)
  with *(3) have "quiet (heap_lo s) (brk s') (B(a := None)) (view (mem s)) (view (mem s'))" by simp
  then show ?thesis by (rule quiet_untouched [OF _ *(2,1)])
qed

section \<open>The steps of the machine\<close>

lemma covers_inv:
  assumes "covers s L"
  obtains B F where "heap_inv s B (frees B) F" "dom L = dom (allocs B)"
proof -
  from assms obtain B F where "heap_inv s B (frees B) F" "dom L = dom (usable B)"
    unfolding covers_def live_def by blast
  moreover have "dom (usable B) = dom (allocs B)" by (auto simp: usable_def)
  ultimately show ?thesis using that by simp
qed

lemma store_untouched:
  assumes c: "covers s L" and a: "L a = Some n" "j < n"
  shows "untouched s (s\<lparr>mem := PUTB (mem s) (w32 (a + j)) v\<rparr>)"
proof -
  note P = covers_payload [OF c a(1)]
  have "mem_byte (s\<lparr>mem := PUTB (mem s) (w32 (a + j)) v\<rparr>) x = mem_byte s x"
    if "x < 2 ^ 32" "x + 4 < heap_lo s \<or> brk s \<le> x" for x
  proof -
    have "x \<noteq> a + j" using that(2) P(3,4) a(2) by linarith
    then have "w32 x \<noteq> w32 (a + j)" using w32_eq_iff [of x "a + j"] that(1) P(5) a(2) by simp
    then show ?thesis by (simp add: mem_byte_def PUTB_at)
  qed
  then show ?thesis by (simp add: untouched_def brk_def)
qed

theorem mm_step_untouched:
  assumes st: "mm_step (s, L) (s', L')" and c: "covers s L"
  shows "untouched s s'"
proof -
  obtain B F where inv: "heap_inv s B (frees B) F" and d: "dom L = dom (allocs B)"
    by (rule covers_inv [OF c])
  have al: "\<exists>sz. allocs B a = Some sz" if "L a = Some n" for a n
    using that d by blast
  from st show ?thesis
    by (rule mm_stepE)
      (auto dest!: al intro: mm_malloc_untouched [OF inv] mm_realloc_untouched [OF inv] mm_free_untouched [OF inv]
        store_untouched [OF c])
qed

text \<open>Any number of steps.\<close>

lemma mm_steps_untouched:
  assumes "mm_step\<^sup>*\<^sup>* c c'" "covers (fst c) (snd c)"
  shows "untouched (fst c) (fst c') \<and> covers (fst c') (snd c')"
  using assms
proof (induction rule: rtranclp_induct)
  case base
  then show ?case by simp
next
  case (step y z)
  obtain s L s' L' where yz: "y = (s, L)" "z = (s', L')" by (cases y, cases z)
  with step have IH: "untouched (fst c) s" "covers s L" "mm_step (s, L) (s', L')" by auto
  show ?case
    using untouched_trans [OF IH(1) mm_step_untouched [OF IH(3,2)]] mm_step_covers [OF IH(3,2)] yz by simp
qed

text \<open>
  From before the initialisation: nothing outside the area of the heap that is in use has
  changed, and the prologue is as \<open>mm_init\<close> left it.
\<close>

lemma mm_init_untouched:
  assumes ok: "init_ok libc_malloc pg" and run: "mm_init libc_malloc pg s0 = Some (Inr (0, s))"
    and x: "x < 2 ^ 32" "x < unat (libc_malloc MAX_HEAP) \<or> brk s \<le> x"
  shows "mem_byte s x = mem_byte s0 x"
proof -
  obtain F where inv: "heap_inv s (init_blocks (unat (libc_malloc MAX_HEAP)) (adjusted (2 * unat pg)))
      (frees (init_blocks (unat (libc_malloc MAX_HEAP)) (adjusted (2 * unat pg)))) F"
    and out: "\<forall>c. c < unat (libc_malloc MAX_HEAP) \<or> brk s \<le> c \<longrightarrow> view (mem s) c = view (mem s0) c"
    using mm_init_run [OF ok, of s0] run by auto
  have "8 dvd brk s" using heap_invD(1) [OF inv] by (simp add: vars_ok_def)
  then have "4 dvd brk s" by (rule dvd_trans [rotated]) simp
  with view_outside_byte [of "unat (libc_malloc MAX_HEAP) + 4" "brk s" "mem s" "mem s0" x] out x
  show ?thesis by (simp add: mem_byte_def)
qed

lemma run_untouched:
  assumes ok: "init_ok libc_malloc pg" and run: "mm_init libc_malloc pg s0 = Some (Inr (0, s))"
    and steps: "mm_step\<^sup>*\<^sup>* (s, Map.empty) (s', L)"
    and x: "x < 2 ^ 32" "x < unat (libc_malloc MAX_HEAP) \<or> brk s' \<le> x"
  shows "mem_byte s' x = mem_byte s0 x"
proof -
  have u: "untouched s s'" using mm_steps_untouched [OF steps] covers_init [OF ok run] by simp
  obtain F where inv: "heap_inv s (init_blocks (unat (libc_malloc MAX_HEAP)) (adjusted (2 * unat pg)))
      (frees (init_blocks (unat (libc_malloc MAX_HEAP)) (adjusted (2 * unat pg)))) F"
    using mm_init_run [OF ok, of s0] run by auto
  have "heap_lo s = unat (libc_malloc MAX_HEAP) + 16"
    using heap_invD(2) [OF inv] by (auto simp: tiled_def init_blocks_def split: if_splits)
  with x have "x + 4 < heap_lo s \<or> brk s' \<le> x" "x < unat (libc_malloc MAX_HEAP) \<or> brk s \<le> x"
    using untouched_vars(4) [OF u] by auto
  with untouchedD [OF u x(1)] mm_init_untouched [OF ok run x(1)] show ?thesis by simp
qed

end
