(* ===== verification/Mm_Check.thy ===== *)
theory Mm_Check
  imports Mm_Frame
begin

text \<open>
  The debug build of src/mm.c: the consistency checker \<open>mm_check\<close> (compiled in with
  \<^verbatim>\<open>DO_MM_CHECK\<close>), the entry points that call it, and the test program \<open>test_main\<close>.
  A failed assertion aborts the process; the model says which one it was. The parameter
  \<open>ow\<close> of the definitions is the macro \<^verbatim>\<open>DO_HEAP_OVERWRITE_CHECK\<close>, which the source has
  commented out: with it the checker also reads every byte above the break.

  On a well-formed heap whose unused area is still zero the checker returns, and it fails
  only because of its limit on the size of a block.
\<close>

datatype check_failure =
  Heap_end_wrong
| Past_max_heap
| Overwritten addr
| Listed_allocated addr
| Listed_too_big addr
| Block_too_big addr

definition MAX_BLOCK_ALLOCSIZE :: size_t where
  "MAX_BLOCK_ALLOCSIZE = 1000000"

text \<open>\<^verbatim>\<open>while (bp < heap_start + MAX_HEAP) { assert((*bp) == 0); bp++; }\<close>\<close>

function overwrite_scan :: "memory \<Rightarrow> addr \<Rightarrow> addr \<Rightarrow> check_failure + unit" where
  "overwrite_scan m lim bp =
     (if bp < lim then
        if m bp \<noteq> 0 then Inl (Overwritten bp) else overwrite_scan m lim (bp + 1)
      else Inr ())"
  by pat_completeness auto
termination
proof (relation "measure (\<lambda>(m, lim, p). unat lim - unat p)")
  fix p lim :: addr
  assume "p < lim"
  then have "unat p < unat lim" "unat (p + 1) = Suc (unat p)"
    using unat_of_nat_Suc_less [of p lim] by (simp_all add: word_less_nat_alt)
  then show "((m :: memory, lim, p + 1), (m, lim, p)) \<in> measure (\<lambda>(m, lim, p). unat lim - unat p)" for m
    by simp
qed auto

declare overwrite_scan.simps [simp del]

text \<open>\<^verbatim>\<open>while (bp != NULL) { assert ...; bp = MEMHEADER_FROM_PAYLOAD(bp)->next_free; }\<close>\<close>

partial_function (option) check_list :: "memory \<Rightarrow> addr \<Rightarrow> (check_failure + unit) option" where
  "check_list m bp =
     (if bp \<noteq> NULL then
        if GET_THISALLOC m bp \<noteq> 0 then Some (Inl (Listed_allocated bp))
        else if \<not> GET_THISSIZE m bp < MAX_BLOCK_ALLOCSIZE then Some (Inl (Listed_too_big bp))
        else check_list m (next_free m (MEMHEADER_FROM_PAYLOAD bp))
      else Some (Inr ()))"

declare check_list.simps [code]

fun check_lists :: "memory \<Rightarrow> addr list \<Rightarrow> (check_failure + unit) option" where
  "check_lists m [] = Some (Inr ())"
| "check_lists m (h # hs) =
     do {
       r \<leftarrow> check_list m h;
       case r of Inl e \<Rightarrow> Some (Inl e) | Inr _ \<Rightarrow> check_lists m hs
     }"

text \<open>\<^verbatim>\<open>while (bp < heap_end) { assert ...; bp = GET_NEXTBLOCK(bp); }\<close>\<close>

partial_function (option) check_blocks :: "memory \<Rightarrow> addr \<Rightarrow> addr \<Rightarrow> (check_failure + unit) option" where
  "check_blocks m hend bp =
     (if bp < hend then
        if \<not> GET_THISSIZE m bp < MAX_BLOCK_ALLOCSIZE then Some (Inl (Block_too_big bp))
        else check_blocks m hend (GET_NEXTBLOCK m bp)
      else Some (Inr ()))"

declare check_blocks.simps [code]

definition mm_check :: "bool \<Rightarrow> mm_state \<Rightarrow> (check_failure + unit) option" where
  "mm_check ow s =
     (if heap_end s \<noteq> mem_heap_hi s then Some (Inl Heap_end_wrong)
      else if \<not> heap_end s < heap_start s + MAX_HEAP then Some (Inl Past_max_heap)
      else case if ow then overwrite_scan (mem s) (heap_start s + MAX_HEAP) (heap_end s + 1) else Inr () of
        Inl e \<Rightarrow> Some (Inl e)
      | Inr _ \<Rightarrow> do {
          r \<leftarrow> check_lists (mem s) (take FREELIST_COUNT (free_lists s));
          case r of
            Inl e \<Rightarrow> Some (Inl e)
          | Inr _ \<Rightarrow> check_blocks (mem s) (heap_end s) (heap_start s + 4 * WSIZE)
        })"

section \<open>The debug build\<close>

datatype debug_stop = Exited exit | Check_failed check_failure

text \<open>\<^verbatim>\<open>RUN_MM_CHECK()\<close>\<close>

definition RUN_MM_CHECK :: "bool \<Rightarrow> mm_state \<Rightarrow> (debug_stop + mm_state) option" where
  "RUN_MM_CHECK ow s = map_option (\<lambda>r. case r of Inl e \<Rightarrow> Inl (Check_failed e) | Inr _ \<Rightarrow> Inr s) (mm_check ow s)"

text \<open>The heap area is cleared before it is set up, and checked afterwards.\<close>

definition mm_init_debug :: "bool \<Rightarrow> (size_t \<Rightarrow> addr) \<Rightarrow> 32 word \<Rightarrow> mm_state \<Rightarrow> (debug_stop + int \<times> mm_state) option" where
  "mm_init_debug ow libc_malloc getpagesize s =
     (case mem_init libc_malloc s of
        Inl e \<Rightarrow> Some (Inl (Exited e))
      | Inr s \<Rightarrow>
          let s = s\<lparr>mem := memset (mem s) (mem_heap_lo s) 0 MAX_HEAP\<rparr> in
          do {
            (v, s) \<leftarrow> mm_setup getpagesize s;
            if v < 0 then Some (Inr (v, s)) else map_option (map_sum id (Pair v)) (RUN_MM_CHECK ow s)
          })"

text \<open>\<open>mm_malloc\<close> only reaches the check when it had to extend the heap.\<close>

definition mm_malloc_debug :: "bool \<Rightarrow> size_t \<Rightarrow> mm_state \<Rightarrow> (debug_stop + addr \<times> mm_state) option" where
  "mm_malloc_debug ow sz s =
     do {
       (p, s') \<leftarrow> mm_malloc sz s;
       if sz = 0 \<or> find_fit (ADJUST_BYTESIZE sz) s \<noteq> None \<or> p = NULL then Some (Inr (p, s'))
       else map_option (map_sum id (Pair p)) (RUN_MM_CHECK ow s')
     }"

definition mm_free_debug :: "bool \<Rightarrow> addr \<Rightarrow> mm_state \<Rightarrow> (debug_stop + mm_state) option" where
  "mm_free_debug ow ptr s = Option.bind (mm_free ptr s) (RUN_MM_CHECK ow)"

definition mm_realloc_debug :: "bool \<Rightarrow> addr \<Rightarrow> size_t \<Rightarrow> mm_state \<Rightarrow> (debug_stop + addr \<times> mm_state) option" where
  "mm_realloc_debug ow ptr sz s =
     do {
       r \<leftarrow> mm_malloc_debug ow sz s;
       case r of
         Inl e \<Rightarrow> Some (Inl e)
       | Inr (newptr, s) \<Rightarrow>
           if newptr = NULL then Some (Inr (NULL, s))
           else
             let copySize = GET_THISSIZE (mem s) ptr;
                 copySize = (if sz < copySize then sz else copySize);
                 s = s\<lparr>mem := memcpy (mem s) newptr ptr copySize\<rparr>
             in do {
               r \<leftarrow> mm_free_debug ow ptr s;
               case r of
                 Inl e \<Rightarrow> Some (Inl e)
               | Inr s \<Rightarrow> map_option (map_sum id (Pair newptr)) (RUN_MM_CHECK ow s)
             }
     }"

definition test_main :: "bool \<Rightarrow> (size_t \<Rightarrow> addr) \<Rightarrow> 32 word \<Rightarrow> mm_state \<Rightarrow> (debug_stop + int \<times> mm_state) option" where
  "test_main ow libc_malloc getpagesize s =
     do {
       r \<leftarrow> mm_init_debug ow libc_malloc getpagesize s;
       case r of
         Inl e \<Rightarrow> Some (Inl e)
       | Inr (_, s) \<Rightarrow> do {
           r \<leftarrow> mm_malloc_debug ow 100 s;
           case r of
             Inl e \<Rightarrow> Some (Inl e)
           | Inr (temp, s) \<Rightarrow> map_option (map_sum id (Pair 0)) (mm_free_debug ow temp s)
         }
     }"

section \<open>The checker on well-formed heaps\<close>

definition big :: "blocks \<Rightarrow> nat \<Rightarrow> bool" where
  "big B x \<longleftrightarrow> (case B x of Some (sz, _) \<Rightarrow> 1000000 \<le> sz | None \<Rightarrow> False)"

text \<open>What the checks of the lists report about the listed blocks \<open>xs\<close>: the first large one.\<close>

definition first_big :: "blocks \<Rightarrow> nat list \<Rightarrow> (check_failure + unit) option" where
  "first_big B xs =
     (case List.find (big B) xs of None \<Rightarrow> Some (Inr ()) | Some x \<Rightarrow> Some (Inl (Listed_too_big (w32 x))))"

lemma find_append: "List.find P (xs @ ys) = (case List.find P xs of None \<Rightarrow> List.find P ys | Some x \<Rightarrow> Some x)"
  by (induction xs) auto

lemma big_size:
  assumes "tiled lo hi B" "B x = Some (sz, al)"
  shows "w32 sz < MAX_BLOCK_ALLOCSIZE \<longleftrightarrow> \<not> big B x"
  using w32_less_iff [of sz 1000000] tiledD(7) [OF assms] assms(2)
  by (simp add: MAX_BLOCK_ALLOCSIZE_def big_def not_le)

lemma check_list_dll:
  assumes inv: "heap_inv s B (frees B) F" and d: "dll (view (mem s)) p xs 0"
    and xs: "\<And>x. x \<in> set xs \<Longrightarrow> \<exists>sz. B x = Some (sz, False)"
  shows "check_list (mem s) (w32 (hdn xs 0)) = first_big B xs"
  using d xs
proof (induction xs arbitrary: p)
  case Nil
  then show ?case by (simp add: check_list.simps NULL_def first_big_def)
next
  case (Cons x xs)
  obtain sz where x: "B x = Some (sz, False)" using Cons.prems(2) by auto
  note T = heap_invD(2) [OF inv]
  note N = tiled_node [OF T x]
  have step: "check_list (mem s) (w32 x) =
      (if big B x then Some (Inl (Listed_too_big (w32 x))) else check_list (mem s) (w32 (hdn xs 0)))"
    using Cons.prems(1) N big_size [OF T x]
    by (subst check_list.simps) (simp add: hdr_macros [OF inv_has_hdr [OF inv x]] node_rewrites)
  have "check_list (mem s) (w32 (hdn xs 0)) = first_big B xs" using Cons by auto
  with step show ?case by (simp add: first_big_def)
qed

lemma check_lists_ok:
  assumes inv: "heap_inv s B (frees B) F"
    and Fs: "\<And>xs. xs \<in> set Fs \<Longrightarrow> dll (view (mem s)) 0 xs 0 \<and> (\<forall>x \<in> set xs. \<exists>sz. B x = Some (sz, False))"
  shows "check_lists (mem s) (map (\<lambda>xs. w32 (hdn xs 0)) Fs) = first_big B (concat Fs)"
  using Fs
proof (induction Fs)
  case Nil
  then show ?case by (simp add: first_big_def)
next
  case (Cons xs Fs)
  then have "check_list (mem s) (w32 (hdn xs 0)) = first_big B xs"
    using check_list_dll [OF inv, of 0 xs] by auto
  moreover have "check_lists (mem s) (map (\<lambda>xs. w32 (hdn xs 0)) Fs) = first_big B (concat Fs)"
    by (rule Cons.IH, rule Cons.prems) simp
  ultimately show ?case by (simp add: first_big_def find_append split: option.split)
qed

text \<open>The walk over the heap from block \<open>a\<close> on.\<close>

lemma check_blocks_end:
  assumes inv: "heap_inv s B S F"
  shows "check_blocks (mem s) (w32 (brk s - 1)) (w32 (brk s)) = Some (Inr ())" "brk s \<le> b \<Longrightarrow> \<not> big B b"
proof -
  have "\<not> w32 (brk s) < w32 (brk s - 1)" using brk_cell [OF inv] by (simp add: w32_less_iff)
  then show "check_blocks (mem s) (w32 (brk s - 1)) (w32 (brk s)) = Some (Inr ())" by (subst check_blocks.simps) simp
  show "\<not> big B b" if "brk s \<le> b"
  proof (cases "B b")
    case (Some x)
    obtain sz al where "B b = Some (sz, al)" using Some by (cases x) simp
    from tiledD(3,6) [OF heap_invD(2) [OF inv] this] that show ?thesis by linarith
  qed (simp add: big_def)
qed

lemma check_blocks_step:
  assumes inv: "heap_inv s B S F" and B: "B a = Some (sz, al)"
  shows "check_blocks (mem s) (w32 (brk s - 1)) (w32 a) =
    (if big B a then Some (Inl (Block_too_big (w32 a))) else check_blocks (mem s) (w32 (brk s - 1)) (w32 (a + sz)))"
    "(\<forall>b. a \<le> b \<longrightarrow> \<not> big B b) \<longleftrightarrow> \<not> big B a \<and> (\<forall>b. a + sz \<le> b \<longrightarrow> \<not> big B b)"
proof -
  note T = heap_invD(2) [OF inv]
  have "w32 a < w32 (brk s - 1)" using tiledD(3,6) [OF T B] brk_cell [OF inv] by (simp add: w32_less_iff)
  then show "check_blocks (mem s) (w32 (brk s - 1)) (w32 a) =
    (if big B a then Some (Inl (Block_too_big (w32 a))) else check_blocks (mem s) (w32 (brk s - 1)) (w32 (a + sz)))"
    using big_size [OF T B] by (subst check_blocks.simps) (simp add: hdr_macros [OF inv_has_hdr [OF inv B]])
  have "b = a \<or> a + sz \<le> b" if "a \<le> b" "big B b" for b
    using that tiled_apart [OF T B, of b] by (auto simp: big_def le_less split: option.splits)
  moreover have "a \<le> b" if "a + sz \<le> b" for b using that by simp
  ultimately show "(\<forall>b. a \<le> b \<longrightarrow> \<not> big B b) \<longleftrightarrow> \<not> big B a \<and> (\<forall>b. a + sz \<le> b \<longrightarrow> \<not> big B b)" by blast
qed

lemma check_blocks_ok:
  assumes inv: "heap_inv s B (frees B) F" and a: "B a \<noteq> None \<or> a = brk s"
  shows "\<exists>r. check_blocks (mem s) (w32 (brk s - 1)) (w32 a) = Some r \<and>
    (r = Inr () \<longleftrightarrow> (\<forall>b. a \<le> b \<longrightarrow> \<not> big B b)) \<and> (\<forall>e. r = Inl e \<longrightarrow> (\<exists>x. big B x \<and> e = Block_too_big (w32 x)))"
  using a
proof (induction "brk s - a" arbitrary: a rule: less_induct)
  case less
  show ?case
  proof (cases "a = brk s")
    case True
    with check_blocks_end [OF inv] show ?thesis by simp
  next
    case False
    then obtain sz al where B: "B a = Some (sz, al)" using less.prems by auto
    note A = tiledD [OF heap_invD(2) [OF inv] B] and step = check_blocks_step [OF inv B]
    have "brk s - (a + sz) < brk s - a" "B (a + sz) \<noteq> None \<or> a + sz = brk s" using A(3,6,8) by auto
    from less.hyps [OF this] show ?thesis unfolding step by auto
  qed
qed

text \<open>The first two assertions.\<close>

lemma check_heap_end:
  assumes inv: "heap_inv s B (frees B) F"
  shows "heap_end s = mem_heap_hi s" "heap_end s < heap_start s + MAX_HEAP" "heap_end s = w32 (brk s - 1)"
    "heap_start s + 4 * WSIZE = w32 (heap_lo s)"
proof -
  note V = heap_invD(1) [OF inv] and C = brk_cell [OF inv]
  show "heap_end s = mem_heap_hi s" using V by (simp add: vars_ok_def mem_heap_hi_def)
  show he: "heap_end s = w32 (brk s - 1)"
    using V C w32_diff_1 [of "brk s"] by (simp add: vars_ok_def brk_def)
  have "unat (heap_start s + MAX_HEAP) = unat (mem_max_addr s)"
    using V by (auto simp: vars_ok_def memlib_inv_def area_ok_def unat_word_ariths)
  moreover have "brk s \<le> unat (mem_max_addr s)" using V by (simp add: vars_ok_def memlib_inv_def brk_def)
  ultimately show "heap_end s < heap_start s + MAX_HEAP"
    using C by (simp add: he word_less_nat_alt unat_w32)
  show "heap_start s + 4 * WSIZE = w32 (heap_lo s)"
    by (simp add: heap_lo_def WSIZE_def w32_def)
qed

text \<open>The scan of the unused part of the area.\<close>

lemma overwrite_scan_zero: "(\<And>x. bp \<le> x \<Longrightarrow> x < lim \<Longrightarrow> m x = 0) \<Longrightarrow> overwrite_scan m lim bp = Inr ()"
proof (induction m lim bp rule: overwrite_scan.induct)
  case (1 m lim bp)
  show ?case
  proof (cases "bp < lim")
    case True
    have "bp \<le> x" if "bp + 1 \<le> x" for x
      using that unat_of_nat_Suc_less [OF True] by (simp add: word_le_nat_alt)
    with 1 True have "overwrite_scan m lim (bp + 1) = Inr ()" "m bp = 0" by auto
    then show ?thesis by (simp add: overwrite_scan.simps [of m lim bp])
  qed (simp add: overwrite_scan.simps [of m lim bp])
qed

definition clear_above :: "mm_state \<Rightarrow> bool" where
  "clear_above s \<longleftrightarrow> (\<forall>x. brk s \<le> x \<longrightarrow> x < unat (mem_max_addr s) \<longrightarrow> mem_byte s x = 0)"

lemma overwrite_scan_clear:
  assumes inv: "heap_inv s B (frees B) F" and clear: "clear_above s"
  shows "overwrite_scan (mem s) (heap_start s + MAX_HEAP) (heap_end s + 1) = Inr ()"
proof (rule overwrite_scan_zero)
  fix x
  assume x: "heap_end s + 1 \<le> x" "x < heap_start s + MAX_HEAP"
  note V = heap_invD(1) [OF inv]
  have "heap_end s + 1 = mem_brk s" using V by (simp add: vars_ok_def)
  moreover have "unat (heap_start s + MAX_HEAP) = unat (mem_max_addr s)"
    using V by (auto simp: vars_ok_def memlib_inv_def area_ok_def unat_word_ariths)
  ultimately have "brk s \<le> unat x" "unat x < unat (mem_max_addr s)"
    using x by (simp_all add: brk_def word_le_nat_alt word_less_nat_alt)
  then have "mem_byte s (unat x) = 0" using clear by (simp add: clear_above_def)
  then show "mem s x = 0" by (simp add: mem_byte_def)
qed

lemma clear_untouched:
  assumes "clear_above s" "untouched s s'"
  shows "clear_above s'"
  unfolding clear_above_def
proof (intro allI impI)
  fix x
  assume x: "brk s' \<le> x" "x < unat (mem_max_addr s')"
  have "x < 2 ^ 32" using x(2) unat_lt2p_32 [of "mem_max_addr s'"] by linarith
  with untouchedD [OF assms(2)] x(1) have "mem_byte s' x = mem_byte s x" by blast
  also have "\<dots> = 0" using assms(1) x untouched_vars [OF assms(2)] by (simp add: clear_above_def)
  finally show "mem_byte s' x = 0" .
qed

theorem mm_check_sim:
  assumes inv: "heap_inv s B (frees B) F" and clear: "ow \<Longrightarrow> clear_above s"
  shows "\<exists>r. mm_check ow s = Some r \<and> (r = Inr () \<longleftrightarrow> (\<forall>b. \<not> big B b)) \<and>
    (\<forall>e. r = Inl e \<longrightarrow> (\<exists>x. big B x \<and> e \<in> {Listed_too_big (w32 x), Block_too_big (w32 x)}))"
proof -
  note L = lists_okD [OF heap_invD(5) [OF inv]] and E = check_heap_end [OF inv] and T = heap_invD(2) [OF inv]
  have heads: "take FREELIST_COUNT (free_lists s) = map (\<lambda>xs. w32 (hdn xs 0)) F"
    using L(1-3) by (auto simp: FREELIST_COUNT_def intro: nth_equalityI)
  have "dll (view (mem s)) 0 xs 0 \<and> (\<forall>x \<in> set xs. \<exists>sz. B x = Some (sz, False))" if "xs \<in> set F" for xs
  proof -
    from that obtain i where "i < 17" "xs = F ! i" using L(2) by (auto simp: in_set_conv_nth)
    with L(4) [of i] L(6) [of i] show ?thesis by (fastforce simp: frees_Some)
  qed
  then have lists: "check_lists (mem s) (take FREELIST_COUNT (free_lists s)) = first_big B (concat F)"
    unfolding heads by (rule check_lists_ok [OF inv])
  have low: "a \<ge> heap_lo s" if "big B a" for a
    using that tiledD(4) [OF T, of a] by (auto simp: big_def split: option.splits)
  have "B (heap_lo s) \<noteq> None" using T by (simp add: tiled_def)
  then obtain r where r: "check_blocks (mem s) (heap_end s) (heap_start s + 4 * WSIZE) = Some r"
    "r = Inr () \<longleftrightarrow> (\<forall>b. heap_lo s \<le> b \<longrightarrow> \<not> big B b)"
    "\<forall>e. r = Inl e \<longrightarrow> (\<exists>x. big B x \<and> e = Block_too_big (w32 x))"
    using check_blocks_ok [OF inv, of "heap_lo s"] unfolding E(3,4) by blast
  have "ow \<Longrightarrow> overwrite_scan (mem s) (heap_start s + MAX_HEAP) (heap_end s + 1) = Inr ()"
    using overwrite_scan_clear [OF inv] clear by blast
  then have run: "mm_check ow s = (case first_big B (concat F) of
      None \<Rightarrow> None | Some (Inl e) \<Rightarrow> Some (Inl e) | Some (Inr _) \<Rightarrow> Some r)"
    using E(1,2) lists r(1) by (simp add: mm_check_def split: option.split sum.split)
  show ?thesis
  proof (cases "List.find (big B) (concat F)")
    case None
    with run r(2,3) low show ?thesis by (auto simp: first_big_def)
  next
    case (Some x)
    then have "big B x" by (auto simp: find_Some_iff)
    with run Some show ?thesis by (auto simp: first_big_def)
  qed
qed

end
