(* ===== verification/Mm_Debug.thy ===== *)
theory Mm_Debug
  imports Mm_Check Mm_Demo
begin

text \<open>
  The debug build against the default build of src/mm.c, with and without the scan of the
  unused area. A call of the debug build that returns does what the default build does;
  from the state that its \<open>mm_init\<close> leaves on, no assertion fails while the heap stays
  below the checker's limit on the size of a block, and the test program runs through.
\<close>

section \<open>Agreement with the default build\<close>

text \<open>The checks change nothing: a call of the debug build that returns does what the default build does.\<close>

lemma RUN_MM_CHECK_cases:
  assumes "RUN_MM_CHECK ow s = Some z"
  obtains "z = Inr s" | e where "z = Inl e"
proof -
  from assms obtain r :: "check_failure + unit" where "z = (case r of Inl e \<Rightarrow> Inl (Check_failed e) | Inr _ \<Rightarrow> Inr s)"
    unfolding RUN_MM_CHECK_def map_option_eq_Some by blast
  with that show ?thesis by (cases r) auto
qed

lemma mm_malloc_debug_agrees: "mm_malloc_debug ow sz s = Some (Inr r) \<Longrightarrow> mm_malloc sz s = Some r"
  by (auto simp: mm_malloc_debug_def bind_eq_Some_conv split: if_splits elim!: RUN_MM_CHECK_cases)

lemma mm_free_debug_agrees: "mm_free_debug ow p s = Some (Inr s') \<Longrightarrow> mm_free p s = Some s'"
  by (auto simp: mm_free_debug_def bind_eq_Some_conv elim!: RUN_MM_CHECK_cases)

lemma mm_realloc_debug_agrees:
  assumes "mm_realloc_debug ow p sz s = Some (Inr r)"
  shows "mm_realloc p sz s = Some r"
proof -
  from assms obtain x where x: "mm_malloc_debug ow sz s = Some x"
    unfolding mm_realloc_debug_def bind_eq_Some_conv by blast
  with assms obtain newp s1 where 1: "mm_malloc_debug ow sz s = Some (Inr (newp, s1))"
    by (cases x) (auto simp: mm_realloc_debug_def)
  note m = mm_malloc_debug_agrees [OF 1]
  show ?thesis
  proof (cases "newp = NULL")
    case True
    with assms 1 m show ?thesis by (auto simp: mm_realloc_debug_def mm_realloc_def)
  next
    case False
    let ?n = "if sz < GET_THISSIZE (mem s1) p then sz else GET_THISSIZE (mem s1) p"
    let ?s = "s1\<lparr>mem := memcpy (mem s1) newp p ?n\<rparr>"
    from assms 1 False obtain y where y: "mm_free_debug ow p ?s = Some y"
      "(case y of Inl e \<Rightarrow> Some (Inl e) | Inr s \<Rightarrow> map_option (map_sum id (Pair newp)) (RUN_MM_CHECK ow s)) = Some (Inr r)"
      by (auto simp only: mm_realloc_debug_def Let_def bind_eq_Some_conv option.inject sum.case prod.case if_False)
    then obtain s2 where 2: "mm_free_debug ow p ?s = Some (Inr s2)" "r = (newp, s2)"
      by (cases y) (auto elim!: RUN_MM_CHECK_cases)
    then show ?thesis using mm_free_debug_agrees [OF 2(1)] m False by (simp add: mm_realloc_def Let_def)
  qed
qed

section \<open>The invariant of the debug build\<close>

text \<open>The invariant of the heap, and an unused area that is still zero where it is checked.\<close>

definition checkable :: "bool \<Rightarrow> mm_state \<Rightarrow> blocks \<Rightarrow> nat list list \<Rightarrow> bool" where
  "checkable ow s B F \<longleftrightarrow> heap_inv s B (frees B) F \<and> (ow \<longrightarrow> clear_above s)"

lemma checkableD:
  assumes "checkable ow s B F"
  shows "heap_inv s B (frees B) F" "ow \<Longrightarrow> clear_above s"
  using assms by (simp_all add: checkable_def)

lemma checkable_untouched:
  assumes "checkable ow s B F" "untouched s s'" "heap_inv s' B' (frees B') F'"
  shows "checkable ow s' B' F'"
  using assms by (auto simp: checkable_def intro: clear_untouched)

lemma heapsize_brk: "vars_ok s \<Longrightarrow> unat (mem_heapsize s) + 16 + unat (heap_start s) = brk s + 16"
  by (auto simp: mem_heapsize_def vars_ok_def memlib_inv_def brk_def unat_sub_if')

lemma heapsize_grows:
  assumes "grows c s s'" "vars_ok s" "vars_ok s'"
  shows "unat (mem_heapsize s') \<le> unat (mem_heapsize s) + c"
  using assms heapsize_brk [of s] heapsize_brk [of s'] by (simp add: grows_def)

lemma RUN_MM_CHECK_small:
  assumes c: "checkable ow s B F" and small: "unat (mem_heapsize s) < 1000000"
  shows "RUN_MM_CHECK ow s = Some (Inr s)"
proof -
  note inv = checkableD(1) [OF c]
  have "brk s < heap_lo s + 1000000"
    using heapsize_brk [OF heap_invD(1) [OF inv]] small by (simp add: heap_lo_def)
  then have "\<not> big B b" for b
    using tiledD(4,6) [OF heap_invD(2) [OF inv], of b] by (fastforce simp: big_def split: option.splits)
  with mm_check_sim [OF inv checkableD(2) [OF c]] have "mm_check ow s = Some (Inr ())" by auto
  then show ?thesis by (simp add: RUN_MM_CHECK_def)
qed

text \<open>While the heap stays small, the debug build does exactly what the default build does.\<close>

lemma mm_malloc_debug_eq:
  assumes c: "checkable ow s B F" and n: "0 < n" "fits_word s n"
    and small: "unat (mem_heapsize s) + demand s n < 1000000"
  shows "mm_malloc_debug ow (w32 n) s = map_option Inr (mm_malloc (w32 n) s)"
  using mm_malloc_sim [OF checkableD(1) [OF c] n]
proof
  assume "mm_malloc (w32 n) s = Some (NULL, s) \<and> unat (mem_max_addr s) < brk s + demand s n"
  then show ?thesis by (simp add: mm_malloc_debug_def)
next
  note inv = checkableD(1) [OF c]
  assume "\<exists>p s' B' F'. mm_malloc (w32 n) s = Some (w32 p, s') \<and> heap_inv s' B' (frees B') F' \<and>
    allocated n s B p s' B' \<and> grows (demand s n) s s'"
  then obtain p s' B' F' where run: "mm_malloc (w32 n) s = Some (w32 p, s')" "heap_inv s' B' (frees B') F'"
    "grows (demand s n) s s'" by blast
  have "unat (mem_heapsize s') < 1000000"
    using heapsize_grows [OF run(3) heap_invD(1) [OF inv] heap_invD(1) [OF run(2)]] small by linarith
  with RUN_MM_CHECK_small [OF checkable_untouched [OF c mm_malloc_untouched [OF inv n(2) run(1)] run(2)]] run(1)
  show ?thesis by (simp add: mm_malloc_debug_def)
qed

lemma mm_free_checkable:
  assumes c: "checkable ow s B F" and a: "allocs B a = Some k" and small: "unat (mem_heapsize s) < 1000000"
  obtains s' B' F' where "mm_free (w32 a) s = Some s'" "checkable ow s' B' F'" "unat (mem_heapsize s') < 1000000"
proof -
  note inv = checkableD(1) [OF c]
  obtain s' B' F' where run: "mm_free (w32 a) s = Some s'" "heap_inv s' B' (frees B') F'" "grows 0 s s'"
    using mm_free_allocs [OF inv a] by blast
  have "unat (mem_heapsize s') < 1000000"
    using heapsize_grows [OF run(3) heap_invD(1) [OF inv] heap_invD(1) [OF run(2)]] small by linarith
  with that run checkable_untouched [OF c mm_free_untouched [OF inv a run(1)] run(2)] show ?thesis by blast
qed

lemma mm_free_debug_eq:
  assumes "checkable ow s B F" "allocs B a = Some k" "unat (mem_heapsize s) < 1000000"
  shows "mm_free_debug ow (w32 a) s = map_option Inr (mm_free (w32 a) s)"
proof -
  obtain s' B' F' where "mm_free (w32 a) s = Some s'" "checkable ow s' B' F'" "unat (mem_heapsize s') < 1000000"
    by (rule mm_free_checkable [OF assms])
  then show ?thesis by (simp add: mm_free_debug_def RUN_MM_CHECK_small)
qed

text \<open>
  \<open>mm_realloc\<close> checks up to three times: after an extension of the heap, in \<open>mm_free\<close>, and
  at its end.
\<close>

lemma mm_realloc_debug_eq:
  assumes c: "checkable ow s B F" and a: "allocs B a = Some sz" and n: "0 < n" "fits_word s n"
    and small: "unat (mem_heapsize s) + demand s n < 1000000"
  shows "mm_realloc_debug ow (w32 a) (w32 n) s = map_option Inr (mm_realloc (w32 a) (w32 n) s)"
  using mm_malloc_sim [OF checkableD(1) [OF c] n]
proof
  assume "mm_malloc (w32 n) s = Some (NULL, s) \<and> unat (mem_max_addr s) < brk s + demand s n"
  with mm_malloc_debug_eq [OF c n small] show ?thesis by (simp add: mm_realloc_debug_def mm_realloc_def)
next
  note inv = checkableD(1) [OF c]
  assume "\<exists>p s' B' F'. mm_malloc (w32 n) s = Some (w32 p, s') \<and> heap_inv s' B' (frees B') F' \<and>
    allocated n s B p s' B' \<and> grows (demand s n) s s'"
  then obtain p s1 B1 F1 k where run: "mm_malloc (w32 n) s = Some (w32 p, s1)" and inv1: "heap_inv s1 B1 (frees B1) F1"
    and g: "grows (demand s n) s s1" and k: "allocs B1 = (allocs B)(p \<mapsto> k)" "n + 4 \<le> k" "allocs B p = None"
    unfolding allocated_def by blast
  have pa: "p \<noteq> a" using k(3) a by auto
  have a1: "allocs B1 a = Some sz" and p1: "allocs B1 p = Some k" using k(1) a pa by simp_all
  have B1: "B1 p = Some (k, True)" "B1 a = Some (sz, True)" using p1 a1 by (simp_all add: allocs_Some)
  note T1 = heap_invD(2) [OF inv1]
  let ?s2 = "s1\<lparr>mem := memcpy (mem s1) (w32 p) (w32 a) (w32 (min n sz))\<rparr>"
  have cp: "heap_inv ?s2 B1 (frees B1) F1"
    "quiet (heap_lo s1) (brk ?s2) (B1(p := None)) (view (mem s1)) (view (mem ?s2))"
    using realloc_copy [OF inv1 a1 p1 pa, of "min n sz"] k(2) by (simp_all add: brk_def)
  have c1: "checkable ow s1 B1 F1"
    by (rule checkable_untouched [OF c mm_malloc_untouched [OF inv n(2) run] inv1])
  have c2: "checkable ow ?s2 B1 F1"
    by (rule checkable_untouched [OF c1 quiet_untouched [OF cp(2) grows_upd(1) cp(1)] cp(1)])
  have small2: "unat (mem_heapsize ?s2) < 1000000"
    using heapsize_grows [OF g heap_invD(1) [OF inv] heap_invD(1) [OF inv1]] small by (simp add: mem_heapsize_def)
  obtain s3 B3 F3 where fr: "mm_free (w32 a) ?s2 = Some s3" and c3: "checkable ow s3 B3 F3"
    and small3: "unat (mem_heapsize s3) < 1000000"
    by (rule mm_free_checkable [OF c2 a1 small2])
  have "sz < 2 ^ 32" "n < 2 ^ 32" using tiledD(7) [OF T1 B1(2)] n(2) by (simp_all add: fits_word_def)
  then have "(if w32 n < w32 sz then w32 n else w32 sz) = w32 (min n sz)" by (simp add: w32_less_iff)
  moreover have "w32 p \<noteq> NULL" by (rule node_NULL [OF tiled_node [OF T1 B1(1)]])
  ultimately show ?thesis
    using mm_malloc_debug_eq [OF c n small] mm_free_debug_eq [OF c2 a1 small2] run fr RUN_MM_CHECK_small [OF c3 small3]
    by (simp add: mm_realloc_debug_def mm_realloc_def Let_def THISSIZE_w32 [OF inv_has_hdr [OF inv1 B1(2)]]
        split: if_splits)
qed

section \<open>Initialisation\<close>

lemma mm_init_debug_run:
  assumes ok: "init_ok libc_malloc pg"
  defines "base \<equiv> unat (libc_malloc MAX_HEAP)" and "n \<equiv> adjusted (2 * unat pg)"
  shows "\<exists>s' F. mm_init_debug ow libc_malloc pg s = map_option (map_sum id (Pair 0)) (RUN_MM_CHECK ow s') \<and>
    checkable True s' (init_blocks base n) F \<and> unat (ADJUSTED_PAGESIZE s') = n \<and> unat (mem_heapsize s') = n + 16 \<and>
    mem_start_brk s' = libc_malloc MAX_HEAP \<and> brk s' = base + 16 + n \<and> unat (mem_max_addr s') = base + unat MAX_HEAP"
proof -
  obtain s1 where s1: "mem_init libc_malloc s = Inr s1" "mem_start_brk s1 = libc_malloc MAX_HEAP"
    using ok by (auto simp: init_ok_def area_ok_def mem_init_def Let_def)
  let ?m = "memset (mem s1) (mem_heap_lo s1) 0 MAX_HEAP"
  have "mem_init libc_malloc (s\<lparr>mem := ?m\<rparr>) = Inr (s1\<lparr>mem := ?m\<rparr>)"
    using s1(1) by (auto simp: mem_init_def Let_def split: if_splits)
  with mm_init_run [OF ok, of "s\<lparr>mem := ?m\<rparr>"] obtain s' F where
    *: "mm_setup pg (s1\<lparr>mem := ?m\<rparr>) = Some (0, s')" and inv: "heap_inv s' (init_blocks base n) (frees (init_blocks base n)) F"
    and v: "mem_start_brk s' = libc_malloc MAX_HEAP" "unat (ADJUSTED_PAGESIZE s') = n"
      "unat (mem_max_addr s') = base + unat MAX_HEAP" "brk s' = base + 16 + n"
    and out: "\<forall>c. c < base \<or> brk s' \<le> c \<longrightarrow> view (mem s') c = view ?m c"
    unfolding base_def n_def by (auto simp: mm_init_def)
  note V = heap_invD(1) [OF inv]
  have "clear_above s'"
    unfolding clear_above_def
  proof (intro allI impI)
    fix x
    assume x: "brk s' \<le> x" "x < unat (mem_max_addr s')"
    have x32: "x < 2 ^ 32" using x(2) unat_lt2p_32 [of "mem_max_addr s'"] by linarith
    have "4 dvd brk s'" using V by (auto simp: vars_ok_def intro: dvd_trans [of 4 8])
    with view_outside_byte [of 0 "brk s'" "mem s'" ?m x] out x32 x(1) have "mem s' (w32 x) = ?m (w32 x)" by simp
    also have "\<dots> = 0"
    proof -
      have "base \<le> x" "x < base + 20971520" "base + 20971520 < 2 ^ 32"
        using x v(3,4) unat_lt2p_32 [of "mem_max_addr s'"] by simp_all
      moreover have "MAX_HEAP = w32 20971520" by (simp add: MAX_HEAP_def push_bit_eq_mult)
      ultimately show ?thesis
        using memset_at [of base 20971520 x "mem s1" 0] x32 by (simp only: mem_heap_lo_def s1(2) base_def) simp
    qed
    finally show "mem_byte s' x = 0" by (simp add: mem_byte_def)
  qed
  moreover have "unat (mem_heapsize s') = n + 16"
    using heapsize_brk [OF V] V v(1,4) by (simp add: vars_ok_def base_def)
  moreover have "mm_init_debug ow libc_malloc pg s = map_option (map_sum id (Pair 0)) (RUN_MM_CHECK ow s')"
    by (simp add: mm_init_debug_def s1 Let_def *)
  ultimately show ?thesis using inv v by (auto simp: checkable_def)
qed

lemma checkable_mono: "checkable True s B F \<Longrightarrow> checkable ow s B F"
  by (simp add: checkable_def)

text \<open>A state after any number of calls and stores that follow the initialisation of the debug build.\<close>

definition debug_reachable :: "bool \<Rightarrow> config \<Rightarrow> bool" where
  "debug_reachable ow c \<longleftrightarrow> (\<exists>libc_malloc pg s0 s. init_ok libc_malloc pg \<and>
     mm_init_debug ow libc_malloc pg s0 = Some (Inr (0, s)) \<and> mm_step\<^sup>*\<^sup>* (s, Map.empty) c)"

lemma debug_reachable_checkable:
  assumes "debug_reachable ow (s, L)"
  obtains B F where "checkable ow s B F" "dom L = dom (allocs B)"
proof -
  from assms obtain libc_malloc pg s0 s1 where ok: "init_ok libc_malloc pg"
    and init: "mm_init_debug ow libc_malloc pg s0 = Some (Inr (0, s1))" and st: "mm_step\<^sup>*\<^sup>* (s1, Map.empty) (s, L)"
    unfolding debug_reachable_def by blast
  from mm_init_debug_run [OF ok, of ow s0] init obtain s2 F base n where
    run: "map_option (map_sum id (Pair 0)) (RUN_MM_CHECK ow s2) = Some (Inr (0 :: int, s1))"
    and c2: "checkable True s2 (init_blocks base n) F"
    by metis
  from run have "s2 = s1" by (auto simp: map_option_eq_Some elim!: RUN_MM_CHECK_cases)
  with c2 have c: "checkable True s1 (init_blocks base n) F" by simp
  have e: "covers s1 Map.empty" by (rule covers_empty [OF checkableD(1) [OF c]])
  from mm_steps_untouched [OF st] e have u: "untouched s1 s" "covers s L" by auto
  obtain B' F' where "heap_inv s B' (frees B') F'" "dom L = dom (allocs B')" by (rule covers_inv [OF u(2)])
  with that checkable_untouched [OF checkable_mono [OF c] u(1)] show ?thesis by blast
qed

section \<open>The test program\<close>

text \<open>A request that fits, in a heap that stays below the checker's limit.\<close>

lemma test_main_ok:
  assumes ok: "init_ok libc_malloc pg" and small: "adjusted (2 * unat pg) < 400000"
    and fits: "unat (libc_malloc MAX_HEAP) + unat MAX_HEAP + 115 < 2 ^ 32"
  shows "\<exists>s'. test_main ow libc_malloc pg s = Some (Inr (0, s'))"
proof -
  let ?base = "unat (libc_malloc MAX_HEAP)" and ?n = "adjusted (2 * unat pg)"
  obtain s1 F B where 1: "mm_init_debug ow libc_malloc pg s = map_option (map_sum id (Pair 0)) (RUN_MM_CHECK ow s1)"
    "checkable True s1 B F" and v: "unat (ADJUSTED_PAGESIZE s1) = ?n" "unat (mem_heapsize s1) = ?n + 16"
      "brk s1 = ?base + 16 + ?n"
    and max: "unat (mem_max_addr s1) = ?base + unat MAX_HEAP"
    using mm_init_debug_run [OF ok, of ow s] by blast
  note c1 = checkable_mono [OF 1(2), of ow]
  have init: "mm_init_debug ow libc_malloc pg s = Some (Inr (0, s1))"
    using 1(1) RUN_MM_CHECK_small [OF c1] v(2) small by simp
  have d: "demand s1 100 \<le> 400000" using v(1) small by (simp add: demand_def adjusted_def Let_def)
  have fits1: "fits_word s1 100" using fits max by (simp add: fits_word_def)
  with mm_malloc_sim [OF checkableD(1) [OF c1], of 100] obtain p s2 B2 F2 where
    2: "mm_malloc (w32 100) s1 = Some (w32 p, s2)" "heap_inv s2 B2 (frees B2) F2" "allocated 100 s1 B p s2 B2"
      "grows (demand s1 100) s1 s2"
    using v d max small by auto
  have c2: "checkable ow s2 B2 F2"
    by (rule checkable_untouched [OF c1 mm_malloc_untouched [OF checkableD(1) [OF c1] fits1 2(1)] 2(2)])
  have small2: "unat (mem_heapsize s2) < 1000000"
    using heapsize_grows [OF 2(4) heap_invD(1) [OF checkableD(1) [OF c1]] heap_invD(1) [OF 2(2)]] v(2) d small by linarith
  have m: "mm_malloc_debug ow 100 s1 = Some (Inr (w32 p, s2))"
    using mm_malloc_debug_eq [OF c1 _ fits1] v(2) d small 2(1) by simp
  obtain k where a: "allocs B2 p = Some k" using 2(3) by (auto simp: allocated_def)
  obtain s3 where "mm_free (w32 p) s2 = Some s3" using mm_free_checkable [OF c2 a small2] by blast
  with mm_free_debug_eq [OF c2 a small2] init m show ?thesis by (simp add: test_main_def)
qed

section \<open>A run of the debug build\<close>

text \<open>The debug build initialised as in \<open>Mm_Demo\<close>, then one request for 100 bytes.\<close>

lemma debug_demo:
  obtains s where "debug_reachable ow (s, Map.empty)" "mm_init_debug ow demo_libc 4096 blank = Some (Inr (0, s))"
    "unat (mem_heapsize s) = 8216" "unat (ADJUSTED_PAGESIZE s) = 8200" "spare s = 20963304" "fits_word s 100"
proof -
  obtain s F B where run: "mm_init_debug ow demo_libc 4096 blank = map_option (map_sum id (Pair 0)) (RUN_MM_CHECK ow s)"
    and c: "checkable True s B F" and v: "unat (ADJUSTED_PAGESIZE s) = 8200" "unat (mem_heapsize s) = 8216"
      "brk s = 0x10000000 + 8216" "unat (mem_max_addr s) = 0x10000000 + 20971520"
    using mm_init_debug_run [OF demo_init_ok, of ow blank, unfolded demo_pages] by (auto simp: demo_libc_def)
  have "RUN_MM_CHECK ow s = Some (Inr s)"
    using RUN_MM_CHECK_small [OF checkable_mono [OF c]] v(2) by simp
  with run have init: "mm_init_debug ow demo_libc 4096 blank = Some (Inr (0, s))" by simp
  then have "debug_reachable ow (s, Map.empty)"
    unfolding debug_reachable_def using demo_init_ok by blast
  with that init v show ?thesis by (simp add: spare_def fits_word_def)
qed

lemma debug_demo_100:
  obtains s p where "debug_reachable ow (s, [p \<mapsto> 100])" "fits_word s 100"
    "unat (mem_heapsize s) + demand s 100 < 1000000"
proof -
  obtain s where r: "debug_reachable ow (s, Map.empty)" and v: "unat (mem_heapsize s) = 8216"
    "unat (ADJUSTED_PAGESIZE s) = 8200" "spare s = 20963304" "fits_word s 100"
    by (rule debug_demo)
  obtain B F where c: "checkable ow s B F" by (rule debug_reachable_checkable [OF r])
  note V = heap_invD(1) [OF checkableD(1) [OF c]]
  have d: "demand s 100 = 8200" using v(2) by (simp add: demand_def adjusted_def Let_def)
  then have "\<not> unat (mem_max_addr s) < brk s + demand s 100" unfolding spare_less [OF V, symmetric] v(3) by simp
  with mm_malloc_sim [OF checkableD(1) [OF c], of 100] v(4) obtain p s' B' F' where
    run: "mm_malloc (w32 100) s = Some (w32 p, s')" and inv': "heap_inv s' B' (frees B') F'"
    and al: "allocated 100 s B p s' B'" and g: "grows (demand s 100) s s'"
    by auto
  obtain k where "B' p = Some (k, True)" using al by (auto simp: allocated_def simp flip: allocs_Some)
  note N = tiled_node [OF heap_invD(2) [OF inv'] this] and T = tiledD(7) [OF heap_invD(2) [OF inv'] this]
  have "unat (w32 p) = p" using T by (simp add: unat_w32)
  then have "mm_step (s, Map.empty) (s', [p \<mapsto> 100])"
    using mm_step.malloc [OF run _ v(4) node_NULL [OF N], of Map.empty] by simp
  with r have "debug_reachable ow (s', [p \<mapsto> 100])"
    unfolding debug_reachable_def by (meson rtranclp.rtrancl_into_rtrancl)
  moreover have "unat (mem_heapsize s') + demand s' 100 < 1000000" "fits_word s' 100"
    using heapsize_grows [OF g V heap_invD(1) [OF inv']] v g d by (auto simp: demand_def grows_def fits_word_def)
  ultimately show ?thesis using that by blast
qed

end
