(* ===== verification/Mm_Quirks.thy ===== *)
theory Mm_Quirks
  imports Mm_Demo
begin

text \<open>
  Facts about src/mm.c and src/memlib.c at the edges of their contract: where the search
  for a block succeeds and where it gives up, what the helper \<open>get_node_listindex\<close> returns,
  what \<open>mm_init\<close> does when the area is too small, which neighbours a freed block is merged
  with, and what happens to requests and increments that the 32-bit arithmetic cannot
  represent.
\<close>

section \<open>The search\<close>

text \<open>A free block of a larger size class is always found.\<close>

lemma class_mono:
  assumes "lidx n < lidx sz" "n < 2 ^ 32" "sz < 2 ^ 32"
  shows "n < sz"
proof -
  have "lidx n + 1 < FREELIST_COUNT" using assms(1) calc_list_index_bounds(1) [of "w32 sz"] by simp
  from calc_list_index_bounds(3) [OF this] have "n < 2 ^ (lidx n + 1)" using assms(2) by (simp add: unat_w32)
  also have "\<dots> \<le> 2 ^ lidx sz" using assms(1) by (intro power_increasing) simp_all
  also have "\<dots> \<le> sz" using calc_list_index_bounds(2) [of "w32 sz"] assms(1,3) by (simp add: unat_w32)
  finally show ?thesis .
qed

lemma find_fit_larger_class:
  assumes inv: "heap_inv s B (frees B) F" and n: "n < 2 ^ 32"
    and a: "B a = Some (sz, False)" "lidx n < lidx sz"
  shows "\<exists>b i. find_fit (w32 n) s = Some (w32 b, i) \<and> (\<exists>k. B b = Some (k, False) \<and> n \<le> k)"
proof -
  note L = lists_okD [OF heap_invD(5) [OF inv]]
  have "frees B a = Some sz" using a(1) by (simp add: frees_Some)
  from L(8) [OF this] obtain b ys where F: "F ! lidx sz = b # ys" by (cases "F ! lidx sz") auto
  then obtain k where k: "B b = Some (k, False)" "lidx k = lidx sz"
    using L(6) [of "lidx sz" b] by (auto simp: frees_Some)
  have "k < 2 ^ 32" using tiledD(7) [OF heap_invD(2) [OF inv] k(1)] by simp
  then have "n \<le> k" using class_mono [of n k] n a(2) k(2) by simp
  then have "spec_fits n (B, F) (lidx sz)" by (simp add: spec_fits_def F k(1))
  then have "List.find (spec_fits n (B, F)) [lidx n..<FREELIST_COUNT] \<noteq> None"
    using a(2) calc_list_index_bounds(1) [of "w32 sz"] by (auto simp: find_None_iff)
  then obtain b i where f: "spec_find_fit n (B, F) = Some (b, i)" by (auto simp: spec_find_fit_def)
  from spec_find_fit_Some [OF inv f] obtain k where "B b = Some (k, False)" "n \<le> k" by blast
  with find_fit_sim [OF inv n] f show ?thesis by auto
qed

text \<open>
  A failed search: no head of a list of the right classes is large enough. Blocks behind the
  heads were not looked at.
\<close>

lemma find_fit_None:
  assumes inv: "heap_inv s B (frees B) F" and n: "n < 2 ^ 32" and f: "find_fit (w32 n) s = None"
    and a: "B a = Some (sz, False)" "n \<le> sz" "F ! lidx sz = xs @ a # ys"
  shows "lidx sz \<le> lidx n" "xs \<noteq> [] \<or> lidx sz < lidx n"
proof -
  have "spec_find_fit n (B, F) = None" using find_fit_sim [OF inv n] f by simp
  then have none: "\<not> spec_fits n (B, F) i" if "lidx n \<le> i" "i < 17" for i
    using that by (auto simp: spec_find_fit_def find_None_iff FREELIST_COUNT_def)
  show "lidx sz \<le> lidx n" using find_fit_larger_class [OF inv n a(1)] f by (force simp: not_le)
  show "xs \<noteq> [] \<or> lidx sz < lidx n"
    using none [of "lidx sz"] a by (cases "lidx n \<le> lidx sz"; cases "xs = []") (auto simp: spec_fits_def)
qed

section \<open>get_node_listindex\<close>

lemma list_front_dll:
  assumes "dll (view m) 0 (xs @ a # ys) n" "\<And>x. x \<in> set (xs @ [a]) \<Longrightarrow> node x"
  shows "list_front_loop m (MEMHEADER_FROM_PAYLOAD (w32 a)) = Some (MEMHEADER_FROM_PAYLOAD (w32 (hdn (xs @ [a]) 0)))"
  using assms
proof (induction xs arbitrary: a ys rule: rev_induct)
  case Nil
  have "prev_free m (MEMHEADER_FROM_PAYLOAD (w32 a)) = NULL"
    using Nil node_cells [of a] by (simp add: node_rewrites NULL_def node_def)
  then show ?case by (subst list_front_loop.simps) simp
next
  case (snoc x xs)
  have x: "node x" and a: "node a" using snoc.prems(2) by auto
  have "dll (view m) 0 (xs @ x # (a # ys)) n" using snoc.prems(1) by simp
  from snoc.IH [OF this] snoc.prems(2) have IH: "list_front_loop m (MEMHEADER_FROM_PAYLOAD (w32 x)) =
      Some (MEMHEADER_FROM_PAYLOAD (w32 (hdn (xs @ [x]) 0)))"
    by auto
  have "prev_free m (MEMHEADER_FROM_PAYLOAD (w32 a)) = w32 x"
    using snoc.prems(1) a node_cells [of a] by (simp add: dll_append node_rewrites node_def)
  with IH node_NULL [OF x] show ?case
    by (subst list_front_loop.simps) (cases xs; simp)
qed

text \<open>
  The payload pointer that the helper computes lies 44 bytes behind the block, so it never
  finds the list of a block.
\<close>

lemma head_index_loop_none: "p \<notin> set hs \<Longrightarrow> head_index_loop hs p i = - 1"
  by (induction hs arbitrary: i) auto

lemma get_node_listindex_lost:
  assumes inv: "heap_inv s B (frees B) F" and a: "B a = Some (sz, False)"
  shows "get_node_listindex (w32 a) s = Some (- 1)"
proof -
  note O = heap_invD(5) [OF inv] and L = lists_okD [OF heap_invD(5) [OF inv]]
  have "frees B a = Some sz" using a by (simp add: frees_Some)
  then obtain xs ys where F: "F ! lidx sz = xs @ a # ys" using L(8) split_list by metis
  have nodes: "node x" if "x \<in> set (xs @ [a])" for x
    using lists_ok_node [OF O calc_list_index_less_17, of x "w32 sz"] that F by auto
  obtain h where h_def: "hdn (xs @ [a]) 0 = h" by blast
  then have "h \<in> set (xs @ [a])" by (cases xs) auto
  then have h: "8 dvd h" "8 \<le> h" "h + 8 < 2 ^ 32" using nodes by (auto simp: node_def)
  have front: "list_front_loop (mem s) (MEMHEADER_FROM_PAYLOAD (w32 a)) = Some (w32 (h - 4))"
    using list_front_dll [of "mem s" xs a ys 0, unfolded h_def] L(4) [OF calc_list_index_less_17, of "w32 sz"] F nodes h(2)
    by (simp add: MEMHEADER_FROM_PAYLOAD_def BLOCKHDR_w32)
  have "PAYLOAD_FROM_MEMHEADER (w32 (h - 4)) = w32 (h + 44)"
    using h(2) by (simp add: PAYLOAD_FROM_MEMHEADER_def WSIZE_def sizeof_mem_header_def w32_add_numeral add.commute)
  moreover have "w32 (h + 44) \<notin> set (free_lists s)"
  proof
    assume "w32 (h + 44) \<in> set (free_lists s)"
    then obtain i where i: "i < 17" "w32 (h + 44) = w32 (hdn (F ! i) 0)"
      using L(1,3) by (auto simp: in_set_conv_nth)
    have "8 dvd hdn (F ! i) 0"
      using lists_ok_node [OF O i(1)] by (cases "F ! i") (auto simp: node_def)
    then have "\<not> bit (w32 (hdn (F ! i) 0)) 2" using bit_of_dvd8 [of "hdn (F ! i) 0" 2] by (auto simp: bit_w32)
    moreover from h(1) obtain k where "h = 8 * k" by blast
    then have "bit (h + 44) 2" by (simp add: bit_iff_odd)
    then have "bit (w32 (h + 44)) 2" by (simp add: bit_w32)
    ultimately show False using i(2) by simp
  qed
  then have "w32 (h + 44) \<notin> set (take FREELIST_COUNT (free_lists s))" by (auto dest: in_set_takeD)
  ultimately show ?thesis by (simp add: get_node_listindex_def front head_index_loop_none)
qed

section \<open>Results that the callers cannot get\<close>

text \<open>
  \<open>mm_init\<close> compares the result of \<open>mem_sbrk\<close> with the null pointer, which \<open>mem_sbrk\<close> never
  returns: a refusal is \<open>-1\<close>. So \<open>mm_init\<close> reports success even then.
\<close>

lemma mem_sbrk_not_NULL: "mem_brk s \<noteq> NULL \<Longrightarrow> fst (mem_sbrk n s) \<noteq> NULL"
  by (simp add: mem_sbrk_def Let_def NULL_def)

lemma putw_vars [simp]: "heap_start (putw p v s) = heap_start s"
  by (simp add: putw_def)

lemma add_to_list_vars: "add_to_list p i s = Some s' \<Longrightarrow> heap_start s' = heap_start s"
  by (auto simp: add_to_list_def Let_def bind_eq_Some_conv split: if_splits)

lemma mm_setup_result:
  assumes "mm_setup pg s = Some (v, s')" "mem_brk s \<noteq> NULL"
  shows "v = 0 \<and> heap_start s' = fst (mem_sbrk (ADJUST_BYTESIZE (mem_pagesize pg * 2) + 4 * WSIZE) s)"
proof -
  let ?s = "s\<lparr>free_lists := replicate FREELIST_COUNT NULL, PAGE_SIZE := mem_pagesize pg,
    ADJUSTED_PAGESIZE := ADJUST_BYTESIZE (mem_pagesize pg * 2)\<rparr>"
  have "fst (mem_sbrk n ?s) \<noteq> NULL" for n using mem_sbrk_not_NULL [of ?s] assms(2) by simp
  moreover have "fst (mem_sbrk n ?s) = fst (mem_sbrk n s)" for n by (simp add: mem_sbrk_def Let_def)
  ultimately show ?thesis
    using assms(1) by (auto simp: mm_setup_def Let_def case_prod_beta bind_eq_Some_conv dest: add_to_list_vars)
qed

lemma mm_init_result:
  assumes "mm_init libc_malloc pg s = Some (Inr (v, s'))"
  obtains s1 where "mem_init libc_malloc s = Inr s1" "v = 0"
    "heap_start s' = fst (mem_sbrk (ADJUST_BYTESIZE (mem_pagesize pg * 2) + 4 * WSIZE) s1)"
proof -
  from assms obtain s1 where s1: "mem_init libc_malloc s = Inr s1" "mm_setup pg s1 = Some (v, s')"
    by (auto simp: mm_init_def split: sum.splits)
  then have "mem_brk s1 \<noteq> NULL" by (auto simp: mem_init_def Let_def split: if_splits)
  from mm_setup_result [OF s1(2) this] s1(1) that show ?thesis by blast
qed

text \<open>When two pages exceed the area, the heap starts at address \<open>-1\<close>.\<close>

lemma add_to_list_empty:
  assumes "free_lists s ! i = NULL"
  shows "\<exists>s'. add_to_list p i s = Some s'"
  using assms by (simp add: add_to_list_def find_end_of_list_def find_end_loop.simps [of _ NULL] Let_def)

lemma keeps_lists [simp]:
  "free_lists (putw p v s) = free_lists s" "free_lists (snd (mem_sbrk n s)) = free_lists s"
  by (simp_all add: putw_def mem_sbrk_def Let_def)

lemma returns_intros:
  "(\<And>x. free_lists x = free_lists t \<Longrightarrow> \<exists>r. f x = Some r) \<Longrightarrow> \<exists>r. Let t f = Some r"
  "(\<And>a x. free_lists x = free_lists (snd u) \<Longrightarrow> \<exists>r. g a x = Some r) \<Longrightarrow> \<exists>r. (let (a, x) = u in g a x) = Some r"
  "(\<exists>r. p = Some r) \<Longrightarrow> (\<exists>r. q = Some r) \<Longrightarrow> \<exists>r. (if c then p else q) = Some r"
  for t :: mm_state and u :: "'a \<times> mm_state"
  by (auto simp: Let_def case_prod_beta)

lemma mm_init_returns:
  assumes "libc_malloc MAX_HEAP \<noteq> NULL"
  shows "\<exists>r. mm_init libc_malloc pg s = Some (Inr r)"
proof -
  have add: "\<exists>x. Option.bind (add_to_list p (calc_list_index sz) t) (\<lambda>s. Some (0, s)) = Some x"
    if "free_lists t = replicate FREELIST_COUNT NULL" for p sz t
    using that add_to_list_empty [of t "calc_list_index sz" p] by (auto simp: FREELIST_COUNT_def)
  obtain s1 where "mem_init libc_malloc s = Inr s1" using assms by (simp add: mem_init_def Let_def)
  moreover have "\<exists>r. mm_setup pg s1 = Some r"
    unfolding mm_setup_def by (intro returns_intros add) simp_all
  ultimately show ?thesis by (auto simp: mm_init_def)
qed

lemma mm_init_refused:
  assumes "area_ok (libc_malloc MAX_HEAP)" "unat MAX_HEAP < adjusted (2 * unat pg) + 16"
    "unat (libc_malloc MAX_HEAP) + adjusted (2 * unat pg) + 16 < 2 ^ 32"
  shows "\<exists>s'. mm_init libc_malloc pg s = Some (Inr (0, s')) \<and> heap_start s' = - 1"
proof -
  from assms(1) obtain v s' where run: "mm_init libc_malloc pg s = Some (Inr (v, s'))"
    using mm_init_returns [of libc_malloc pg s] by (force simp: area_ok_def)
  obtain s1 where 1: "mem_init libc_malloc s = Inr s1" "v = 0"
    "heap_start s' = fst (mem_sbrk (ADJUST_BYTESIZE (mem_pagesize pg * 2) + 4 * WSIZE) s1)"
    by (rule mm_init_result [OF run])
  let ?n = "adjusted (2 * unat pg)"
  have "2 * unat pg + 15 < 2 ^ 32" using assms(2,3) adjusted_bounds(3) [of "2 * unat pg"] by simp
  then have "ADJUST_BYTESIZE (mem_pagesize pg * 2) = w32 ?n"
    using ADJUST_BYTESIZE_w32 [of "2 * unat pg"] by (simp add: mem_pagesize_def w32_def mult.commute)
  then have n: "ADJUST_BYTESIZE (mem_pagesize pg * 2) + 4 * WSIZE = w32 (?n + 16)"
    by (simp add: WSIZE_def w32_add_numeral)
  have un: "unat (w32 (?n + 16)) = ?n + 16" using assms(3) by (simp add: unat_w32)
  have inv: "memlib_inv s1" "mem_brk s1 = libc_malloc MAX_HEAP" "mem_start_brk s1 = libc_malloc MAX_HEAP"
    using mem_init_ok [of libc_malloc s, OF assms(1)] 1(1) by auto
  then have "heap_start s' = - 1"
    using mem_sbrk_ok [OF inv(1), of "w32 (?n + 16)"] assms(2,3) un 1(3)
    by (simp add: n memlib_inv_def)
  with run 1(2) show ?thesis by blast
qed

section \<open>Merging\<close>

text \<open>
  A freed block is merged with the free block behind it, never with the one before it: the
  header of an allocated block keeps its \<open>PREVALLOC\<close> bit when its predecessor is freed.
\<close>

lemma spec_coalesce_before:
  assumes "spec_coalesce a (B, F) = (B', F')" "B a = Some (sz, False)" "0 < sz" "p < a"
  shows "B' p = B p" "\<exists>j. B' a = Some (j, False)"
  using assms by (auto simp: spec_coalesce_def split: option.splits prod.splits bool.splits if_splits)

lemma mm_free_keeps_before:
  assumes inv: "heap_inv s B (frees B) F" and p: "B p = Some (k, False)" "p + k = a" and a: "B a = Some (sz, True)"
  shows "\<exists>s' B' F' j. mm_free (w32 a) s = Some s' \<and> heap_inv s' B' (frees B') F' \<and>
    B' p = Some (k, False) \<and> B' a = Some (j, False)"
proof -
  have "p < a" using tiledD(3) [OF heap_invD(2) [OF inv] p(1)] p(2) by simp
  obtain B' F' where S: "spec_coalesce a (B(a \<mapsto> (sz, False)), F) = (B', F')" by fastforce
  from mm_free_sim [OF inv a S] obtain m f where "mm_free (w32 a) s = Some (s\<lparr>mem := m, free_lists := f\<rparr>)"
    "heap_inv (s\<lparr>mem := m, free_lists := f\<rparr>) B' (frees B') F'" by blast
  moreover have "B' p = Some (k, False)" "\<exists>j. B' a = Some (j, False)"
    using spec_coalesce_before [OF S _ _ \<open>p < a\<close>] p(1) \<open>p < a\<close> tiledD(3) [OF heap_invD(2) [OF inv] a] by auto
  ultimately show ?thesis by blast
qed

section \<open>Wrap-around\<close>

text \<open>A request near the top of the 32-bit range is rounded to a tiny block.\<close>

lemma ADJUST_wraps: "ADJUST_BYTESIZE 0xFFFFFFFF = ADJUST_BYTESIZE 12"
  by (simp add: ADJUST_BYTESIZE_def ADJUST_WORDCOUNT_def ALIGN_def WSIZE_def)

lemma mm_malloc_wraps: "mm_malloc 0xFFFFFFFF s = mm_malloc 12 s"
  by (simp add: mm_malloc_def ADJUST_wraps)

text \<open>The bound of \<open>mem_sbrk\<close> is tested after the addition: a large increment wraps past it.\<close>

lemma mem_sbrk_wraps:
  assumes "unat incr < 2 ^ 31" "2 ^ 32 \<le> unat (mem_brk s) + unat incr" "unat (mem_brk s) + unat incr - 2 ^ 32 \<le> unat (mem_max_addr s)"
  shows "mem_sbrk incr s = (mem_brk s, s\<lparr>mem_brk := mem_brk s + incr\<rparr>)" "unat (mem_brk s + incr) < unat (mem_brk s)"
proof -
  have sum: "unat (mem_brk s + incr) = unat (mem_brk s) + unat incr - 2 ^ 32"
    using assms(2) unat_lt2p_32 [of "mem_brk s"] unat_lt2p_32 [of incr]
    by (simp add: unat_word_ariths) (simp add: mod_if)
  then show "unat (mem_brk s + incr) < unat (mem_brk s)" using assms(2) unat_lt2p_32 [of incr] by linarith
  have "\<not> sint incr < 0" using assms(1) by (simp add: sint_neg_iff)
  moreover have "\<not> mem_max_addr s < mem_brk s + incr" using sum assms(3) by (simp add: word_less_nat_alt)
  ultimately show "mem_sbrk incr s = (mem_brk s, s\<lparr>mem_brk := mem_brk s + incr\<rparr>)"
    by (simp add: mem_sbrk_def Let_def)
qed

end
