(* ===== verification/Mm_Shape.thy ===== *)
theory Mm_Shape
  imports Mm_Frame
begin

text \<open>
  The shape of every reachable heap, read off the memory with the macros of src/mm.c: the
  headers describe blocks that fill the heap without a gap, and every free block is on the
  list of its size class, once.
\<close>

section \<open>The blocks fill the heap\<close>

definition block_bytes :: "blocks \<Rightarrow> nat" where
  "block_bytes B = (\<Sum>a \<in> dom B. fst (the (B a)))"

lemma tiled_finite: "tiled lo hi B \<Longrightarrow> finite (dom B)"
proof (rule finite_subset [of _ "{..hi}"])
  assume T: "tiled lo hi B"
  show "dom B \<subseteq> {..hi}"
  proof
    fix a
    assume "a \<in> dom B"
    then obtain sz al where "B a = Some (sz, al)" by auto
    from tiledD(6) [OF T this] show "a \<in> {..hi}" by simp
  qed
qed simp

text \<open>The blocks from \<open>x\<close> on, where \<open>x\<close> is a block or the end.\<close>

lemma tiled_sum_from:
  assumes T: "tiled lo hi B" and x: "B x \<noteq> None \<or> x = hi"
  shows "(\<Sum>a \<in> {a \<in> dom B. x \<le> a}. fst (the (B a))) = hi - x"
  using x
proof (induction "hi - x" arbitrary: x rule: less_induct)
  case less
  show ?case
  proof (cases "x = hi")
    case True
    have "{a \<in> dom B. x \<le> a} = {}" using tiledD(3,6) [OF T] True by fastforce
    then show ?thesis using True by (simp only: sum.empty diff_self_eq_0)
  next
    case False
    then obtain sz al where B: "B x = Some (sz, al)" using less.prems by auto
    note D = tiledD [OF T B]
    have "{a \<in> dom B. x \<le> a} = insert x {a \<in> dom B. x + sz \<le> a}"
    proof (intro set_eqI iffI)
      fix a
      assume "a \<in> {a \<in> dom B. x \<le> a}"
      then obtain sz' al' where a: "B a = Some (sz', al')" "x \<le> a" by auto
      show "a \<in> insert x {a \<in> dom B. x + sz \<le> a}"
        using tiled_apart [OF T B a(1)] a by (cases "a = x") auto
    qed (use B in auto)
    moreover have "finite {a \<in> dom B. x + sz \<le> a}" using tiled_finite [OF T] by simp
    moreover have "x \<notin> {a \<in> dom B. x + sz \<le> a}" using D(3) by simp
    ultimately have "(\<Sum>a \<in> {a \<in> dom B. x \<le> a}. fst (the (B a))) =
        fst (the (B x)) + (\<Sum>a \<in> {a \<in> dom B. x + sz \<le> a}. fst (the (B a)))"
      using sum.insert [of "{a \<in> dom B. x + sz \<le> a}" x "\<lambda>a. fst (the (B a))"] by metis
    moreover have "B (x + sz) \<noteq> None \<or> x + sz = hi" using D(8) by auto
    moreover have "hi - (x + sz) < hi - x" using D(3,6) by linarith
    ultimately show ?thesis using less.hyps [of "x + sz"] D(6) B by simp
  qed
qed

lemma tiled_sum:
  assumes T: "tiled lo hi B"
  shows "block_bytes B = hi - lo"
proof -
  have "dom B = {a \<in> dom B. lo \<le> a}" using tiledD(4) [OF T] by auto
  moreover have "B lo \<noteq> None" using T by (simp add: tiled_def)
  ultimately show ?thesis using tiled_sum_from [OF T, of lo] unfolding block_bytes_def by metis
qed

section \<open>The lists hold the free blocks\<close>

lemma lists_partition:
  assumes "lists_ok H heads S F"
  shows "distinct (concat F)" "set (concat F) = dom S"
proof -
  note L = lists_okD [OF assms]
  show "set (concat F) = dom S"
  proof (intro set_eqI iffI)
    fix a
    assume "a \<in> set (concat F)"
    then obtain xs where "xs \<in> set F" "a \<in> set xs" by auto
    then obtain i where "i < 17" "a \<in> set (F ! i)" using L(2) by (metis in_set_conv_nth)
    from L(6) [OF this] show "a \<in> dom S" by blast
  next
    fix a
    assume "a \<in> dom S"
    then obtain sz where "S a = Some sz" by blast
    from L(8) [OF this] show "a \<in> set (concat F)" using L(2) by (auto intro!: bexI [of _ "F ! calc_list_index (w32 sz)"])
  qed
  have apart: "set (F ! i) \<inter> set (F ! j) = {}" if "i < 17" "j < 17" "i \<noteq> j" for i j
    using lists_ok_other [OF assms that(1,2)] that(3) by blast
  have "distinct (concat (take k F))" if "k \<le> 17" for k
    using that
  proof (induction k)
    case (Suc k)
    have "take (Suc k) F = take k F @ [F ! k]" using Suc.prems L(2) by (simp add: take_Suc_conv_app_nth)
    moreover have "set (concat (take k F)) \<inter> set (F ! k) = {}"
    proof -
      have "set xs \<inter> set (F ! k) = {}" if "xs \<in> set (take k F)" for xs
      proof -
        from that obtain i where "i < k" "xs = F ! i" using Suc.prems L(2) by (auto simp: in_set_conv_nth)
        with apart [of i k] Suc.prems show ?thesis by simp
      qed
      then show ?thesis by auto
    qed
    ultimately show ?case using Suc L(5) [of k] by auto
  qed simp
  from this [of 17] L(2) show "distinct (concat F)" by simp
qed

section \<open>The shape\<close>

text \<open>
  \<open>shaped s B F\<close>: \<open>B\<close> are the blocks as the headers tell, with size and allocation flag, and
  \<open>F\<close> are the lists from their heads on.
\<close>

definition shaped :: "mm_state \<Rightarrow> blocks \<Rightarrow> nat list list \<Rightarrow> bool" where
  "shaped s B F \<longleftrightarrow>
     (\<forall>a sz al. B a = Some (sz, al) \<longrightarrow> 8 dvd a \<and> 8 dvd sz \<and> 16 \<le> sz \<and> a + sz \<le> unat (mem_brk s) \<and>
        GET_THISSIZE (mem s) (w32 a) = w32 sz \<and> GET_THISALLOC (mem s) (w32 a) = (if al then 1 else 0) \<and>
        (a + sz = unat (mem_brk s) \<or> B (a + sz) \<noteq> None)) \<and>
     B (unat (heap_start s) + 16) \<noteq> None \<and> finite (dom B) \<and> block_bytes B + 16 = unat (mem_heapsize s) \<and>
     map (\<lambda>xs. w32 (hdn xs 0)) F = free_lists s \<and> length F = 17 \<and>
     distinct (concat F) \<and> set (concat F) = {a. \<exists>sz. B a = Some (sz, False)} \<and>
     (\<forall>i < 17. \<forall>a \<in> set (F ! i). \<exists>sz. B a = Some (sz, False) \<and> calc_list_index (w32 sz) = i)"

lemma heap_shaped:
  assumes inv: "heap_inv s B (frees B) F"
  shows "shaped s B F"
proof -
  note V = heap_invD(1) [OF inv] and T = heap_invD(2) [OF inv] and L = heap_invD(5) [OF inv]
  have free: "dom (frees B) = {a. \<exists>sz. B a = Some (sz, False)}" by (auto simp: frees_Some)
  have "8 dvd a \<and> 8 dvd sz \<and> 16 \<le> sz \<and> a + sz \<le> unat (mem_brk s) \<and>
      GET_THISSIZE (mem s) (w32 a) = w32 sz \<and> GET_THISALLOC (mem s) (w32 a) = (if al then 1 else 0) \<and>
      (a + sz = unat (mem_brk s) \<or> B (a + sz) \<noteq> None)" if B: "B a = Some (sz, al)" for a sz al
    using tiledD [OF T B] hdr_macros(1,2) [OF inv_has_hdr [OF inv B]] by (simp add: brk_def)
  moreover have "B (unat (heap_start s) + 16) \<noteq> None" using T by (simp add: tiled_def heap_lo_def)
  moreover have "block_bytes B + 16 = unat (mem_heapsize s)"
  proof -
    have "unat (mem_heapsize s) = brk s - unat (heap_start s)"
      using V by (auto simp: mem_heapsize_def vars_ok_def memlib_inv_def brk_def unat_sub_if')
    with tiled_sum [OF T] tiled_hi [OF T] show ?thesis by (simp add: heap_lo_def)
  qed
  moreover have "map (\<lambda>xs. w32 (hdn xs 0)) F = free_lists s"
    using lists_okD(1-3) [OF L] by (intro nth_equalityI) simp_all
  moreover have "\<exists>sz. B a = Some (sz, False) \<and> calc_list_index (w32 sz) = i" if "i < 17" "a \<in> set (F ! i)" for i a
    using lists_okD(6) [OF L that] by (auto simp: frees_Some)
  ultimately show ?thesis
    unfolding shaped_def using tiled_finite [OF T] lists_partition [OF L] lists_okD(2) [OF L] free by blast
qed

end
