(* ===== verification/Mdriver_Demo.thy ===== *)
theory Mdriver_Demo
  imports Mdriver_Options Mdriver_Alarm Mm_Debug Mm_Quirks Mm_Shape
begin

text \<open>
  A concrete run of the driver: a trace of five requests in the format of the files under
  src/traces, and an environment in which every trace file contains it, libc's \<^verbatim>\<open>malloc\<close>
  always delivers the area of \<open>demo_libc\<close>, and every measurement takes ten seconds.
\<close>

definition demo_op :: "optype \<Rightarrow> 32 word \<Rightarrow> 32 word \<Rightarrow> traceop_t" where
  "demo_op ty i n = \<lparr>op_type = ty, op_index = i, op_size = n\<rparr>"

definition demo_trace :: trace_t where
  "demo_trace = \<lparr>sugg_heapsize = 20000, num_ids = 2, num_ops = 5, weight = 1,
     ops = [demo_op ALLOC 0 2040, demo_op ALLOC 1 2040, demo_op REALLOC 0 100, demo_op FREE 1 0, demo_op FREE 0 0],
     blocks = [0, 0], block_sizes = [0, 0]\<rparr>"

definition demo_driver :: driver where
  "demo_driver = \<lparr>mm = blank, ranges = [], errors = 0, messages = [], traceop_index = - 1, traceop_ptr = - 1,
     trace_operations = [], current_trace_name = None\<rparr>"

text \<open>A calibration that looks at the clock every 5000 cycles, with a tick in between.\<close>

definition demo_calibration :: calibration where
  "demo_calibration = (0, (0, 0), (0, 0), map (\<lambda>i. ((0, w32 (5000 * Suc i)), int (Suc i))) [0..<100])"

definition demo_readings :: readings where
  "demo_readings = \<lparr>rd_calloc = True, rd_malloc = True, rd_buf = \<lambda>_. 0, rd_stamps = \<lambda>i. ((0, 0), (0, 1000 + of_nat i)),
     rd_utimes = \<lambda>_. (0, 0), rd_callibrate = \<lambda>_. demo_calibration\<rparr>"

definition demo_meter :: meter where
  "demo_meter = \<lparr>m_cycles = demo_readings, m_itimer = (start_value, start_value),
     m_tod = (\<lparr>tv_sec = 100, tv_usec = 0\<rparr>, \<lparr>tv_sec = 110, tv_usec = 0\<rparr>)\<rparr>"

text \<open>
  In the place of libc, an allocator that hands out a thousand addresses one after the other
  and never uses one again.
\<close>

definition bump_malloc :: "size_t \<Rightarrow> nat \<Rightarrow> (addr \<times> nat) run" where
  "bump_malloc n k = (if k < 1000 then returns (w32 (8 * Suc k), Suc k) else returns (NULL, k))"

definition demo_env :: "nat env" where
  "demo_env = \<lparr>e_realloc = True, e_strdup = Some, e_calloc = \<lambda>_. True, e_files = \<lambda>_. Some (show_trace demo_trace),
     e_libc_reads = \<lambda>_ _. True, e_libc_uninit = \<lambda>_ _. 0, e_reads = \<lambda>_ _. True, e_uninit = \<lambda>_ _. 0, e_page = 4096, e_area = \<lambda>_ _. demo_libc, e_main_area = demo_libc,
     e_records = \<lambda>_ _. True, e_stamps = ((0, 0), (0, 0)), e_meter = \<lambda>_. demo_meter, e_libc_meter = \<lambda>_. demo_meter,
     e_tput = NaN, e_libc_tput = NaN, e_malloc = bump_malloc, e_refit = \<lambda>_. bump_malloc, e_free = \<lambda>p k. returns k\<rparr>"

definition demo_clock :: clock where
  "demo_clock = \<lparr>cyc_hi = 0, cyc_lo = 0, cyc_per_tick = 0, start_tick = 0\<rparr>"

definition demo_timing :: timing where
  "demo_timing = \<lparr>t_fcyc = fcyc_default, t_clock = demo_clock,
     t_etime = \<lparr>first_u = start_value, first_r = start_value, first_p = start_value\<rparr>, Mhz = 0\<rparr>"

lemma demo_trace_fits: "trace_fits demo_trace"
  by (simp add: trace_fits_def demo_trace_def demo_op_def max_alloc_def)

lemma demo_playable: "playable (unat (demo_libc MAX_HEAP) + unat MAX_HEAP) (adjusted (2 * unat (4096 :: 32 word))) demo_trace"
  unfolding playable_def demo_pages
  by (simp add: demo_trace_fits) (simp add: demo_trace_def demo_op_def demo_libc_def adjusted_def Let_def)

lemma demo_trace_ok:
  "trace_ok (unat (demo_libc MAX_HEAP) + unat MAX_HEAP) demo_trace"
  "trace_ops demo_trace = ops demo_trace"
  using demo_playable unfolding playable_def trace_ok_def
  by (simp_all add: demo_trace_def trace_ops_def)

lemma demo_good: "good_trace demo_env dir i name demo_trace" if "length dir + length name < MAXLINE"
  using that demo_playable demo_init_ok
  by (simp add: good_trace_def demo_env_def demo_meter_def usecs_def)

lemma demo_good_traces: "good_traces demo_env TRACEDIR DEFAULT_TRACEFILES (replicate 11 demo_trace)"
proof -
  have short: "length TRACEDIR + length name < MAXLINE" if "name \<in> set DEFAULT_TRACEFILES" for name
    using that by (auto simp: TRACEDIR_def DEFAULT_TRACEFILES_def MAXLINE_def)
  have "list_all2 (\<lambda>(i, name) t. good_trace demo_env TRACEDIR i name t) (zip [0..<length names] names) (replicate (length names) demo_trace)"
    if "set names \<subseteq> set DEFAULT_TRACEFILES" for names
    using that by (auto simp: list_all2_conv_all_nth intro!: demo_good short)
  note all = this
  have len: "length DEFAULT_TRACEFILES = 11" by (simp add: DEFAULT_TRACEFILES_def)
  have "list_all2 (\<lambda>(i, name) t. good_trace demo_env TRACEDIR i name t)
      (zip [0..<length DEFAULT_TRACEFILES] DEFAULT_TRACEFILES) (replicate 11 demo_trace)"
    using all [OF subset_refl] unfolding len .
  moreover have "DEFAULT_TRACEFILES \<noteq> []" using len by auto
  ultimately show ?thesis by (auto simp: good_traces_def demo_trace_def)
qed

definition bumped :: "nat \<Rightarrow> addr set \<Rightarrow> bool" where
  "bumped k A \<longleftrightarrow> k \<le> 1000 \<and> A \<subseteq> (\<lambda>j. w32 (8 * Suc j)) ` {..<k}"

lemma bump_fresh:
  assumes "bumped k A" "k < 1000"
  shows "w32 (8 * Suc k) \<notin> A" "w32 (8 * Suc k) \<noteq> NULL" "B \<subseteq> A \<Longrightarrow> bumped (Suc k) (insert (w32 (8 * Suc k)) B)"
proof -
  have "w32 (8 * Suc k) \<noteq> w32 (8 * Suc j)" if "j < k" for j
    using that assms(2) w32_eq_iff [of "8 * Suc k" "8 * Suc j"] by simp
  with assms(1) show "w32 (8 * Suc k) \<notin> A" unfolding bumped_def by blast
  show "w32 (8 * Suc k) \<noteq> NULL" using assms(2) w32_eq_0_iff [of "8 * Suc k"] by (simp add: NULL_def)
  show "bumped (Suc k) (insert (w32 (8 * Suc k)) B)" if "B \<subseteq> A"
    using assms that by (auto simp: bumped_def lessThan_Suc)
qed

lemma demo_libc_serves: "libc_serves bumped bump_malloc (\<lambda>_. bump_malloc) (\<lambda>p k. returns k) (\<lambda>_. 1) (\<lambda>k. 1000 - k)"
  unfolding libc_serves_def
proof
  fix k A and n :: nat
  assume k: "bumped k A" "1 \<le> 1000 - k"
  then have "k < 1000" by simp
  note F = bump_fresh [OF k(1) this]
  show "\<exists>p s'. bump_malloc (w32 n) k = returns (p, s') \<and> p \<noteq> NULL \<and> p \<notin> A \<and> bumped s' (insert p A) \<and>
      evolves (\<lambda>_ _. True) (\<lambda>_ _. 1) (\<lambda>k. 1000 - k) 1 k s'"
    using F(1,2) F(3) [OF subset_refl] \<open>k < 1000\<close> by (simp add: bump_malloc_def evolves_def)
  show "\<exists>p s'. bump_malloc (w32 n) k = returns (p, s') \<and> p \<noteq> NULL \<and> p \<notin> A - {a} \<and> bumped s' (insert p (A - {a})) \<and>
      evolves (\<lambda>_ _. True) (\<lambda>_ _. 1) (\<lambda>k. 1000 - k) 1 k s'" for a
    using F(1,2) F(3) [of "A - {a}"] \<open>k < 1000\<close> by (simp add: bump_malloc_def evolves_def)
next
  fix k A a
  assume "bumped k A"
  then show "\<exists>s'. returns k = returns s' \<and> bumped s' (A - {a}) \<and> evolves (\<lambda>_ _. True) (\<lambda>_ _. 1) (\<lambda>k. 1000 - k) 0 k s'"
    by (auto simp: bumped_def evolves_def)
qed

lemma demo_good_libc: "good_libc demo_env bumped (\<lambda>_. 1) (\<lambda>k. 1000 - k) 0 (replicate 11 demo_trace)"
proof -
  have "total_cost (\<lambda>_. 1) (ops demo_trace) = 3" by (simp add: demo_trace_def demo_op_def)
  moreover have "Ex (bumped 0)" unfolding bumped_def by blast
  ultimately show ?thesis
    using demo_libc_serves by (simp add: good_libc_def demo_env_def demo_meter_def usecs_def sum_list_replicate)
qed

text \<open>The block structure behind the states of \<open>Mm_Demo\<close>.\<close>

lemma demo_blocks:
  obtains F where "heap_inv demo (init_blocks 0x10000000 8200) (frees (init_blocks 0x10000000 8200)) F"
  using mm_init_sim [OF demo_init_ok, of blank, unfolded demo_pages] demo_init(1) by (auto simp: demo_libc_def)

lemma demo_100_blocks:
  obtains B F sz where "heap_inv demo_100 B (frees B) F" "B (unat demo_ptr) = Some (sz, True)"
proof -
  from demo_malloc(4) obtain B F where inv: "heap_inv demo_100 B (frees B) F" and d: "dom [unat demo_ptr \<mapsto> 100] = dom (usable B)"
    by (auto simp: covers_def live_def)
  then have "unat demo_ptr \<in> dom (usable B)" by auto
  then obtain sz where "B (unat demo_ptr) = Some (sz, True)" by (auto simp: usable_def allocs_Some)
  with inv that show ?thesis by blast
qed

text \<open>Two blocks of 104 bytes allocated in a row, and the first one freed.\<close>

lemma demo_gap:
  obtains s B F where "heap_inv s B (frees B) F" "B 0x10000010 = Some (104, False)" "B 0x10000078 = Some (104, True)"
proof -
  obtain F where 0: "heap_inv demo (init_blocks 0x10000000 8200) (frees (init_blocks 0x10000000 8200)) F" by (rule demo_blocks)
  let ?B1 = "[0x10000010 \<mapsto> (104, True), 0x10000078 \<mapsto> (8096, False)] :: blocks"
  let ?B2 = "[0x10000010 \<mapsto> (104, True), 0x10000078 \<mapsto> (104, True), 0x100000E0 \<mapsto> (7992, False)] :: blocks"
  let ?B3 = "?B2(0x10000010 \<mapsto> (104, False))"
  have "\<exists>F1. spec_allocate 0x10000010 104 (init_blocks 0x10000000 8200, F) = (?B1, F1)"
    by (auto simp: spec_allocate_def spec_coalesce_def init_blocks_def Let_def)
  then obtain F1 where "spec_allocate 0x10000010 104 (init_blocks 0x10000000 8200, F) = (?B1, F1)" by blast
  from allocate_sim [OF 0 _ _ _ _ this, of 8200] obtain s1 where 1: "heap_inv s1 ?B1 (frees ?B1) F1"
    by (auto simp: init_blocks_def)
  have "\<exists>F2. spec_allocate 0x10000078 104 (?B1, F1) = (?B2, F2)"
    by (auto simp: spec_allocate_def spec_coalesce_def Let_def)
  then obtain F2 where "spec_allocate 0x10000078 104 (?B1, F1) = (?B2, F2)" by blast
  from allocate_sim [OF 1 _ _ _ _ this, of 8096] obtain s2 where 2: "heap_inv s2 ?B2 (frees ?B2) F2" by auto
  have "\<exists>F3. spec_coalesce 0x10000010 (?B3, F2) = (?B3, F3)" by (auto simp: spec_coalesce_def)
  then obtain F3 where "spec_coalesce 0x10000010 (?B3, F2) = (?B3, F3)" by blast
  from mm_free_sim [OF 2 _ this] obtain s3 where "heap_inv s3 ?B3 (frees ?B3) F3" by auto
  then show ?thesis by (rule that) simp_all
qed

text \<open>The demo calibration sees a tick at every look.\<close>

lemma demo_steady: "steady c demo_calibration"
proof -
  have at: "fst (get_counter (0, w32 (5000 * Suc i)) (start_counter (0, 0) c)) = 5000 * real (Suc i)" if "i < 100" for i
  proof -
    have "5000 * Suc i < 2 ^ 32" using that by simp
    then have "stamp_nat (0, w32 (5000 * Suc i)) = 5000 * Suc i" by (simp add: stamp_nat_def unat_w32 del: mult_Suc_right)
    moreover have "stamp_nat (0, 0) = 0" by (simp add: stamp_nat_def)
    ultimately show ?thesis
      using that unfolding get_counter_diff by (simp del: mult_Suc_right)
  qed
  let ?R = "\<lambda>x y. fst (get_counter (fst x) (start_counter (0, 0) c)) + THRESHOLD \<le> fst (get_counter (fst y) (start_counter (0, 0) c)) \<and> snd x < snd y"
  let ?looks = "map (\<lambda>i. ((0, w32 (5000 * Suc i)), int (Suc i))) [0..<100]"
  have "sorted_wrt ?R ?looks"
    by (simp add: sorted_wrt_iff_nth_less at THRESHOLD_def del: mult_Suc_right of_nat_Suc) simp
  moreover have "fst (get_counter (0, 0) (start_counter (0, 0) c)) = 0" by (simp add: get_counter_diff)
  ultimately have "sorted_wrt ?R (((0, 0), 0) # ?looks)" by (simp add: at THRESHOLD_def del: mult_Suc_right)
  then show ?thesis unfolding steady_def demo_calibration_def prod.case by (simp only: simp_thms) (simp add: NEVENT_def)
qed

text \<open>The heap is still small after the request for 100 bytes.\<close>

lemma demo_heapsize: "unat (mem_heapsize demo) = 8216"
proof -
  obtain F where "heap_inv demo (init_blocks 0x10000000 8200) (frees (init_blocks 0x10000000 8200)) F" by (rule demo_blocks)
  then have V: "vars_ok demo" by (rule heap_invD)
  have "mem_start_brk demo = 0x10000000"
    using mm_init_sim [OF demo_init_ok, of blank] demo_init(1) by (auto simp: demo_libc_def)
  with V heapsize_brk [OF V] show ?thesis by (simp add: vars_ok_def demo_init(4))
qed

lemma demo_100_small: "unat (mem_heapsize demo_100) + demand demo_100 100 < 1000000"
proof -
  obtain F where inv: "heap_inv demo (init_blocks 0x10000000 8200) (frees (init_blocks 0x10000000 8200)) F" by (rule demo_blocks)
  with mm_malloc_sim [OF inv, of 100] demo_malloc(1,2) obtain B' F' where
    inv': "heap_inv demo_100 B' (frees B') F'" and g: "grows (demand demo 100) demo demo_100"
    by (auto simp: demo_fits)
  have d: "demand demo 100 = 8200" by (simp add: demand_def demo_init adjusted_def Let_def)
  then have "demand demo_100 100 = 8200" using g by (simp add: demand_def grows_def)
  with g d heapsize_brk [OF heap_invD(1) [OF inv']] heapsize_brk [OF heap_invD(1) [OF inv]] demo_heapsize
  show ?thesis by (simp add: grows_def)
qed

text \<open>A trace that reallocates identifier 128.\<close>

definition alarm_trace :: trace_t where
  "alarm_trace = \<lparr>sugg_heapsize = 20000, num_ids = 129, num_ops = 2, weight = 1,
     ops = [demo_op ALLOC 128 16, demo_op REALLOC 128 32], blocks = replicate 129 0, block_sizes = replicate 129 0\<rparr>"

lemma bit_128: "bit (128 :: 32 word) 7"
proof -
  have "bit (push_bit 7 1 :: 32 word) 7" unfolding bit_push_bit_iff by simp
  then show ?thesis by simp
qed

text \<open>A trace that frees identifier 7 of one; the reader accepts it, and its replay leaves the array.\<close>

definition loose_trace :: trace_t where
  "loose_trace = \<lparr>sugg_heapsize = 20000, num_ids = 1, num_ops = 2, weight = 1,
     ops = [demo_op ALLOC 0 16, demo_op FREE 7 0], blocks = [0], block_sizes = [0]\<rparr>"

lemma loose_trace_read: "read_trace (\<lambda>_. True) (\<lambda>_. 0) (Some (show_trace loose_trace)) = Inr loose_trace"
proof -
  have "trace_fits loose_trace" by (simp add: trace_fits_def loose_trace_def demo_op_def max_alloc_def)
  moreover have "fresh_trace (\<lambda>_. 0) loose_trace = loose_trace"
    by (simp add: fresh_trace_def loose_trace_def demo_op_def reread_def array_len_def)
  ultimately show ?thesis using read_trace_show [of loose_trace "\<lambda>_. True"] by simp
qed

lemma free_index_unchecked:
  "read_trace (\<lambda>_. True) (\<lambda>_. 0) (Some (show_trace loose_trace)) = Inr loose_trace \<and>
    eval_libc_speed bump_malloc (\<lambda>_. bump_malloc) (\<lambda>p k. returns k) loose_trace 0 = halts Undefined"
  using loose_trace_read
  by (simp add: eval_libc_speed_def loose_trace_def demo_op_def trace_ops_def eval_op_def bump_malloc_def
      array_set_def array_get_def NULL_def)

end
