(* ===== verification/Spec2Isabelle.thy ===== *)
theory Spec2Isabelle
  imports Mdriver_Demo
begin

text \<open>
  A verification of cso_malloc: a dynamic memory allocator with segregated free lists
  (src/mm.c) on a simulated memory system (src/memlib.c), and the trace driver that judges
  it (src/mdriver.c) with its timers (src/fsecs.c, src/ftimer.c, src/fcyc.c, src/clock.c).

  \<^bold>\<open>The program.\<close> \<open>memlib\<close> obtains one area of \<open>MAX_HEAP\<close> bytes from libc and moves a break
  pointer in it. \<open>mm\<close> tiles the part below the break with blocks that carry a header and a
  footer word; free blocks are linked through their own payloads into seventeen lists by
  the binary logarithm of their size. \<open>mm_malloc\<close> rounds a request, takes the first
  sufficient list head or extends the heap, and splits; \<open>mm_free\<close> marks, merges and lists;
  \<open>mm_realloc\<close> allocates, copies and frees. \<open>mdriver\<close> reads traces of requests, replays each
  one against the package three times (for correctness, for space, for speed), and
  computes a performance index.

  \<^bold>\<open>Machine model.\<close> The program is built with \<^verbatim>\<open>-m32\<close>: \<^verbatim>\<open>int\<close>, \<^verbatim>\<open>size_t\<close>,
  \<^verbatim>\<open>unsigned\<close> and pointers are \<open>32 word\<close>s and wrap; \<^verbatim>\<open>int\<close>s are read with \<open>sint\<close>.
  Memory is a byte for every address, words are little-endian, \<^verbatim>\<open>char\<close> is signed.
  A \<^verbatim>\<open>double\<close> is a \<open>real\<close>, or a value of \<open>double\<close> with infinities and NaN where it can come from a
  division by zero. Static variables
  are records that the functions take and return. A loop that may run forever is a
  \<^theory_text>\<open>partial_function\<close> with \<open>None\<close> for not returning. Exits, failed assertions and accesses
  outside an array are values (\<open>exit\<close>, \<open>stop\<close>, \<open>check_failure\<close>, \<open>debug_stop\<close>). The loop of
  \<open>fcyc\<close> takes fuel, \<open>maxsamples + 1\<close>: every round but the first needs the count to be below
  \<open>maxsamples\<close>, and \<open>fcyc_minimum\<close> shows that the fuel is enough.

  \<^bold>\<open>Theories and sources.\<close>
  \<^item> \<open>Mm_Prelude\<close>: the machine's types; words as natural numbers.
  \<^item> \<open>Doubles\<close>: the type \<open>double\<close> with the sums, quotients and comparisons of IEEE arithmetic.
  \<^item> \<open>Mm_Memory\<close>: \<^verbatim>\<open>GETW\<close>, \<^verbatim>\<open>PUTW\<close>, \<^verbatim>\<open>memset\<close>, \<^verbatim>\<open>memcpy\<close>,
    \<open>debuggable_memset\<close>; the interface \<open>word_store\<close>, interpreted for aligned words.
  \<^item> \<open>Memlib\<close>: src/memlib.c.
  \<^item> \<open>Mm_Blocks\<close>: the macros of src/mm.c; bounds of the size arithmetic.
  \<^item> \<open>Mm_Free_Lists\<close>: the state of src/mm.c and the list routines, with the
    representation of the lists.
  \<^item> \<open>Mm_Allocator\<close>: \<open>free_block\<close>, \<open>coalesce\<close>, \<open>allocate\<close>, \<open>find_fit\<close>, \<open>extend_heap\<close>,
    \<open>mm_init\<close>, \<open>mm_malloc\<close>, \<open>mm_free\<close>, \<open>mm_realloc\<close>.
  \<^item> \<open>Mm_Layout\<close>, \<open>Mm_Invariant\<close>: tilings of the heap, the abstract machine on block maps,
    and the invariant \<open>heap_inv\<close> that relates a state to it.
  \<^item> \<open>Mm_Simulation\<close>, \<open>Mm_Correct\<close>, \<open>Mm_Malloc\<close>, \<open>Mm_Init\<close>: every routine refines the abstract
    machine and keeps the invariant; \<open>mm_init\<close> establishes it.
  \<^item> \<open>Mm_Contract\<close>: the locale \<open>allocator\<close>, what a client relies on, with the lemmas of a
    client that keeps patterns in its blocks; its interpretation \<open>mm\<close> for src/mm.c.
  \<^item> \<open>Mm_Reach\<close>: the package as a step relation of client calls and stores; reachable states.
  \<^item> \<open>Mm_Frame\<close>: what the calls leave alone, byte by byte; \<open>Mm_Shape\<close>: the form of every
    reachable heap, read off the memory.
  \<^item> \<open>Mm_Quirks\<close>: the edges of src/mm.c and src/memlib.c.
  \<^item> \<open>Mm_Check\<close>: \<open>mm_check\<close> (with the scan behind \<^verbatim>\<open>DO_HEAP_OVERWRITE_CHECK\<close> as a flag), the
    debug build and \<open>test_main\<close>; \<open>Mm_Debug\<close>: the debug build agrees with the default build.
  \<^item> \<open>Mdriver\<close>: the range list and the eval functions of src/mdriver.c; \<open>Mdriver_Valid\<close>:
    the verdict on the package; \<open>Mdriver_Util\<close>: utilisation; \<open>Mdriver_Replay\<close>: the timed
    runs, with the locale \<open>replay_heap\<close> for an allocator that a trace is replayed against;
    \<open>Mdriver_Alarm\<close>: the run that rejects a correct package.
  \<^item> \<open>Mdriver_Trace\<close>: \<open>read_trace\<close> with the conversions of \<^verbatim>\<open>fscanf\<close>, the round trip, and what the assertions
    establish for every accepted file.
  \<^item> \<open>Clock\<close>, \<open>Fcyc\<close> (with the locale \<open>k_best\<close>), \<open>Fsecs\<close>: src/clock.c, src/fcyc.c,
    src/ftimer.c and src/fsecs.c.
  \<^item> \<open>Mdriver_Main\<close>: options, team check, statistics, performance index and \<open>main\<close>;
    \<open>Mdriver_Accept\<close>: the whole run on good traces; \<open>Mdriver_Options\<close>: what the command
    line means.
  \<^item> \<open>Mm_Demo\<close>, \<open>Mdriver_Demo\<close>: concrete states and a concrete run for the witnesses.

  \<^bold>\<open>Parameters.\<close> What libc and the machine deliver are arguments: \<open>libc_malloc\<close> (the area),
  \<open>getpagesize\<close>, whether an allocation of the driver succeeds, the contents of files and of
  uninitialised arrays, time stamps and timer readings, and libc's own allocator for the
  option \<^verbatim>\<open>-l\<close>. The hypotheses on them are named: \<open>area_ok\<close> and \<open>init_ok\<close> (an aligned area
  that does not reach the end of the address space, pages that fit into it), \<open>measurable\<close>
  (the timer readings advance, and with compensation the calibration is \<open>steady\<close>: it saw the
  clock tick), \<open>good_traces\<close> (each trace file holds a printed trace that fits into the heap
  area), \<open>good_libc\<close> and \<open>libc_serves\<close> (libc's allocator has room for the traces and gives no
  null pointer meanwhile). \<open>fits_word s n\<close> says that the request does not wrap around in 32 bits; what
  happens otherwise is \<open>malloc_wraps\<close>.

  \<^bold>\<open>What is shown.\<close> The package: every reachable state is well formed, and nothing
  outside the heap is ever written; allocation, reallocation and release return, give aligned disjoint blocks inside the heap, keep all
  bytes the client holds, and fail only when the area is exhausted. The driver: it accepts
  the package on every well-formed trace that fits (the requests use each identifier in
  the order allocate, reallocate, free, with sizes below \<open>2 ^ 31\<close>, and no reallocated
  identifier has bit 7 set, see \<open>realloc_false_alarm\<close>), its utilisation is the peak of
  requested bytes over the heap size, and \<open>main\<close>, with any options, reports an index between
  0 and 100 and every trace valid. The
  block structure: the routines refine the abstract machine. Timers: termination, the
  minimum of the samples, exact counter differences. The properties named after faults
  (\<open>init_refused\<close>, \<open>free_keeps_before\<close>, \<open>node_listindex_lost\<close>, \<open>sbrk_wraps\<close>, \<open>malloc_wraps\<close>,
  \<open>realloc_false_alarm\<close>, \<open>range_containment_missed\<close>, \<open>summary_complete\<close>,
  \<open>read_trace_indices\<close>, \<open>alpha_counter_wraps\<close>, \<open>clear_ends\<close>) state where the code departs from what it means to do.

  \<^bold>\<open>Not modelled.\<close> The text of messages, \<^verbatim>\<open>usage\<close> and progress output; \<^verbatim>\<open>errno\<close>; the return of
  memory to libc (\<^verbatim>\<open>free_trace\<close>, the elements of the range list), because libc's own heap is
  a parameter; the \<^verbatim>\<open>TRACE\<close> output; the unused macros \<^verbatim>\<open>SIZE_T_SIZE\<close> and \<^verbatim>\<open>GET_PAYLOAD\<close>; the inline assembly of src/clock.c, whose
  readings are parameters; rounding of \<^verbatim>\<open>double\<close> and the sign of zero; the build files, scripts and trace data.
\<close>

section \<open>The package\<close>





text \<open>
  C3. In every reachable state mm_free of a held block returns, the client loses
  exactly that block, every byte of its other blocks is kept, and the resulting state
  is reachable.
\<close>

theorem free_safe:
  assumes "mm_reachable (s, L)" "L a = Some n"
  shows "\<exists>s'. mm_free (w32 a) s = Some s' \<and> mm_reachable (s', L(a := None)) \<and>
    brk s' \<le> unat (mem_max_addr s') \<and>
    (\<forall>b k j. L b = Some k \<longrightarrow> b \<noteq> a \<longrightarrow> j < k \<longrightarrow> mem s' (w32 (b + j)) = mem s (w32 (b + j)))"
proof -
  have c: "covers s L" using reachable_covers [OF assms(1)] by simp
  from covers_free_spec [OF c assms(2)] obtain s' where
    run: "mm_free (w32 a) s = Some s'" "covers s' (L(a := None))" "keeps mem_byte (L(a := None)) s s'"
    by blast
  have "vars_ok s'" using run(2) unfolding covers_def live_def by (auto dest: heap_invD(1))
  then have "brk s' \<le> unat (mem_max_addr s')" by (simp add: vars_ok_def memlib_inv_def brk_def)
  moreover have "mem s' (w32 (b + j)) = mem s (w32 (b + j))" if "L b = Some k" "b \<noteq> a" "j < k" for b k j
    using keepsD [OF run(3), of b k j] that by (simp add: mem_byte_def)
  ultimately show ?thesis
    using run(1) mm_reachable.step [OF assms(1) mm_step.free [of a s s' L n, OF run(1) assms(2)]] by blast
qed

theorem free_safe_witness:
  "mm_reachable (demo_100, [unat demo_ptr \<mapsto> 100]) \<and>
    (\<exists>s'. mm_free demo_ptr demo_100 = Some s' \<and> mm_reachable (s', Map.empty))"
  using free_safe [OF demo_malloc(3), of "unat demo_ptr" 100] demo_malloc(3) by auto







text \<open>
  C7. Given an aligned area of MAX_HEAP bytes and a page size that fits into it,
  mm_init returns 0 and leaves a well-formed heap of exactly one free block of
  ADJUST_BYTESIZE(2 * pagesize) bytes, listed, between the prologue and the epilogue;
  nothing is allocated.
\<close>

theorem init_one_block:
  assumes "init_ok libc_malloc pg"
  shows "\<exists>s' F. mm_init libc_malloc pg s = Some (Inr (0, s')) \<and>
    heap_inv s' [unat (libc_malloc MAX_HEAP) + 16 \<mapsto> (adjusted (2 * unat pg), False)]
      [unat (libc_malloc MAX_HEAP) + 16 \<mapsto> adjusted (2 * unat pg)] F \<and>
    mem_start_brk s' = libc_malloc MAX_HEAP \<and>
    brk s' = unat (libc_malloc MAX_HEAP) + 16 + adjusted (2 * unat pg)"
proof -
  have "frees (init_blocks b n) = [b + 16 \<mapsto> n]" for b n
    by (auto simp: init_blocks_def frees_def)
  with mm_init_sim [OF assms, of s] show ?thesis by (auto simp: init_blocks_def)
qed

theorem init_one_block_witness:
  "init_ok demo_libc 4096 \<and> (\<exists>s'. mm_init demo_libc 4096 blank = Some (Inr (0, s')) \<and>
    brk s' = 0x10000000 + 16 + 8200)"
  using init_one_block [OF demo_init_ok, of blank] demo_init_ok
  by (auto simp: demo_libc_def adjusted_def Let_def)

section \<open>The driver\<close>



text \<open>
  C9. eval_mm_valid on a well-formed trace never reports a misaligned, escaping,
  overlapping or damaged block: it returns 1 and counts no error, or it returns 0 with
  exactly one message, that mm_malloc or mm_realloc failed, and then the heap area is
  smaller than the trace can demand.
\<close>

theorem driver_verdict:
  assumes "init_ok libc_malloc pg" "trace_ok (unat (libc_malloc MAX_HEAP) + unat MAX_HEAP) t" "\<And>k. record_ok k"
  shows "(\<exists>t' d'. eval_mm_valid libc_malloc pg record_ok t tn d = returns (1, t', d') \<and>
      errors d' = errors d \<and> messages d' = messages d) \<or>
    (\<exists>t' d' line msg. eval_mm_valid libc_malloc pg record_ok t tn d = returns (0, t', d') \<and>
      errors d' = errors d + 1 \<and> messages d' = (tn, line, msg) # messages d \<and> msg \<in> {Malloc_failed, Realloc_failed} \<and>
      unat MAX_HEAP < 16 + adjusted (2 * unat pg) +
        total_cost (\<lambda>k. max (adjusted k) (adjusted (2 * unat pg))) (trace_ops t))"
  using eval_mm_valid_verdict [OF assms, of tn d] unfolding verdict_def .

theorem driver_verdict_witness:
  "\<exists>t' d'. eval_mm_valid demo_libc 4096 (\<lambda>_. True) demo_trace 0 demo_driver = returns (1, t', d') \<and>
    errors d' = 0 \<and> messages d' = []"
  using driver_verdict [OF demo_init_ok demo_trace_ok(1), of "\<lambda>_. True" 0 demo_driver] demo_playable
  unfolding playable_def demo_trace_ok(2) by (auto simp: demo_driver_def)



text \<open>
  C11. read_trace reads back every trace written in the format of the trace files
  whose header agrees with its requests: the same header and requests, with fresh
  arrays, and the size of a free request left as it was.
\<close>

theorem trace_roundtrip:
  assumes "trace_fits t" "\<And>k. libc_ok k"
  shows "read_trace libc_ok uninit (Some (show_trace t)) = Inr (fresh_trace uninit t)"
  using assms by (rule read_trace_show)

theorem trace_roundtrip_witness:
  "read_trace (\<lambda>_. True) (\<lambda>_. 0) (Some (show_trace demo_trace)) = Inr demo_trace"
  using trace_roundtrip [OF demo_trace_fits, of "\<lambda>_. True" "\<lambda>_. 0"]
  by (simp add: fresh_trace_def demo_trace_def demo_op_def reread_def array_len_def upt_rec)

text \<open>
  C12. What the assertions of read_trace establish for every file it accepts: the
  header counts the requests exactly, so the replay loops use all of them and none
  outside the array; the largest identifier of an allocation or reallocation is the
  last one the header announces; and when the header announces at least one identifier
  and less than 2^30, every allocation and reallocation request stays inside the
  arrays of the trace. (A free request is not covered: its identifier is never
  compared.)
\<close>

theorem read_trace_indices:
  assumes "read_trace libc_ok uninit file = Inr t"
  shows "num_ops t = of_nat (length (ops t)) \<and> length (ops t) * 12 < 2 ^ 32 \<and> trace_ops t = ops t \<and>
    max_alloc 0 (ops t) = num_ids t - 1 \<and>
    (0 < unat (num_ids t) \<and> unat (num_ids t) < 2 ^ 30 \<longrightarrow>
      (\<forall>op \<in> set (ops t). op_type op \<noteq> FREE \<longrightarrow>
        unat (op_index op) < length (blocks t) \<and> unat (op_index op) < length (block_sizes t)))"
  using read_trace_accepts [OF assms] accepted_ops [OF assms] accepted_index [OF assms] by blast

theorem read_trace_indices_witness:
  "\<exists>t. read_trace (\<lambda>_. True) (\<lambda>_. 0) (Some (show_trace loose_trace)) = Inr t \<and> trace_ops t = ops t \<and>
    (\<forall>op \<in> set (ops t). op_type op \<noteq> FREE \<longrightarrow> unat (op_index op) < length (blocks t)) \<and>
    (\<exists>op \<in> set (ops t). op_type op = FREE \<and> length (blocks t) \<le> unat (op_index op))"
proof -
  have "num_ids loose_trace = 1" "\<exists>op \<in> set (ops loose_trace). op_type op = FREE \<and> length (blocks loose_trace) \<le> unat (op_index op)"
    by (simp_all add: loose_trace_def demo_op_def)
  with read_trace_indices [OF loose_trace_read] loose_trace_read show ?thesis by auto
qed

section \<open>Refinement of the block structure\<close>

text \<open>
  C13. mm_free refines the abstract machine on block maps: it marks the block free,
  merges it with its successor if that is free, and appends the result to the list of
  its size class; it returns, and no payload of another allocated block changes.
\<close>

theorem free_refines:
  assumes "heap_inv s B (frees B) F" "B a = Some (sz, True)" "spec_coalesce a (B(a \<mapsto> (sz, False)), F) = (B', F')"
  shows "\<exists>m f. mm_free (w32 a) s = Some (s\<lparr>mem := m, free_lists := f\<rparr>) \<and>
    heap_inv (s\<lparr>mem := m, free_lists := f\<rparr>) B' (frees B') F' \<and> quiet (heap_lo s) (brk s) (B(a \<mapsto> (sz, False))) (view (mem s)) (view m)"
  using assms by (rule mm_free_sim)

theorem free_refines_witness:
  "\<exists>s' B' F'. mm_free demo_ptr demo_100 = Some s' \<and> heap_inv s' B' (frees B') F'"
proof -
  obtain B F sz where B: "heap_inv demo_100 B (frees B) F" "B (unat demo_ptr) = Some (sz, True)" by (rule demo_100_blocks)
  obtain B' F' where "spec_coalesce (unat demo_ptr) (B(unat demo_ptr \<mapsto> (sz, False)), F) = (B', F')" by fastforce
  from free_refines [OF B this] show ?thesis by auto
qed

text \<open>
  C14. allocate refines the abstract machine: it takes the free block out of its list,
  splits it when at least 16 bytes remain, merges and lists the remainder, and marks
  the block allocated; the words of the free-list links in the block itself survive.
\<close>

theorem allocate_refines:
  assumes "heap_inv s B (frees B) F" "B a = Some (sz, False)" "8 dvd n" "16 \<le> n" "n \<le> sz"
    "spec_allocate a n (B, F) = (B', F')"
  shows "\<exists>m f. allocate (w32 a) (w32 n) s = Some (s\<lparr>mem := m, free_lists := f\<rparr>) \<and>
    heap_inv (s\<lparr>mem := m, free_lists := f\<rparr>) B' (frees B') F' \<and> quiet (heap_lo s) (brk s) B (view (mem s)) (view m) \<and>
    view m a = view (mem s) a \<and> view m (a + 4) = view (mem s) (a + 4)"
  using assms by (rule allocate_sim)

theorem allocate_refines_witness:
  "\<exists>s' B' F'. allocate (w32 0x10000010) (w32 104) demo = Some s' \<and> heap_inv s' B' (frees B') F'"
proof -
  obtain F where F: "heap_inv demo (init_blocks 0x10000000 8200) (frees (init_blocks 0x10000000 8200)) F" by (rule demo_blocks)
  obtain B' F' where S: "spec_allocate 0x10000010 104 (init_blocks 0x10000000 8200, F) = (B', F')" by fastforce
  have B: "init_blocks 0x10000000 8200 0x10000010 = Some (8200, False)" by (simp add: init_blocks_def)
  have "8 dvd (104 :: nat)" by simp
  from allocate_refines [OF F B this _ _ S] show ?thesis by auto
qed

text \<open>
  C15. find_fit refines the abstract search over the list heads: from the size class
  of the request upwards, the first list whose head is large enough. So a free block
  of a larger size class than the request is never missed: then some free block that
  is large enough is returned.
\<close>

theorem find_fit_refines:
  assumes "heap_inv s B (frees B) F" "n < 2 ^ 32"
  shows "find_fit (w32 n) s = map_option (map_prod w32 id) (spec_find_fit n (B, F)) \<and>
    (B a = Some (sz, False) \<and> calc_list_index (w32 n) < calc_list_index (w32 sz) \<longrightarrow>
      (\<exists>b i. find_fit (w32 n) s = Some (w32 b, i) \<and> (\<exists>k. B b = Some (k, False) \<and> n \<le> k)))"
  using find_fit_sim [OF assms] find_fit_larger_class [OF assms] by blast

theorem find_fit_refines_witness:
  "\<exists>F. find_fit (w32 104) demo = map_option (map_prod w32 id) (spec_find_fit 104 (init_blocks 0x10000000 8200, F)) \<and>
    calc_list_index 104 < calc_list_index 8200 \<and> (\<exists>b i. find_fit 104 demo = Some (w32 b, i))"
proof -
  have i: "calc_list_index 104 < calc_list_index 8200"
    by (simp add: calc_list_index_def calc_list_index_loop.simps FREELIST_COUNT_def drop_bit_eq_div)
  obtain F where F: "heap_inv demo (init_blocks 0x10000000 8200) (frees (init_blocks 0x10000000 8200)) F" by (rule demo_blocks)
  have B: "init_blocks 0x10000000 8200 0x10000010 = Some (8200, False)" by (simp add: init_blocks_def)
  from find_fit_refines [OF F, of 104 "0x10000010" 8200] B i show ?thesis unfolding w32_numeral by fastforce
qed

text \<open>
  C16. Adding a block to the list of its size class and removing it again restores the
  represented lists: add_to_list returns, and after remove_from_list the seventeen
  lists hold the same blocks in the same order.
\<close>

theorem list_roundtrip:
  assumes "lists_ok (view (mem s)) (free_lists s) S F" "S a = None" "node a"
  shows "\<exists>s1 m f. add_to_list (w32 a) (calc_list_index (w32 sz)) s = Some s1 \<and>
    remove_from_list (w32 a) (calc_list_index (w32 sz)) s1 = s\<lparr>mem := m, free_lists := f\<rparr> \<and> lists_ok (view m) f S F"
proof -
  let ?i = "calc_list_index (w32 sz)"
  from add_to_list_ok [OF assms refl, of sz] obtain m1 f1 where 1: "add_to_list (w32 a) ?i s = Some (s\<lparr>mem := m1, free_lists := f1\<rparr>)"
    "lists_ok (view m1) f1 (S(a \<mapsto> sz)) (F[?i := F ! ?i @ [a]])"
    by blast
  from remove_from_list_ok [of "s\<lparr>mem := m1, free_lists := f1\<rparr>" "S(a \<mapsto> sz)" "F[?i := F ! ?i @ [a]]" a sz ?i] 1(2) obtain m f where
    2: "remove_from_list (w32 a) ?i (s\<lparr>mem := m1, free_lists := f1\<rparr>) = s\<lparr>mem := m, free_lists := f\<rparr>"
    "lists_ok (view m) f ((S(a \<mapsto> sz))(a := None)) (F[?i := F ! ?i @ [a], ?i := remove1 a (F[?i := F ! ?i @ [a]] ! ?i)])"
    by auto
  have len: "?i < length F" using lists_okD(2) [OF assms(1)] by simp
  have "a \<notin> set (F ! ?i)" using lists_okD(6) [OF assms(1) calc_list_index_less_17, of a "w32 sz"] assms(2) by auto
  then have "F[?i := F ! ?i @ [a], ?i := remove1 a (F[?i := F ! ?i @ [a]] ! ?i)] = F"
    using len by (simp add: remove1_append)
  moreover have "(S(a \<mapsto> sz))(a := None) = S" using assms(2) by (simp add: fun_upd_idem)
  ultimately show ?thesis using 1(1) 2 by auto
qed

theorem list_roundtrip_witness:
  "\<exists>F s1 m f. add_to_list (w32 0x20000000) (calc_list_index (w32 64)) demo = Some s1 \<and>
    remove_from_list (w32 0x20000000) (calc_list_index (w32 64)) s1 = demo\<lparr>mem := m, free_lists := f\<rparr> \<and>
    lists_ok (view m) f (frees (init_blocks 0x10000000 8200)) F"
proof -
  obtain F where "heap_inv demo (init_blocks 0x10000000 8200) (frees (init_blocks 0x10000000 8200)) F" by (rule demo_blocks)
  from list_roundtrip [where a = "0x20000000" and sz = 64, OF heap_invD(5) [OF this]] show ?thesis
    by (auto simp: frees_def init_blocks_def node_def)
qed

section \<open>The timers\<close>



text \<open>
  C18. The insertion routine of the sampler implements its contract: fed with any
  samples after init_sampler, the array holds the k smallest ones in ascending order
  (zeroes where there are fewer), its first element is the minimum, and no access
  leaves the array.
\<close>

theorem sampler_keeps_smallest:
  assumes "0 < kbest st" "xs \<noteq> []"
  shows "\<exists>st'. eval_loop add_sample xs (init_sampler True st) = returns st' \<and>
    vals st' = take (nat (kbest st)) (sort xs) @ replicate (nat (kbest st) - length xs) 0 \<and>
    val_get (vals st') 0 = returns (Min (set xs)) \<and> samplecount st' = int (length xs)"
proof -
  have "sampled [] (init_sampler True st)" using assms(1) by (rule sampled_init)
  from kb.feed_best [OF this assms(2)] obtain st' where
    st': "eval_loop add_sample xs (init_sampler True st) = returns st'" "sampled xs st'"
    "val_get (vals st') 0 = returns (Min (set xs))" "samplecount st' = int (length xs)"
    by blast
  moreover have "kbest st' = kbest st" using feed_kbest [OF st'(1)] by (simp add: init_sampler_def)
  ultimately show ?thesis by (simp add: sampled_def)
qed

theorem sampler_keeps_smallest_witness:
  "\<exists>st'. eval_loop add_sample [7, 3, 9, 5] (init_sampler True fcyc_default) = returns st' \<and> vals st' = [3, 5, 7]"
  using sampler_keeps_smallest [of fcyc_default "[7, 3, 9, 5]"] by (auto simp: fcyc_default_def)






text \<open>
  C22. Both timers of ftimer.c, and fsecs, which runs the second one ten times: the
  function is called exactly n times, and the result is the elapsed time in seconds
  divided by n.
\<close>

theorem timers_average:
  assumes "\<And>s. f s = returns (g s)" "0 < n"
  shows "ftimer_gettod stv etv f n s = returns (Fin (real_of_int (usecs etv - usecs stv) / 1000000 / real_of_int n), (g ^^ nat n) s) \<and>
    ftimer_itimer r1 r2 f n (e, s) =
      returns (Fin (real_of_int (usecs (it_value r1) - usecs (it_value r2)) / 1000000 / real_of_int n), init_etime e, (g ^^ nat n) s) \<and>
    fsecs mt f (tm, s) = returns (Fin (real_of_int (usecs (snd (m_tod mt)) - usecs (fst (m_tod mt))) / 10000000), tm, (g ^^ 10) s)"
  using run_times_pure [of f g, OF assms(1)] assms(2) by (simp add: ftimer_gettod_ok ftimer_itimer_ok fsecs_ok)

theorem timers_average_witness:
  "fsecs demo_meter (\<lambda>k. returns (k + 1 :: int)) (demo_timing, 0) = returns (Fin 1, demo_timing, 10)"
proof -
  have "((\<lambda>k. k + 1 :: int) ^^ 10) 0 = 10" by (simp add: eval_nat_numeral)
  with timers_average [of "\<lambda>k. returns (k + 1)" "\<lambda>k. k + 1 :: int" 1, where mt = demo_meter and tm = demo_timing and s = 0]
  show ?thesis by (simp add: demo_meter_def usecs_def)
qed



section \<open>Arithmetic, memory and the memory system\<close>

text \<open>
  C24. ADJUST_BYTESIZE rounds a request that leaves room in the 32-bit range to the
  smallest multiple of 8 that is at least 16 and has room for the request and a
  header.
\<close>

theorem adjusted_request:
  assumes "n + 15 < 2 ^ 32"
  shows "8 dvd unat (ADJUST_BYTESIZE (w32 n)) \<and> 16 \<le> unat (ADJUST_BYTESIZE (w32 n)) \<and>
    n + 4 \<le> unat (ADJUST_BYTESIZE (w32 n)) \<and>
    (\<forall>m. 8 dvd m \<longrightarrow> 16 \<le> m \<longrightarrow> n + 4 \<le> m \<longrightarrow> unat (ADJUST_BYTESIZE (w32 n)) \<le> m)"
proof -
  have "adjusted n < 2 ^ 32" using adjusted_bounds(4) [of n] assms by (cases "n = 0") (simp_all add: adjusted_def)
  then have "unat (ADJUST_BYTESIZE (w32 n)) = adjusted n" using assms by (simp add: ADJUST_BYTESIZE_w32 unat_w32)
  moreover have "adjusted n \<le> m" if "8 dvd m" "16 \<le> m" "n + 4 \<le> m" for m
    using that unfolding adjusted_def Let_def by (auto elim!: dvdE) presburger+
  ultimately show ?thesis using adjusted_bounds(1-3) [of n] by simp
qed

theorem adjusted_request_witness:
  "(100 :: nat) + 15 < 2 ^ 32 \<and> 16 \<le> unat (ADJUST_BYTESIZE (w32 100)) \<and> unat (ADJUST_BYTESIZE (w32 100)) \<le> 104"
  using adjusted_request [of 100] by (auto dest: spec [of _ 104])

text \<open>
  C25. calc_list_index delivers one of the seventeen list indices, the binary
  logarithm of the size cut off at 16.
\<close>

theorem size_class:
  assumes "0 < unat sz"
  shows "calc_list_index sz < 17 \<and> 2 ^ calc_list_index sz \<le> unat sz \<and>
    (calc_list_index sz < 16 \<longrightarrow> unat sz < 2 ^ (calc_list_index sz + 1))"
  using calc_list_index_bounds [of sz] assms by (auto simp: FREELIST_COUNT_def)

theorem size_class_witness:
  "0 < unat (104 :: 32 word) \<and> calc_list_index 104 = 6"
proof -
  have "2 ^ calc_list_index 104 \<le> (104 :: nat)" "calc_list_index 104 < 16 \<longrightarrow> (104 :: nat) < 2 ^ (calc_list_index 104 + 1)"
    "calc_list_index 104 < 17"
    using size_class [of 104] by simp_all
  moreover have "k = 6" if "2 ^ k \<le> (104 :: nat)" "k < 16 \<longrightarrow> (104 :: nat) < 2 ^ (k + 1)" "k < 17" for k
  proof -
    have "k < 7" using power_increasing [of 7 k "2 :: nat"] that(1) by (cases "k < 7") simp_all
    moreover have "6 \<le> k" using power_increasing [of "k + 1" 6 "2 :: nat"] that(2) \<open>k < 7\<close> by (cases "6 \<le> k") simp_all
    ultimately show ?thesis by simp
  qed
  ultimately show ?thesis by simp
qed



text \<open>
  C27. debuggable_memset, the byte loop of the debug build, ends and writes the same
  memory as memset, for an area that does not wrap around the end of the address
  space.
\<close>

theorem memset_equivalent:
  assumes "unat p + unat len < 2 ^ 32"
  shows "debuggable_memset m p v len = memset m p v len"
  using assms by (rule debuggable_memset_eq)

theorem memset_equivalent_witness:
  "debuggable_memset (\<lambda>_. 0) 0x1000 7 16 0x100F = 7 \<and> debuggable_memset (\<lambda>_. 0) 0x1000 7 16 0x1010 = 0"
  using memset_equivalent [of "0x1000" 16 "\<lambda>_. 0" 7] by (simp add: memset_def)



text \<open>
  C29. The bound of mem_sbrk is tested after the pointer addition: an increment that
  carries the break past the end of the address space is granted, and the break moves
  down.
\<close>

theorem sbrk_wraps:
  assumes "unat incr < 2 ^ 31" "2 ^ 32 \<le> unat (mem_brk s) + unat incr"
    "unat (mem_brk s) + unat incr - 2 ^ 32 \<le> unat (mem_max_addr s)"
  shows "mem_sbrk incr s = (mem_brk s, s\<lparr>mem_brk := mem_brk s + incr\<rparr>) \<and> unat (mem_brk s + incr) < unat (mem_brk s)"
  using mem_sbrk_wraps [OF assms] by blast

theorem sbrk_wraps_witness:
  "mem_sbrk 0x20000000 (blank\<lparr>mem_brk := 0xF0000000, mem_max_addr := 0xF1400000\<rparr>) =
    (0xF0000000, blank\<lparr>mem_brk := 0x10000000, mem_max_addr := 0xF1400000\<rparr>)"
  using sbrk_wraps [of "0x20000000" "blank\<lparr>mem_brk := 0xF0000000, mem_max_addr := 0xF1400000\<rparr>"] by simp

section \<open>The edges of the package\<close>




text \<open>
  C32. mm_free merges forward only: when the block before the freed one is free, it
  stays a separate free block, so the heap then holds two adjacent free blocks.
\<close>

theorem free_keeps_before:
  assumes "heap_inv s B (frees B) F" "B p = Some (k, False)" "p + k = a" "B a = Some (sz, True)"
  shows "\<exists>s' B' F' j. mm_free (w32 a) s = Some s' \<and> heap_inv s' B' (frees B') F' \<and>
    B' p = Some (k, False) \<and> B' a = Some (j, False)"
  using assms by (rule mm_free_keeps_before)

theorem free_keeps_before_witness:
  "\<exists>s s' B' F' j. mm_free (w32 0x10000078) s = Some s' \<and> heap_inv s' B' (frees B') F' \<and>
    B' 0x10000010 = Some (104, False) \<and> B' 0x10000078 = Some (j, False)"
proof -
  obtain s B F where s: "heap_inv s B (frees B) F" "B 0x10000010 = Some (104, False)" "B 0x10000078 = Some (104, True)"
    by (rule demo_gap)
  from free_keeps_before [OF s(1,2) _ s(3)] show ?thesis by fastforce
qed

text \<open>
  C33. get_node_listindex returns -1 for every free block of a well-formed heap: the
  payload pointer that it compares with the list heads is 44 bytes behind the block.
\<close>

theorem node_listindex_lost:
  assumes "heap_inv s B (frees B) F" "B a = Some (sz, False)"
  shows "get_node_listindex (w32 a) s = Some (- 1)"
  using assms by (rule get_node_listindex_lost)

theorem node_listindex_lost_witness:
  "get_node_listindex (w32 0x10000010) demo = Some (- 1)"
proof -
  obtain F where F: "heap_inv demo (init_blocks 0x10000000 8200) (frees (init_blocks 0x10000000 8200)) F" by (rule demo_blocks)
  have "init_blocks 0x10000000 8200 0x10000010 = Some (8200, False)" by (simp add: init_blocks_def)
  with F show ?thesis by (rule node_listindex_lost)
qed

section \<open>The debug build\<close>





section \<open>The edges of the driver\<close>



text \<open>
  C37. The overlap test of add_range only asks whether an end of the new payload lies
  in an old one: a new payload that strictly contains every recorded one is accepted.
\<close>

theorem range_containment_missed:
  assumes "0 < sint sz" "IS_ALIGNED lo" "mem_heap_lo (mm d) \<le> lo" "lo \<le> lo + sz - 1" "lo + sz - 1 \<le> mem_heap_hi (mm d)"
    "\<forall>r \<in> set (ranges d). lo < r_lo r \<and> r_lo r \<le> r_hi r \<and> r_hi r < lo + sz - 1"
  shows "add_range True lo sz tracenum opnum d = returns (1, d\<lparr>ranges := \<lparr>r_lo = lo, r_hi = lo + sz - 1\<rparr> # ranges d\<rparr>)"
proof -
  have "List.find (in_range lo (lo + sz - 1)) (ranges d) = None"
    using assms(6) by (force simp: find_None_iff in_range_def)
  moreover have "\<not> (lo < mem_heap_lo (mm d) \<or> lo > mem_heap_hi (mm d) \<or>
      lo + sz - 1 < mem_heap_lo (mm d) \<or> lo + sz - 1 > mem_heap_hi (mm d))"
    using assms(3-5) by (auto simp: not_less intro: order_trans)
  ultimately show ?thesis using assms(1,2) unfolding add_range_def Let_def by (simp del: of_int_sint)
qed

theorem range_containment_missed_witness:
  "\<exists>d. ranges d = [\<lparr>r_lo = 0x10000018, r_hi = 0x1000001F\<rparr>] \<and>
    add_range True 0x10000010 64 0 0 d = returns (1, d\<lparr>ranges := \<lparr>r_lo = 0x10000010, r_hi = 0x1000004F\<rparr> # ranges d\<rparr>)"
proof -
  let ?d = "demo_driver\<lparr>mm := blank\<lparr>mem_start_brk := 0x10000000, mem_brk := 0x10001000\<rparr>,
    ranges := [\<lparr>r_lo = 0x10000018, r_hi = 0x1000001F\<rparr>]\<rparr>"
  have "add_range True 0x10000010 64 0 0 ?d = returns (1, ?d\<lparr>ranges := \<lparr>r_lo = 0x10000010, r_hi = 0x1000004F\<rparr> # ranges ?d\<rparr>)"
    using range_containment_missed [of 64 "0x10000010" ?d 0 0]
    by (simp add: IS_ALIGNED_def ALIGNMENT_def mem_heap_lo_def mem_heap_hi_def)
  then show ?thesis by (intro exI [of _ ?d]) simp
qed



text \<open>
  C39. sumresults on finite totals n of operations and t of seconds: when every trace
  is valid, it writes the number of traces, the mean utilisation and the throughput n
  / t, infinite for t = 0, and the assertion at its end holds; when some trace is
  invalid, the throughput keeps the contents of the uninitialised variable of main,
  and whether the assertion holds depends on it.
\<close>

theorem summary_complete:
  assumes "(\<Sum>st \<leftarrow> sts. s_ops st) = Fin n" "0 < n" "(\<Sum>st \<leftarrow> sts. s_secs st) = Fin t" "0 \<le> t"
  shows "sumresults sts True True (Some tput) =
    (if \<forall>st \<in> set sts. s_valid st \<noteq> 0 then
       returns (Some (length sts), Some ((\<Sum>st \<leftarrow> sts. s_util st) / Fin (real (length sts))),
         Some (if t = 0 then Inf else Fin (n / t)))
     else if tput > 0 then
       returns (Some (length (filter (\<lambda>st. s_valid st \<noteq> 0) sts)),
         Some ((\<Sum>st \<leftarrow> sts. s_util st) / Fin (real (length sts))), Some tput)
     else halts Assert)"
proof (cases "\<forall>st \<in> set sts. s_valid st \<noteq> 0")
  case True
  with sumresults_valid [OF True assms, of True True tput] assms(2) show ?thesis by (simp add: Fin_divide signed_inf_def)
next
  case False
  then have "\<exists>st \<in> set sts. s_valid st = 0" by blast
  from sumresults_invalid [OF this, of tput] False show ?thesis by (simp only: if_False)
qed

theorem summary_complete_witness:
  "sumresults [\<lparr>s_ops = Fin 10, s_valid = 1, s_secs = Fin 2, s_util = Fin (1 / 2)\<rparr>,
      \<lparr>s_ops = Fin 20, s_valid = 1, s_secs = Fin 4, s_util = Fin 1\<rparr>] True True (Some NaN) =
     returns (Some 2, Some (Fin (3 / 4)), Some (Fin 5)) \<and>
   sumresults [\<lparr>s_ops = Fin 10, s_valid = 1, s_secs = 0, s_util = 0\<rparr>] True True (Some NaN) = returns (Some 1, Some 0, Some Inf) \<and>
   sumresults [\<lparr>s_ops = Fin 10, s_valid = 0, s_secs = 0, s_util = 0\<rparr>] True True (Some (Fin (- 3))) = halts Assert"
  using summary_complete [of "[\<lparr>s_ops = Fin 10, s_valid = 1, s_secs = Fin 2, s_util = Fin (1 / 2)\<rparr>,
      \<lparr>s_ops = Fin 20, s_valid = 1, s_secs = Fin 4, s_util = Fin 1\<rparr>]" 30 6 NaN]
    summary_complete [of "[\<lparr>s_ops = Fin 10, s_valid = 1, s_secs = 0, s_util = 0\<rparr>]" 10 0 NaN]
    summary_complete [of "[\<lparr>s_ops = Fin 10, s_valid = 0, s_secs = 0, s_util = 0\<rparr>]" 10 0 "Fin (- 3)"]
  by (simp add: Fin_divide flip: Fin_0)

text \<open>
  C40. The loop over the command line ends. When it returns, the trace directory ends
  with a slash and fits into its buffer; with an option -f there is one trace file,
  that of the last -f, relative to the current directory, and otherwise the directory
  is that of the last -t; and each switch is set exactly when it was given. When it
  does not return, there was an option -h (exit code 0), an unknown option or an -f
  without memory (exit code 1), or a -t whose argument is empty or overruns the
  buffer.
\<close>

theorem options_meaning:
  "(\<exists>opt. read_options realloc_ok strdup args options_init = returns opt \<and> means strdup args opt) \<or>
   (\<exists>e. read_options realloc_ok strdup args options_init = halts e \<and>
     (\<exists>(c, s) \<in> set args. c = CHR ''h'' \<and> e = Stop (Exit 0) \<or> c \<notin> set ''ftavVglh'' \<and> e = Stop (Exit 1) \<or>
       c = CHR ''f'' \<and> \<not> realloc_ok \<and> e = Stop (Exit 1) \<or>
       c = CHR ''t'' \<and> (s = '''' \<or> MAXLINE \<le> length s + 1) \<and> e = Undefined))"
proof -
  obtain x where x: "read_options realloc_ok strdup args options_init = Some x" using read_options_total by blast
  show ?thesis
  proof (cases x)
    case (Inl e)
    with x have h: "read_options realloc_ok strdup args options_init = halts e" by (simp add: halts_def)
    from read_options_halts [OF h] h show ?thesis by (intro disjI2 exI [of _ e] conjI)
  next
    case (Inr opt)
    with x have r: "read_options realloc_ok strdup args options_init = returns opt" by (simp add: returns_def)
    from read_options_means [OF r] r show ?thesis by (intro disjI1 exI [of _ opt] conjI)
  qed
qed

theorem options_meaning_witness:
  "read_options True Some [(CHR ''t'', ''dir''), (CHR ''v'', '''')] options_init =
    returns (options_init\<lparr>o_tracedir := ''dir/'', o_verbose := 1\<rparr>) \<and>
   means Some [(CHR ''t'', ''dir''), (CHR ''v'', '''')] (options_init\<lparr>o_tracedir := ''dir/'', o_verbose := 1\<rparr>)"
proof -
  have r: "read_options True Some [(CHR ''t'', ''dir''), (CHR ''v'', '''')] options_init =
    returns (options_init\<lparr>o_tracedir := ''dir/'', o_verbose := 1\<rparr>)"
    by (simp add: read_option_def set_tracedir_def options_init_def MAXLINE_def)
  from options_meaning [of True Some "[(CHR ''t'', ''dir''), (CHR ''v'', '''')]"] show ?thesis
    unfolding r by simp
qed

end
